(* ===== verification/Prelude.thy ===== *)
theory Prelude
  imports Main "HOL-Library.Word" "HOL-Library.Monad_Syntax"
begin

text \<open>
  The shared prelude: the widths of the kernel's integers, Rust's \<open>Result\<close> type and the
  checked, saturating and wrapping operations of its standard library, and the generic
  lemmas on words, lists and options that the component theories share.

  The kernel is built with \<open>cargo build --release\<close> (see the Makefile), so \<open>+\<close>, \<open>-\<close> and
  \<open>*\<close> on fixed-width integers wrap around; this is what \<open>+\<close>, \<open>-\<close> and \<open>*\<close> do on words.
\<close>

unbundle bit_operations_syntax

named_theorems word_to_nat \<open>equations that read word operations as operations on nat\<close>

type_synonym u8 = "8 word"
type_synonym u16 = "16 word"
type_synonym u32 = "32 word"
type_synonym u64 = "64 word"
type_synonym usize = "64 word"

datatype ('a, 'e) result = Ok 'a | Err 'e

definition is_ok :: "('a, 'e) result \<Rightarrow> bool" where
  "is_ok r = (case r of Ok _ \<Rightarrow> True | Err _ \<Rightarrow> False)"

text \<open>The \<open>?\<close> operator of a function that changes the state and may fail.\<close>

definition ebind ::
  "(('a, 'e) result \<times> 's) option \<Rightarrow> ('a \<Rightarrow> 's \<Rightarrow> (('b, 'e) result \<times> 's) option) \<Rightarrow> (('b, 'e) result \<times> 's) option" where
  "ebind m f = (case m of None \<Rightarrow> None | Some (Ok a, s) \<Rightarrow> f a s | Some (Err e, s) \<Rightarrow> Some (Err e, s))"

definition checked_add :: "'w::len word \<Rightarrow> 'w word \<Rightarrow> 'w word option" where
  "checked_add a b = (if unat a + unat b < 2 ^ LENGTH('w) then Some (a + b) else None)"

definition checked_mul :: "'w::len word \<Rightarrow> 'w word \<Rightarrow> 'w word option" where
  "checked_mul a b = (if unat a * unat b < 2 ^ LENGTH('w) then Some (a * b) else None)"

definition saturating_add :: "'w::len word \<Rightarrow> 'w word \<Rightarrow> 'w word" where
  "saturating_add a b = (if unat a + unat b < 2 ^ LENGTH('w) then a + b else - 1)"

definition saturating_sub :: "'w::len word \<Rightarrow> 'w word \<Rightarrow> 'w word" where
  "saturating_sub a b = (if b \<le> a then a - b else 0)"

section \<open>Results\<close>

lemma is_ok_simps [simp]: "is_ok (Ok a)" "\<not> is_ok (Err e)"
  by (simp_all add: is_ok_def)

lemma ebind_simps [simp]:
  "ebind None f = None" "ebind (Some (Ok a, s)) f = f a s" "ebind (Some (Err e, s)) f = Some (Err e, s)"
  by (simp_all add: ebind_def)

lemma ebind_SomeE:
  assumes "ebind m f = Some (r, s')"
  obtains a s where "m = Some (Ok a, s)" "f a s = Some (r, s')" | e where "m = Some (Err e, s')" "r = Err e"
  using assms by (auto simp: ebind_def split: option.splits prod.splits result.splits)

text \<open>A fallible step with a recursive call in it is monotone in that call.\<close>

lemma ebind_mono [partial_function_mono]:
  assumes "mono_option M" "\<And>a s. mono_option (\<lambda>g. F g a s)"
  shows "mono_option (\<lambda>g. ebind (M g) (\<lambda>a s. F g a s))"
proof -
  have "(\<lambda>g. ebind (M g) (\<lambda>a s. F g a s))
      = (\<lambda>g. Option.bind (M g) (\<lambda>(r, s). case r of Ok a \<Rightarrow> F g a s | Err e \<Rightarrow> Some (Err e, s)))"
    by (auto simp: ebind_def split: option.split result.split)
  moreover have "mono_option (\<lambda>g. (\<lambda>(r, s). case r of Ok a \<Rightarrow> F g a s | Err e \<Rightarrow> Some (Err e, s)) x)" for x
    using assms(2) by (cases x; cases "fst x") (auto intro: option.const_mono)
  ultimately show ?thesis
    using assms(1) by (simp only:) (rule bind_mono)
qed

section \<open>Words as natural numbers\<close>

lemma unat_add_no_wrap:
  fixes a b :: "'w::len word"
  assumes "unat a + unat b < 2 ^ LENGTH('w)"
  shows "unat (a + b) = unat a + unat b"
  using assms by (simp add: unat_word_ariths)

lemma checked_add_SomeD:
  fixes a b :: "'w::len word"
  assumes "checked_add a b = Some c"
  shows "c = a + b" "unat c = unat a + unat b"
  using assms by (auto simp: checked_add_def unat_add_no_wrap split: if_splits)

lemma checked_add_NoneD:
  fixes a b :: "'w::len word"
  assumes "checked_add a b = None"
  shows "2 ^ LENGTH('w) \<le> unat a + unat b"
  using assms by (auto simp: checked_add_def split: if_splits)

lemma unat_sub_le:
  fixes a b :: "'w::len word"
  assumes "b \<le> a"
  shows "unat (a - b) = unat a - unat b"
  using assms by (simp add: unat_sub)

lemma unat_eq_iff: "unat a = unat b \<longleftrightarrow> a = (b :: 'w::len word)"
  by (simp add: word_unat_eq_iff)

lemma bit_two_power_minus_one:
  fixes n k :: nat
  assumes "k < LENGTH('w)"
  shows "bit ((2 :: 'w::len word) ^ k - 1) n \<longleftrightarrow> n < k"
  using assms by (auto simp: mask_eq_exp_minus_1 [symmetric] bit_mask_iff)

text \<open>Clearing the low \<open>k\<close> bits, written as the source writes it: \<open>x & !((1 << k) - 1)\<close>.\<close>

lemma and_not_low_bits:
  fixes x :: "'w::len word"
  assumes "k < LENGTH('w)"
  shows "x AND NOT (2 ^ k - 1) = push_bit k (drop_bit k x)"
proof -
  have "x AND NOT (2 ^ k - 1) = x AND NOT (mask k)"
    by (simp add: mask_eq_exp_minus_1)
  also have "\<dots> = push_bit k (drop_bit k x)"
    by (rule bit_word_eqI) (auto simp: bit_simps)
  finally show ?thesis .
qed

lemma unat_clear_low_bits:
  fixes x :: "'w::len word"
  shows "unat (push_bit k (drop_bit k x)) = unat x div 2 ^ k * 2 ^ k"
proof -
  have x: "take_bit LENGTH('w) (unat x) = unat x"
    by (simp add: take_bit_nat_eq_self_iff unsigned_less)
  have "unat x div 2 ^ k * 2 ^ k < 2 ^ LENGTH('w)"
    using div_times_less_eq_dividend unsigned_less by (rule le_less_trans)
  then have "take_bit LENGTH('w) (push_bit k (drop_bit k (unat x))) = unat x div 2 ^ k * 2 ^ k"
    by (simp only: push_bit_eq_mult drop_bit_eq_div take_bit_nat_eq_self_iff)
  then show ?thesis
    by (simp only: unsigned_push_bit_eq unsigned_drop_bit_eq x)
qed

lemma unat_and_not_low_bits [word_to_nat]:
  fixes x :: "'w::len word"
  assumes "k < LENGTH('w)"
  shows "unat (x AND NOT (2 ^ k - 1)) = unat x div 2 ^ k * 2 ^ k"
  using assms by (simp add: and_not_low_bits unat_clear_low_bits)

lemma unat_two_power:
  assumes "k < LENGTH('w)"
  shows "unat ((2 :: 'w::len word) ^ k) = 2 ^ k"
  using assms by (simp add: of_nat_inverse)

section \<open>Rounding on nat\<close>

lemma round_down_bounds:
  fixes x n :: nat
  assumes "0 < n"
  shows "x div n * n \<le> x" "x < x div n * n + n"
  using assms by (simp_all add: dividend_less_div_times add.commute)

lemma round_up_bounds:
  fixes x n :: nat
  assumes "0 < n"
  shows "x \<le> (x + n - 1) div n * n" "(x + n - 1) div n * n < x + n"
proof -
  have "x + n - 1 < (x + n - 1) div n * n + n"
    using round_down_bounds(2) [OF assms] .
  then show "x \<le> (x + n - 1) div n * n"
    using assms by linarith
  have "(x + n - 1) div n * n \<le> x + n - 1"
    using round_down_bounds(1) [OF assms] .
  then show "(x + n - 1) div n * n < x + n"
    using assms by linarith
qed

section \<open>Adjacent half-open segments\<close>

lemma seg_disjoint:
  fixes s m e a b :: "'a::linorder"
  assumes "s < m" "m < e" "a < b" "\<not> (s < b \<and> a < m)" "\<not> (m < b \<and> a < e)"
  shows "\<not> (s < b \<and> a < e)"
  using assms by (metis not_less order_le_less_trans)

lemma seg_join:
  fixes s m e x :: "'a::linorder"
  assumes "s < m" "m < e"
  shows "s \<le> x \<and> x < e \<longleftrightarrow> (s \<le> x \<and> x < m) \<or> (m \<le> x \<and> x < e)"
  using assms by (meson not_less order_less_imp_le order_less_trans order_trans)

end
