(* ===== verification/Addr.thy ===== *)
theory Addr
  imports Prelude
begin

text \<open>
  Addresses, page-table entries and the memory manager's error types
  (\<open>src/mm/src/addr.rs\<close>, \<open>src/mm/src/page_table.rs\<close>, \<open>src/mm/src/error.rs\<close>).

  \<open>PhysAddr\<close> and \<open>VirtAddr\<close> are transparent wrappers of a \<open>u64\<close>; a page-table entry is a
  transparent \<open>u64\<close> too, and \<open>PageTableFlags\<close> is its \<open>bitflags\<close> view. The lemmas show what
  the alignment masks compute, that the four table indices and the page offset are exactly
  the digits of the low 48 bits of an address, and that an entry gives back the address
  and the flags it was set to.
\<close>

section \<open>Addresses\<close>

type_synonym PhysAddr = u64
type_synonym VirtAddr = u64

definition is_aligned :: "u64 \<Rightarrow> u64 \<Rightarrow> bool" where
  "is_aligned addr align = (addr mod align = 0)"

definition align_down :: "u64 \<Rightarrow> u64 \<Rightarrow> u64" where
  "align_down addr align = addr AND NOT (align - 1)"

definition align_up :: "u64 \<Rightarrow> u64 \<Rightarrow> u64" where
  "align_up addr align = (addr + align - 1) AND NOT (align - 1)"

definition p4_index :: "VirtAddr \<Rightarrow> nat" where
  "p4_index addr = unat (drop_bit 39 addr AND 0x1ff)"

definition p3_index :: "VirtAddr \<Rightarrow> nat" where
  "p3_index addr = unat (drop_bit 30 addr AND 0x1ff)"

definition p2_index :: "VirtAddr \<Rightarrow> nat" where
  "p2_index addr = unat (drop_bit 21 addr AND 0x1ff)"

definition p1_index :: "VirtAddr \<Rightarrow> nat" where
  "p1_index addr = unat (drop_bit 12 addr AND 0x1ff)"

definition page_offset :: "VirtAddr \<Rightarrow> nat" where
  "page_offset addr = unat (addr AND 0xfff)"

section \<open>Page-table entries\<close>

type_synonym PageTableFlags = u64

definition PRESENT :: PageTableFlags where "PRESENT = push_bit 0 1"
definition WRITABLE :: PageTableFlags where "WRITABLE = push_bit 1 1"
definition USER_ACCESSIBLE :: PageTableFlags where "USER_ACCESSIBLE = push_bit 2 1"
definition WRITE_THROUGH :: PageTableFlags where "WRITE_THROUGH = push_bit 3 1"
definition NO_CACHE :: PageTableFlags where "NO_CACHE = push_bit 4 1"
definition ACCESSED :: PageTableFlags where "ACCESSED = push_bit 5 1"
definition DIRTY :: PageTableFlags where "DIRTY = push_bit 6 1"
definition HUGE_PAGE :: PageTableFlags where "HUGE_PAGE = push_bit 7 1"
definition GLOBAL :: PageTableFlags where "GLOBAL = push_bit 8 1"
definition NO_EXECUTE :: PageTableFlags where "NO_EXECUTE = push_bit 63 1"

text \<open>\<open>PageTableFlags::all()\<close> and \<open>contains\<close>, as \<open>bitflags!\<close> generates them from the constants.\<close>

definition all_flags :: PageTableFlags where
  "all_flags = PRESENT OR WRITABLE OR USER_ACCESSIBLE OR WRITE_THROUGH OR NO_CACHE OR ACCESSED
     OR DIRTY OR HUGE_PAGE OR GLOBAL OR NO_EXECUTE"

definition contains :: "PageTableFlags \<Rightarrow> PageTableFlags \<Rightarrow> bool" where
  "contains flags other = (flags AND other = other)"

type_synonym PageTableEntry = u64

definition entry_new :: PageTableEntry where
  "entry_new = 0"

definition is_unused :: "PageTableEntry \<Rightarrow> bool" where
  "is_unused entry = (entry = 0)"

definition set_unused :: "PageTableEntry \<Rightarrow> PageTableEntry" where
  "set_unused entry = 0"

definition entry_flags :: "PageTableEntry \<Rightarrow> PageTableFlags" where
  "entry_flags entry = entry AND all_flags"

definition entry_addr :: "PageTableEntry \<Rightarrow> PhysAddr" where
  "entry_addr entry = entry AND 0x000ffffffffff000"

definition entry_frame :: "PageTableEntry \<Rightarrow> PhysAddr" where
  "entry_frame entry = entry_addr entry"

text \<open>\<open>set_addr\<close> asserts that the address is page aligned; \<open>None\<close> is the panic.\<close>

definition set_addr :: "PhysAddr \<Rightarrow> PageTableFlags \<Rightarrow> PageTableEntry option" where
  "set_addr addr flags = (if is_aligned addr 4096 then Some (addr OR flags) else None)"

definition set_flags :: "PageTableEntry \<Rightarrow> PageTableFlags \<Rightarrow> PageTableEntry" where
  "set_flags entry flags = entry_addr entry OR flags"

section \<open>Errors\<close>

datatype MapError =
    MapFrameAllocationFailed
  | PageAlreadyMapped
  | PageNotMapped
  | ParentEntryHugePage
  | HugePageNotAligned
  | InvalidHugePageUnmap
  | InvalidAccess

datatype ErrorKind = Recoverable | Fatal

datatype MmError =
    InvalidElf
  | NotExecutable
  | Not64Bit
  | InvalidElfMagic
  | PhysOffsetMissing
  | FrameAllocationFailed
  | Map MapError
  | AreaOverlap
  | TranslationFailed
  | MapFailed

fun mm_error_kind :: "MmError \<Rightarrow> ErrorKind" where
  "mm_error_kind PhysOffsetMissing = Fatal"
| "mm_error_kind FrameAllocationFailed = Recoverable"
| "mm_error_kind (Map InvalidAccess) = Recoverable"
| "mm_error_kind (Map _) = Recoverable"
| "mm_error_kind InvalidElf = Recoverable"
| "mm_error_kind NotExecutable = Recoverable"
| "mm_error_kind Not64Bit = Recoverable"
| "mm_error_kind InvalidElfMagic = Recoverable"
| "mm_error_kind AreaOverlap = Recoverable"
| "mm_error_kind TranslationFailed = Recoverable"
| "mm_error_kind MapFailed = Recoverable"

section \<open>Alignment\<close>

lemma is_aligned_unat: "is_aligned addr align \<longleftrightarrow> unat addr mod unat align = 0"
  by (simp add: is_aligned_def word_unat_eq_iff unat_mod)

lemma unat_align_down [word_to_nat]:
  assumes "k < 64"
  shows "unat (align_down addr (2 ^ k)) = unat addr div 2 ^ k * 2 ^ k"
  using assms by (simp add: align_down_def unat_and_not_low_bits)

lemma unat_align_up [word_to_nat]:
  assumes "k < 64" "unat addr + 2 ^ k \<le> 2 ^ 64"
  shows "unat (align_up addr (2 ^ k)) = (unat addr + 2 ^ k - 1) div 2 ^ k * 2 ^ k"
proof -
  have k: "unat ((2 :: u64) ^ k) = 2 ^ k"
    using assms(1) by (simp add: unat_two_power)
  have pos: "0 < (2 :: nat) ^ k"
    by simp
  have m1: "unat ((2 :: u64) ^ k - 1) = 2 ^ k - 1"
    using k by (subst unat_sub_le) (simp_all add: word_le_nat_alt)
  have "unat (addr + (2 ^ k - 1)) = unat addr + (2 ^ k - 1)"
    by (subst unat_add_no_wrap) (use assms(2) m1 pos in simp_all)
  then have "unat (addr + 2 ^ k - 1) = unat addr + 2 ^ k - 1"
    using pos by (simp add: add_diff_eq)
  then show ?thesis
    using assms(1) by (simp add: align_up_def unat_and_not_low_bits)
qed

lemma page_size_power: "(4096 :: u64) = 2 ^ 12"
  by simp

lemma unat_align_down_page:
  "unat (align_down addr 4096) = unat addr div 4096 * 4096"
  unfolding page_size_power using unat_align_down [of 12 addr] by simp

lemma unat_align_up_page:
  assumes "unat addr + 4096 \<le> 2 ^ 64"
  shows "unat (align_up addr 4096) = (unat addr + 4095) div 4096 * 4096"
  unfolding page_size_power using unat_align_up [of 12 addr] assms by simp

lemma align_down_page_le: "align_down addr 4096 \<le> addr"
  by (simp add: word_le_nat_alt unat_align_down_page)

section \<open>The digits of a virtual address\<close>

lemma unat_and_1ff: "unat (x AND 0x1ff) = unat (x :: u64) mod 512"
proof -
  have "x AND 0x1ff = take_bit 9 x"
    by (simp add: take_bit_eq_mask mask_eq_exp_minus_1)
  then show ?thesis
    by (simp add: take_bit_eq_mod unat_mod)
qed

lemma unat_and_fff: "unat (x AND 0xfff) = unat (x :: u64) mod 4096"
proof -
  have "x AND 0xfff = take_bit 12 x"
    by (simp add: take_bit_eq_mask mask_eq_exp_minus_1)
  then show ?thesis
    by (simp add: take_bit_eq_mod unat_mod)
qed

lemma index_unat [word_to_nat]:
  "p4_index a = unat a div 2 ^ 39 mod 512"
  "p3_index a = unat a div 2 ^ 30 mod 512"
  "p2_index a = unat a div 2 ^ 21 mod 512"
  "p1_index a = unat a div 2 ^ 12 mod 512"
  "page_offset a = unat a mod 4096"
  by (simp_all add: p4_index_def p3_index_def p2_index_def p1_index_def page_offset_def
      unat_and_1ff unat_and_fff unat_div drop_bit_eq_div)

lemma index_bounds:
  "p4_index a < 512" "p3_index a < 512" "p2_index a < 512" "p1_index a < 512"
  "page_offset a < 4096"
  by (simp_all add: word_to_nat)

lemma nat_digits_48:
  fixes n :: nat
  shows "n mod 2 ^ 48 = (n div 2 ^ 39 mod 512) * 2 ^ 39 + (n div 2 ^ 30 mod 512) * 2 ^ 30
    + (n div 2 ^ 21 mod 512) * 2 ^ 21 + (n div 2 ^ 12 mod 512) * 2 ^ 12 + n mod 4096"
proof -
  have "n mod (2 ^ k * 512) = 2 ^ k * (n div 2 ^ k mod 512) + n mod 2 ^ k" for k
    by (rule mod_mult2_eq)
  from this [of 39] this [of 30] this [of 21] this [of 12] show ?thesis
    by simp
qed

text \<open>the four table indices and the page offset of a virtual address are the base-512
  (and base-4096) digits of its low 48 bits, so an address is recovered from the path a page
  walk takes, and each index is a valid index of a 512-entry table.\<close>

theorem virt_addr_digits:
  "unat addr mod 2 ^ 48 = p4_index addr * 2 ^ 39 + p3_index addr * 2 ^ 30 + p2_index addr * 2 ^ 21
     + p1_index addr * 2 ^ 12 + page_offset addr
   \<and> p4_index addr < 512 \<and> p3_index addr < 512 \<and> p2_index addr < 512 \<and> p1_index addr < 512
   \<and> page_offset addr < 4096"
  using nat_digits_48 [of "unat addr"] index_bounds [of addr] by (simp only: index_unat simp_thms)

lemma page_number_digits:
  "unat a mod 2 ^ 48 div 4096 = ((p4_index a * 512 + p3_index a) * 512 + p2_index a) * 512 + p1_index a"
proof -
  let ?X = "((p4_index a * 512 + p3_index a) * 512 + p2_index a) * 512 + p1_index a"
  have "unat a mod 2 ^ 48 = page_offset a + ?X * 4096"
    using nat_digits_48 [of "unat a"] by (simp only: index_unat) simp
  then show ?thesis
    using index_bounds(5) [of a] by (simp only: div_mult_self1)
qed

text \<open>C26: for a power of two, \<open>align_down\<close> is the largest multiple not above the address, and
  \<open>align_up\<close> the smallest multiple not below it as long as the rounding does not pass the end
  of the 64-bit address space.\<close>

theorem align_bounds:
  assumes "k < 64" "unat addr + 2 ^ k \<le> 2 ^ 64"
  shows "is_aligned (align_down addr (2 ^ k)) (2 ^ k) \<and> is_aligned (align_up addr (2 ^ k)) (2 ^ k)
    \<and> align_down addr (2 ^ k) \<le> addr \<and> unat addr < unat (align_down addr (2 ^ k)) + 2 ^ k
    \<and> addr \<le> align_up addr (2 ^ k) \<and> unat (align_up addr (2 ^ k)) < unat addr + 2 ^ k"
proof -
  have pos: "0 < (2 :: nat) ^ k"
    by simp
  note eqs = unat_align_down [OF assms(1)] unat_align_up [OF assms] unat_two_power
  show ?thesis
    using assms(1) round_down_bounds [OF pos, of "unat addr"] round_up_bounds [OF pos, of "unat addr"]
    by (simp add: is_aligned_unat word_le_nat_alt eqs)
qed

theorem align_bounds_witness:
  "is_aligned (align_up 5000 (2 ^ 12)) (2 ^ 12) \<and> (5000 :: u64) \<le> align_up 5000 (2 ^ 12)"
  using align_bounds [of 12 5000] by simp

section \<open>Entries\<close>

lemma bit_entry_addr_iff: "bit (entry_addr e) n \<longleftrightarrow> bit e n \<and> 12 \<le> n \<and> n < 52"
proof -
  have "entry_addr e = e AND push_bit 12 (mask 40)"
    by (simp add: entry_addr_def mask_eq_exp_minus_1)
  then show ?thesis
    by (auto simp only: bit_and_iff bit_push_bit_iff bit_mask_iff dest: bit_imp_le_length)
      (simp_all add: bit_simps)
qed

lemma all_flags_value: "all_flags = 0x80000000000001ff"
  by (simp add: all_flags_def PRESENT_def WRITABLE_def USER_ACCESSIBLE_def WRITE_THROUGH_def
      NO_CACHE_def ACCESSED_def DIRTY_def HUGE_PAGE_def GLOBAL_def NO_EXECUTE_def)

lemma bit_all_flags: "bit all_flags n \<longleftrightarrow> n < 9 \<or> n = 63"
proof -
  have eq: "all_flags = mask 9 OR push_bit 63 1"
    by (simp add: all_flags_value mask_eq_exp_minus_1)
  show ?thesis
    unfolding eq bit_or_iff bit_mask_iff bit_push_bit_iff bit_1_iff by auto
qed

lemma bit_entry_flags_iff: "bit (entry_flags e) n \<longleftrightarrow> bit e n \<and> (n < 9 \<or> n = 63)"
  by (simp add: entry_flags_def bit_and_iff bit_all_flags)

lemma aligned_page_bit:
  assumes "is_aligned addr 4096" "bit addr n"
  shows "12 \<le> n"
proof (rule ccontr)
  assume "\<not> 12 \<le> n"
  have "take_bit 12 addr = 0"
    using assms(1) by (simp add: is_aligned_def take_bit_eq_mod)
  with assms(2) \<open>\<not> 12 \<le> n\<close> show False
    by (metis bit_0_eq bit_take_bit_iff bot_apply bot_bool_def not_le)
qed

lemma addr_flags_split:
  assumes "\<And>n. bit addr n \<Longrightarrow> 12 \<le> n \<and> n < 52"
    and "\<And>n. bit flags n \<Longrightarrow> n < 9 \<or> n = 63"
  shows "entry_addr (addr OR flags) = addr" "entry_flags (addr OR flags) = flags"
proof -
  have "bit (entry_addr (addr OR flags)) n = bit addr n"
    "bit (entry_flags (addr OR flags)) n = bit flags n" for n
    using assms(1) [of n] assms(2) [of n]
    by (auto simp: bit_entry_addr_iff bit_entry_flags_iff bit_or_iff)
  then show "entry_addr (addr OR flags) = addr" "entry_flags (addr OR flags) = flags"
    by (auto intro: bit_eqI)
qed

lemma bit_sub_all_flags:
  assumes "flags AND NOT all_flags = 0" "bit flags n"
  shows "n < 9 \<or> n = 63"
proof -
  have "\<not> bit (flags AND NOT all_flags) n"
    using assms(1) by simp
  with assms(2) show ?thesis
    by (auto simp: bit_and_iff bit_not_iff bit_all_flags dest: bit_imp_le_length)
qed

lemma bit_unat_bound:
  assumes "bit (w :: u64) n"
  shows "2 ^ n \<le> unat w"
proof (rule ccontr)
  assume "\<not> 2 ^ n \<le> unat w"
  moreover have "bit (unat w) n"
    using assms by (auto simp: bit_unsigned_iff dest: bit_imp_le_length)
  ultimately show False
    by (simp add: bit_iff_odd)
qed

text \<open>C27: an entry set to a page-aligned frame below 2^52 with any combination of the declared
  flags reads back as exactly that frame and those flags, and changing its flags afterwards
  keeps the frame; \<open>set_addr\<close> panics exactly on an unaligned frame.\<close>

theorem entry_roundtrip:
  assumes "unat addr < 2 ^ 52" "flags AND NOT all_flags = 0" "flags' AND NOT all_flags = 0"
  shows "(set_addr addr flags = None) = (\<not> is_aligned addr 4096)
    \<and> (\<forall>e. set_addr addr flags = Some e \<longrightarrow>
          entry_addr e = addr \<and> entry_flags e = flags
        \<and> entry_addr (set_flags e flags') = addr \<and> entry_flags (set_flags e flags') = flags')"
proof -
  have small: "n < 52" if "bit addr n" for n
    using bit_unat_bound [OF that] assms(1)
    by (metis le_less_trans nat_power_less_imp_less zero_less_numeral)
  have addr: "12 \<le> n \<and> n < 52" if "is_aligned addr 4096" "bit addr n" for n
    using aligned_page_bit [OF that] small [OF that(2)] by simp
  show ?thesis
    using addr_flags_split [of addr flags] addr_flags_split [of addr flags'] addr
      bit_sub_all_flags [OF assms(2)] bit_sub_all_flags [OF assms(3)]
    by (auto simp: set_addr_def set_flags_def)
qed

theorem entry_roundtrip_witness:
  "entry_addr (0x5000 OR (PRESENT OR WRITABLE)) = 0x5000"
proof -
  have fl: "(PRESENT OR WRITABLE) AND NOT all_flags = 0" "(0 :: u64) AND NOT all_flags = 0"
    by (simp_all add: PRESENT_def WRITABLE_def all_flags_value)
  have "set_addr 0x5000 (PRESENT OR WRITABLE) = Some (0x5000 OR (PRESENT OR WRITABLE))"
    by (simp add: set_addr_def is_aligned_def)
  then show ?thesis
    using entry_roundtrip [of "0x5000", OF _ fl] by simp
qed

end
