(* ===== verification/VmaTree.thy ===== *)
theory VmaTree
  imports Addr
begin

text \<open>
  The interval treap of virtual memory areas (\<open>src/mm/src/memory_set/vma_tree.rs\<close>).

  A tree is an \<open>Option<Box<IntervalNode>>\<close>: \<open>Empty\<close> or a node that caches its key, its priority
  and the largest area end below it. The operations are translated loop by loop; the insertion
  loop, which merges the new area with its neighbours until nothing merges, is a
  \<open>partial_function\<close>, and that it returns is a theorem. The invariant \<open>vma_wf\<close> says that the
  caches are right, that the areas are nonempty, sorted and disjoint, and that the priorities
  form a heap. The operations are then characterised by what they do to the list of areas.
\<close>

section \<open>Data\<close>

datatype Backing = Anonymous | File

record MemoryArea =
  area_start :: VirtAddr
  area_end :: VirtAddr
  area_flags :: PageTableFlags
  area_backing :: Backing

definition memory_area_new :: "VirtAddr \<Rightarrow> VirtAddr \<Rightarrow> PageTableFlags \<Rightarrow> MemoryArea" where
  "memory_area_new s e flags =
     \<lparr> area_start = s, area_end = e, area_flags = flags, area_backing = Anonymous \<rparr>"

definition area_size :: "MemoryArea \<Rightarrow> u64" where
  "area_size area = area_end area - area_start area"

definition area_contains :: "MemoryArea \<Rightarrow> VirtAddr \<Rightarrow> bool" where
  "area_contains area addr \<longleftrightarrow> area_start area \<le> addr \<and> addr < area_end area"

datatype IntervalNode =
    Empty
  | Node (key: u64) (area: MemoryArea) (max_end: u64) (prio: u64)
      (left: IntervalNode) (right: IntervalNode)

definition splitmix64 :: "u64 \<Rightarrow> u64" where
  "splitmix64 x0 =
    (let x = x0 + 0x9E3779B97F4A7C15;
         z = x;
         z = (z XOR drop_bit 30 z) * 0xBF58476D1CE4E5B9;
         z = (z XOR drop_bit 27 z) * 0x94D049BB133111EB
     in z XOR drop_bit 31 z)"

definition node_new :: "MemoryArea \<Rightarrow> IntervalNode" where
  "node_new ar = Node (area_start ar) ar (area_end ar) (splitmix64 (area_start ar)) Empty Empty"

definition raise_max :: "u64 \<Rightarrow> IntervalNode \<Rightarrow> u64" where
  "raise_max m t =
     (case t of Empty \<Rightarrow> m | Node _ _ me _ _ _ \<Rightarrow> if me > m then me else m)"

fun recalc :: "IntervalNode \<Rightarrow> IntervalNode" where
  "recalc Empty = Empty"
| "recalc (Node k ar _ p l r) = Node k ar (raise_max (raise_max (area_end ar) l) r) p l r"

section \<open>Treap operations\<close>

fun merge :: "IntervalNode \<Rightarrow> IntervalNode \<Rightarrow> IntervalNode" where
  "merge Empty r = r"
| "merge l Empty = l"
| "merge (Node k1 a1 m1 p1 l1 r1) (Node k2 a2 m2 p2 l2 r2) =
    (if p1 \<ge> p2 then recalc (Node k1 a1 m1 p1 l1 (merge r1 (Node k2 a2 m2 p2 l2 r2)))
     else recalc (Node k2 a2 m2 p2 (merge (Node k1 a1 m1 p1 l1 r1) l2) r2))"

fun split :: "IntervalNode \<Rightarrow> u64 \<Rightarrow> IntervalNode \<times> IntervalNode" where
  "split Empty _ = (Empty, Empty)"
| "split (Node k ar m p l r) x =
    (if x \<le> k then (let (a, b) = split l x in (a, recalc (Node k ar m p b r)))
     else (let (a, b) = split r x in (recalc (Node k ar m p l a), b)))"

definition insert_node :: "IntervalNode \<Rightarrow> IntervalNode \<Rightarrow> IntervalNode" where
  "insert_node root node =
    (if root = Empty then node
     else (let (l, r) = split root (key node); merged = merge l node in merge merged r))"

definition node_area :: "IntervalNode \<Rightarrow> MemoryArea option" where
  "node_area t = (case t of Empty \<Rightarrow> None | Node _ ar _ _ _ _ \<Rightarrow> Some ar)"

definition remove_node :: "IntervalNode \<Rightarrow> u64 \<Rightarrow> IntervalNode \<times> MemoryArea option" where
  "remove_node root x =
    (let (l, r) = split root x
     in if x = - 1 then (l, node_area r)
        else (let (mid, r2) = split r (x + 1) in (merge l r2, node_area mid)))"

fun find_prev_loop :: "IntervalNode \<Rightarrow> u64 \<Rightarrow> MemoryArea option \<Rightarrow> MemoryArea option" where
  "find_prev_loop Empty x res = res"
| "find_prev_loop (Node k ar _ _ l r) x res =
    (if x < k then find_prev_loop l x res else find_prev_loop r x (Some ar))"

definition find_prev :: "IntervalNode \<Rightarrow> u64 \<Rightarrow> MemoryArea option" where
  "find_prev root x = find_prev_loop root x None"

fun find_next_loop :: "IntervalNode \<Rightarrow> u64 \<Rightarrow> MemoryArea option \<Rightarrow> MemoryArea option" where
  "find_next_loop Empty x res = res"
| "find_next_loop (Node k ar _ _ l r) x res =
    (if x \<le> k then find_next_loop l x (Some ar) else find_next_loop r x res)"

definition find_next :: "IntervalNode \<Rightarrow> u64 \<Rightarrow> MemoryArea option" where
  "find_next root x = find_next_loop root x None"

fun find_containing :: "IntervalNode \<Rightarrow> u64 \<Rightarrow> MemoryArea option" where
  "find_containing Empty addr = None"
| "find_containing (Node _ ar _ _ l r) addr =
    (if l \<noteq> Empty \<and> max_end l > addr then find_containing l addr
     else if addr < area_start ar then find_containing r addr
     else if addr \<ge> area_end ar then find_containing r addr
     else Some ar)"

section \<open>Traversals with an explicit stack\<close>

fun push_left :: "IntervalNode \<Rightarrow> IntervalNode list \<Rightarrow> IntervalNode list" where
  "push_left Empty stack = stack"
| "push_left (Node k ar m p l r) stack = push_left l (Node k ar m p l r # stack)"

fun nodes :: "IntervalNode \<Rightarrow> nat" where
  "nodes Empty = 0"
| "nodes (Node _ _ _ _ l r) = Suc (nodes l + nodes r)"

definition pending :: "IntervalNode list \<Rightarrow> nat" where
  "pending stack = sum_list (map (\<lambda>t. case t of Empty \<Rightarrow> 1 | Node _ _ _ _ _ r \<Rightarrow> Suc (nodes r)) stack)"

lemma pending_simps [simp]:
  "pending [] = 0"
  "pending (Node k ar m p l r # stack) = Suc (nodes r + pending stack)"
  by (simp_all add: pending_def)

lemma pending_push_left: "pending (push_left t stack) = nodes t + pending stack"
  by (induction t stack rule: push_left.induct) simp_all

lemma pending_pop:
  assumes "push_left t stack = Node k ar m p l r # stack'"
  shows "nodes r + pending stack' < nodes t + pending stack"
  using pending_push_left [of t stack] assms by simp

text \<open>\<open>stack.pop().unwrap()\<close> cannot meet an empty stack or a missing node; the two
  unreachable cases stop the loop.\<close>

function in_order_loop ::
  "(MemoryArea \<Rightarrow> 's \<Rightarrow> 's) \<Rightarrow> IntervalNode \<Rightarrow> IntervalNode list \<Rightarrow> 's \<Rightarrow> 's" where
  "in_order_loop f cur stack s =
    (if cur = Empty \<and> stack = [] then s
     else case push_left cur stack of
       [] \<Rightarrow> s
     | Empty # _ \<Rightarrow> s
     | Node _ ar _ _ _ r # stack' \<Rightarrow> in_order_loop f r stack' (f ar s))"
  by pat_completeness auto
termination
  by (relation "measure (\<lambda>(f, cur, stack, s). nodes cur + pending stack)") (auto dest: pending_pop)

declare in_order_loop.simps [simp del]

definition for_each_in_order :: "IntervalNode \<Rightarrow> (MemoryArea \<Rightarrow> 's \<Rightarrow> 's) \<Rightarrow> 's \<Rightarrow> 's" where
  "for_each_in_order root f s = in_order_loop f root [] s"

definition node_count :: "IntervalNode \<Rightarrow> nat" where
  "node_count root = in_order_loop (\<lambda>_ count. count + 1) root [] 0"

definition push_child :: "IntervalNode \<Rightarrow> nat \<Rightarrow> (IntervalNode \<times> nat) list \<Rightarrow> (IntervalNode \<times> nat) list"
  where "push_child t depth stack = (if t = Empty then stack else (t, depth) # stack)"

lemma sum_nodes_push_child:
  "sum_list (map (nodes \<circ> fst) (push_child t d stack)) = nodes t + sum_list (map (nodes \<circ> fst) stack)"
  by (simp add: push_child_def)

function max_depth_loop :: "(IntervalNode \<times> nat) list \<Rightarrow> nat \<Rightarrow> nat" where
  "max_depth_loop [] m = m"
| "max_depth_loop ((Empty, depth) # stack) m = m"
| "max_depth_loop ((Node k ar me p l r, depth) # stack) m =
    max_depth_loop (push_child r (depth + 1) (push_child l (depth + 1) stack))
      (if depth > m then depth else m)"
  by pat_completeness auto
termination
  by (relation "measure (\<lambda>(stack, m). sum_list (map (nodes \<circ> fst) stack))")
    (simp_all add: push_child_def)

definition max_depth :: "IntervalNode \<Rightarrow> nat" where
  "max_depth root = (if root = Empty then 0 else max_depth_loop [(root, 1)] 0)"

record VmaTreeStats =
  st_node_count :: nat
  st_max_depth :: nat

definition vma_tree_stats :: "IntervalNode \<Rightarrow> VmaTreeStats" where
  "vma_tree_stats root = \<lparr> st_node_count = node_count root, st_max_depth = max_depth root \<rparr>"

section \<open>Insertion\<close>

record VmaStats =
  inserts :: usize
  merges :: usize
  overlap_rejects :: usize

definition reset_vma_stats :: VmaStats where
  "reset_vma_stats = \<lparr> inserts = 0, merges = 0, overlap_rejects = 0 \<rparr>"

text \<open>The first half of the loop body: the neighbour below. The flag says whether it merged.\<close>

definition merge_prev ::
  "IntervalNode \<Rightarrow> VmaStats \<Rightarrow> MemoryArea \<Rightarrow>
    (MemoryArea \<times> bool, MapError) result \<times> IntervalNode \<times> VmaStats" where
  "merge_prev root st ar =
    (case find_prev root (area_start ar) of
       None \<Rightarrow> (Ok (ar, False), root, st)
     | Some prev \<Rightarrow>
         if area_end prev > area_start ar
         then (Err InvalidAccess, root, st\<lparr>overlap_rejects := overlap_rejects st + 1\<rparr>)
         else if area_end prev = area_start ar \<and> area_flags prev = area_flags ar
         then (let (new_root, _) = remove_node root (area_start prev)
               in (Ok (ar\<lparr>area_start := area_start prev\<rparr>, True), new_root,
                   st\<lparr>merges := merges st + 1\<rparr>))
         else (Ok (ar, False), root, st))"

definition merge_next ::
  "IntervalNode \<Rightarrow> VmaStats \<Rightarrow> MemoryArea \<Rightarrow>
    (MemoryArea \<times> bool, MapError) result \<times> IntervalNode \<times> VmaStats" where
  "merge_next root st ar =
    (case find_next root (area_start ar) of
       None \<Rightarrow> (Ok (ar, False), root, st)
     | Some nxt \<Rightarrow>
         if area_start nxt < area_end ar
         then (Err InvalidAccess, root, st\<lparr>overlap_rejects := overlap_rejects st + 1\<rparr>)
         else if area_start nxt = area_end ar \<and> area_flags nxt = area_flags ar
         then (let (new_root, _) = remove_node root (area_start nxt)
               in (Ok (ar\<lparr>area_end := area_end nxt\<rparr>, True), new_root,
                   st\<lparr>merges := merges st + 1\<rparr>))
         else (Ok (ar, False), root, st))"

partial_function (option) insert_loop ::
  "IntervalNode \<Rightarrow> VmaStats \<Rightarrow> MemoryArea \<Rightarrow>
    ((MemoryArea, MapError) result \<times> IntervalNode \<times> VmaStats) option" where
  "insert_loop root st ar =
    (case merge_prev root st ar of
       (Err e, root1, st1) \<Rightarrow> Some (Err e, root1, st1)
     | (Ok (ar1, merged1), root1, st1) \<Rightarrow>
        (case merge_next root1 st1 ar1 of
           (Err e, root2, st2) \<Rightarrow> Some (Err e, root2, st2)
         | (Ok (ar2, merged2), root2, st2) \<Rightarrow>
            if merged1 \<or> merged2 then insert_loop root2 st2 ar2
            else Some (Ok ar2, root2, st2)))"

definition insert_area ::
  "IntervalNode \<Rightarrow> VmaStats \<Rightarrow> MemoryArea \<Rightarrow>
    ((unit, MapError) result \<times> IntervalNode \<times> VmaStats) option" where
  "insert_area root st ar =
    (if area_start ar \<ge> area_end ar then Some (Err InvalidAccess, root, st)
     else case insert_loop root (st\<lparr>inserts := inserts st + 1\<rparr>) ar of
       None \<Rightarrow> None
     | Some (Err e, root1, st1) \<Rightarrow> Some (Err e, root1, st1)
     | Some (Ok ar1, root1, st1) \<Rightarrow> Some (Ok (), insert_node root1 (node_new ar1), st1))"

definition debug_vma_lookup ::
  "IntervalNode \<Rightarrow> VirtAddr \<Rightarrow> MemoryArea option \<times> MemoryArea option \<times> MemoryArea option" where
  "debug_vma_lookup root addr =
    (find_containing root addr, find_prev root addr, find_next root addr)"

definition vma_clear :: "IntervalNode \<Rightarrow> IntervalNode" where
  "vma_clear root = Empty"

section \<open>The areas of a tree and the invariant\<close>

fun areas :: "IntervalNode \<Rightarrow> MemoryArea list" where
  "areas Empty = []"
| "areas (Node _ ar _ _ l r) = areas l @ ar # areas r"

fun tree_max :: "IntervalNode \<Rightarrow> u64" where
  "tree_max Empty = 0"
| "tree_max (Node _ ar _ _ l r) = max (area_end ar) (max (tree_max l) (tree_max r))"

definition prio_le :: "u64 \<Rightarrow> IntervalNode \<Rightarrow> bool" where
  "prio_le p t = (case t of Empty \<Rightarrow> True | Node _ _ _ q _ _ \<Rightarrow> q \<le> p)"

text \<open>The cached fields agree with the areas, and a parent's priority is at least its children's.\<close>

fun caches :: "IntervalNode \<Rightarrow> bool" where
  "caches Empty = True"
| "caches (Node k ar m p l r) \<longleftrightarrow>
    k = area_start ar \<and> p = splitmix64 k \<and> m = tree_max (Node k ar m p l r)
    \<and> prio_le p l \<and> prio_le p r \<and> caches l \<and> caches r"

text \<open>Nonempty areas, each ending before the next begins.\<close>

definition separated :: "MemoryArea list \<Rightarrow> bool" where
  "separated xs \<longleftrightarrow> sorted_wrt (\<lambda>a b. area_end a \<le> area_start b) xs
     \<and> (\<forall>a \<in> set xs. area_start a < area_end a)"

definition vma_wf :: "IntervalNode \<Rightarrow> bool" where
  "vma_wf t \<longleftrightarrow> caches t \<and> separated (areas t)"

definition overlaps :: "MemoryArea \<Rightarrow> MemoryArea \<Rightarrow> bool" where
  "overlaps a b \<longleftrightarrow> area_start a < area_end b \<and> area_start b < area_end a"

lemma separated_simps [simp]:
  "separated []"
  "separated (a # xs) \<longleftrightarrow>
     area_start a < area_end a \<and> (\<forall>b \<in> set xs. area_end a \<le> area_start b) \<and> separated xs"
  by (auto simp: separated_def)

lemma separated_append [simp]:
  "separated (xs @ ys) \<longleftrightarrow>
     separated xs \<and> separated ys \<and> (\<forall>a \<in> set xs. \<forall>b \<in> set ys. area_end a \<le> area_start b)"
  by (auto simp: separated_def sorted_wrt_append)

lemma separated_member:
  assumes "separated xs" "a \<in> set xs"
  shows "area_start a < area_end a"
  using assms by (simp add: separated_def)

lemma separated_filter: "separated xs \<Longrightarrow> separated (filter P xs)"
  by (auto simp: separated_def sorted_wrt_filter)

lemma separated_inj:
  assumes "separated xs" "a \<in> set xs" "b \<in> set xs" "overlaps a b"
  shows "a = b"
  using assms by (induction xs) (force simp: overlaps_def)+

lemma separated_start_inj:
  assumes "separated xs" "a \<in> set xs" "b \<in> set xs" "area_start a = area_start b"
  shows "a = b"
  using assms separated_inj [of xs a b] separated_member [of xs] by (force simp: overlaps_def)

subsection \<open>Caches\<close>

lemma raise_max_eq: "caches t \<Longrightarrow> raise_max m t = max m (tree_max t)"
  by (cases t) (auto simp: raise_max_def max_def)

lemma recalc_areas [simp]: "areas (recalc t) = areas t"
  by (cases t) auto

lemma recalc_caches:
  assumes "k = area_start ar" "p = splitmix64 k" "prio_le p l" "prio_le p r" "caches l" "caches r"
  shows "caches (recalc (Node k ar m p l r))"
  using assms by (simp add: raise_max_eq max.assoc)

lemma recalc_prio_le [simp]: "prio_le q (recalc (Node k ar m p l r)) \<longleftrightarrow> p \<le> q"
  by (simp add: prio_le_def)

lemma prio_le_simps [simp]:
  "prio_le q Empty" "prio_le q (Node k ar m p l r) \<longleftrightarrow> p \<le> q"
  by (simp_all add: prio_le_def)

lemma prio_le_trans: "prio_le p t \<Longrightarrow> p \<le> q \<Longrightarrow> prio_le q t"
  by (cases t) auto

lemma max_end_eq: "caches t \<Longrightarrow> t \<noteq> Empty \<Longrightarrow> max_end t = tree_max t"
  by (cases t) auto

lemma tree_max_gt: "addr < tree_max t \<longleftrightarrow> (\<exists>a \<in> set (areas t). addr < area_end a)"
  by (induction t) (auto simp: less_max_iff_disj)

subsection \<open>Merge and split\<close>

lemma merge_areas: "areas (merge a b) = areas a @ areas b"
  by (induction a b rule: merge.induct) auto

lemma merge_prio_le: "prio_le p a \<Longrightarrow> prio_le p b \<Longrightarrow> prio_le p (merge a b)"
  by (induction a b rule: merge.induct) auto

lemma merge_caches: "caches a \<Longrightarrow> caches b \<Longrightarrow> caches (merge a b)"
proof (induction a b rule: merge.induct)
  case (3 k1 a1 m1 p1 l1 r1 k2 a2 m2 p2 l2 r2)
  show ?case
  proof (cases "p1 \<ge> p2")
    case True
    have "prio_le p1 (merge r1 (Node k2 a2 m2 p2 l2 r2))"
      using 3 True by (intro merge_prio_le) auto
    with 3 True show ?thesis
      by (auto intro!: recalc_caches simp del: recalc.simps)
  next
    case False
    have "prio_le p2 (merge (Node k1 a1 m1 p1 l1 r1) l2)"
      using 3 False by (intro merge_prio_le) auto
    with 3 False show ?thesis
      by (auto intro!: recalc_caches simp del: recalc.simps)
  qed
qed auto

lemma split_areas: "split t x = (a, b) \<Longrightarrow> areas t = areas a @ areas b"
  by (induction t x arbitrary: a b rule: split.induct) (auto split: if_splits prod.splits)

lemma split_caches:
  assumes "split t x = (a, b)" "caches t"
  shows "caches a \<and> caches b \<and> (\<forall>p. prio_le p t \<longrightarrow> prio_le p a \<and> prio_le p b)"
  using assms
proof (induction t x arbitrary: a b rule: split.induct)
  case (2 k ar m p l r x)
  show ?case
  proof (cases "x \<le> k")
    case True
    obtain l1 l2 where l: "split l x = (l1, l2)"
      by fastforce
    with 2 True have "caches l1 \<and> caches l2 \<and> (\<forall>p. prio_le p l \<longrightarrow> prio_le p l1 \<and> prio_le p l2)"
      by auto
    with 2 True l show ?thesis
      by (auto intro!: recalc_caches simp del: recalc.simps simp: prio_le_trans)
  next
    case False
    obtain r1 r2 where r: "split r x = (r1, r2)"
      by fastforce
    with 2 False have "caches r1 \<and> caches r2 \<and> (\<forall>p. prio_le p r \<longrightarrow> prio_le p r1 \<and> prio_le p r2)"
      by auto
    with 2 False r show ?thesis
      by (auto intro!: recalc_caches simp del: recalc.simps simp: prio_le_trans)
  qed
qed auto

lemma separated_mid:
  assumes "separated (xs @ a # ys)"
  shows "\<And>u. u \<in> set xs \<Longrightarrow> area_start u < area_start a"
    and "\<And>u. u \<in> set ys \<Longrightarrow> area_start a < area_start u"
  using assms by (auto dest: separated_member intro: order_less_le_trans)

lemma split_keys:
  assumes "split t x = (a, b)" "caches t" "separated (areas t)"
  shows "(\<forall>u \<in> set (areas a). area_start u < x) \<and> (\<forall>u \<in> set (areas b). x \<le> area_start u)"
  using assms
proof (induction t x arbitrary: a b rule: split.induct)
  case (2 k ar m p l r x)
  note mid = separated_mid [OF "2.prems"(3) [unfolded areas.simps]]
  have k: "k = area_start ar" and sep: "separated (areas l)" "separated (areas r)"
    and c: "caches l" "caches r"
    using "2.prems"(2,3) by simp_all
  show ?case
  proof (cases "x \<le> k")
    case True
    obtain l1 l2 where l: "split l x = (l1, l2)"
      by fastforce
    have ab: "a = l1" "areas b = areas l2 @ ar # areas r"
      using "2.prems"(1) True l by (auto simp del: recalc.simps)
    show ?thesis
      using "2.IH"(1) [OF True l c(1) sep(1)] mid(2) k True unfolding ab
      by (auto dest: less_imp_le intro: order_trans)
  next
    case False
    obtain r1 r2 where r: "split r x = (r1, r2)"
      by fastforce
    have ab: "b = r2" "areas a = areas l @ ar # areas r1"
      using "2.prems"(1) False r by (auto simp del: recalc.simps)
    show ?thesis
      using "2.IH"(2) [OF False r c(2) sep(2)] mid(1) k False unfolding ab
      by (auto simp: not_le intro: less_trans)
  qed
qed auto

lemma split_wf:
  assumes "split t x = (a, b)" "vma_wf t"
  shows "vma_wf a" "vma_wf b" "areas t = areas a @ areas b"
    "\<And>u. u \<in> set (areas a) \<Longrightarrow> area_start u < x" "\<And>u. u \<in> set (areas b) \<Longrightarrow> x \<le> area_start u"
  using split_caches [OF assms(1)] split_areas [OF assms(1)] split_keys [OF assms(1)] assms(2)
  by (simp_all add: vma_wf_def)

subsection \<open>Insertion and removal of a node\<close>

lemma node_new_simps [simp]:
  "areas (node_new ar) = [ar]" "key (node_new ar) = area_start ar" "caches (node_new ar)"
  by (simp_all add: node_new_def)

lemma insert_node_wf:
  assumes "vma_wf t" "area_start ar < area_end ar" "\<And>b. b \<in> set (areas t) \<Longrightarrow> \<not> overlaps ar b"
  shows "vma_wf (insert_node t (node_new ar))"
    "set (areas (insert_node t (node_new ar))) = insert ar (set (areas t))"
proof -
  obtain l r where lr: "split t (area_start ar) = (l, r)"
    by fastforce
  note sp = split_wf [OF lr assms(1)]
  have before: "area_end u \<le> area_start ar" if "u \<in> set (areas l)" for u
    using sp(3) sp(4) [OF that] assms(2) assms(3) [of u] that by (auto simp: overlaps_def not_less)
  have after: "area_end ar \<le> area_start u" if "u \<in> set (areas r)" for u
    using sp(3) sp(5) [OF that] assms(2) assms(3) [of u] that separated_member [of "areas r" u] sp(2)
    by (auto simp: overlaps_def not_less vma_wf_def)
  show "vma_wf (insert_node t (node_new ar))"
    "set (areas (insert_node t (node_new ar))) = insert ar (set (areas t))"
    using sp(1,2,3) before after assms(1,2)
    by (auto simp: insert_node_def lr vma_wf_def merge_areas intro!: merge_caches)
qed

lemma word_less_plus_one:
  fixes x u :: u64
  assumes "x \<noteq> - 1"
  shows "u < x + 1 \<longleftrightarrow> u \<le> x" "x + 1 \<le> u \<longleftrightarrow> x < u"
proof -
  have "x < - 1"
    using assms word_order.not_eq_extremum by blast
  then have "unat (x + 1) = unat x + 1"
    by (subst unat_add_no_wrap) (simp_all add: word_less_nat_alt unsigned_minus_1_eq_mask mask_eq_exp_minus_1)
  then show "u < x + 1 \<longleftrightarrow> u \<le> x" "x + 1 \<le> u \<longleftrightarrow> x < u"
    by (auto simp: word_less_nat_alt word_le_nat_alt)
qed

lemma node_area_member: "node_area t = Some a \<Longrightarrow> a \<in> set (areas t)"
  by (cases t) (simp_all add: node_area_def)

lemma node_area_None: "node_area t = None \<longleftrightarrow> areas t = []"
  by (cases t) (simp_all add: node_area_def)

lemma filter_by_split:
  assumes "xs = ys @ zs @ ws" "\<And>a. a \<in> set ys \<Longrightarrow> P a" "\<And>a. a \<in> set zs \<Longrightarrow> \<not> P a"
    "\<And>a. a \<in> set ws \<Longrightarrow> P a"
  shows "filter P xs = ys @ ws"
  using assms by (simp add: filter_True filter_False)

lemma remove_node_wf:
  assumes "vma_wf t" "remove_node t x = (t', res)"
  shows "vma_wf t'" "areas t' = filter (\<lambda>a. area_start a \<noteq> x) (areas t)"
    "res = Some a \<longleftrightarrow> a \<in> set (areas t) \<and> area_start a = x"
proof -
  obtain l r where lr: "split t x = (l, r)"
    by fastforce
  note sp = split_wf [OF lr assms(1)]
  obtain mid r2 where m: "(if x = - 1 then (r, Empty) else split r (x + 1)) = (mid, r2)"
    by fastforce
  have sm: "vma_wf mid" "vma_wf r2" "areas r = areas mid @ areas r2"
    "\<And>u. u \<in> set (areas mid) \<Longrightarrow> area_start u \<le> x" "\<And>u. u \<in> set (areas r2) \<Longrightarrow> x < area_start u"
    using m split_wf [of r "x + 1" mid r2] sp(2) word_less_plus_one [of x]
    by (auto split: if_splits simp: vma_wf_def)
  have res: "res = node_area mid" and t': "areas t' = areas l @ areas r2" "caches t'"
    using assms(2) lr m sp(1) sm(2)
    by (auto simp: remove_node_def merge_areas vma_wf_def split: if_splits intro!: merge_caches)
  have parts: "areas t = areas l @ areas mid @ areas r2"
    using sp(3) sm(3) by simp
  have mid: "area_start u = x" if "u \<in> set (areas mid)" for u
    using sm(3,4) sp(5) [of u] that by (auto intro: antisym)
  show f: "areas t' = filter (\<lambda>a. area_start a \<noteq> x) (areas t)"
    unfolding t'(1) using filter_by_split [OF parts, of "\<lambda>a. area_start a \<noteq> x"] sp(4) sm(5) mid
    by force
  show "vma_wf t'"
    using t'(2) f assms(1) separated_filter by (simp add: vma_wf_def)
  show "res = Some a \<longleftrightarrow> a \<in> set (areas t) \<and> area_start a = x"
  proof
    assume "res = Some a"
    then show "a \<in> set (areas t) \<and> area_start a = x"
      using res parts mid node_area_member [of mid a] by auto
  next
    assume a: "a \<in> set (areas t) \<and> area_start a = x"
    then have "a \<in> set (areas mid)"
      using parts sp(4) [of a] sm(5) [of a] by auto
    moreover obtain b where "node_area mid = Some b"
      using calculation node_area_None [of mid] by fastforce
    ultimately show "res = Some a"
      using res mid node_area_member [of mid b] separated_start_inj [of "areas mid" a b] sm(1) a
      by (simp add: vma_wf_def)
  qed
qed

subsection \<open>Searches\<close>

lemma find_prev_loop_eq:
  assumes "caches t" "separated (areas t)"
  shows "find_prev_loop t x res =
    (let ys = filter (\<lambda>a. area_start a \<le> x) (areas t) in if ys = [] then res else Some (last ys))"
  using assms
proof (induction t x res rule: find_prev_loop.induct)
  case (2 k ar m p l r x res)
  note mid = separated_mid [OF "2.prems"(2) [unfolded areas.simps]]
  have k: "k = area_start ar"
    using "2.prems"(1) by simp
  show ?case
  proof (cases "x < k")
    case True
    have "filter (\<lambda>a. area_start a \<le> x) (areas r) = []"
      using mid(2) True k by (force simp: filter_empty_conv)
    with 2 True k show ?thesis
      by (auto simp: Let_def)
  next
    case False
    with 2 k show ?thesis
      by (auto simp: Let_def)
  qed
qed simp

lemma find_next_loop_eq:
  assumes "caches t" "separated (areas t)"
  shows "find_next_loop t x res =
    (let ys = filter (\<lambda>a. x \<le> area_start a) (areas t) in if ys = [] then res else Some (hd ys))"
  using assms
proof (induction t x res rule: find_next_loop.induct)
  case (2 k ar m p l r x res)
  note mid = separated_mid [OF "2.prems"(2) [unfolded areas.simps]]
  have k: "k = area_start ar"
    using "2.prems"(1) by simp
  show ?case
  proof (cases "x \<le> k")
    case True
    with 2 k show ?thesis
      by (simp add: Let_def hd_append)
  next
    case False
    have "filter (\<lambda>a. x \<le> area_start a) (areas l) = []"
      using mid(1) False k by (force simp: filter_empty_conv)
    with 2 False k show ?thesis
      by simp
  qed
qed simp

lemma find_containing_iff:
  assumes "caches t" "separated (areas t)"
  shows "find_containing t addr = Some a \<longleftrightarrow> a \<in> set (areas t) \<and> area_contains a addr"
  using assms
proof (induction t addr rule: find_containing.induct)
  case (2 k ar m p l r addr)
  note mid = separated_mid [OF "2.prems"(2) [unfolded areas.simps]]
  have c: "caches l" "caches r" "separated (areas l)" "separated (areas r)"
    and before: "\<And>u. u \<in> set (areas l) \<Longrightarrow> area_end u \<le> area_start ar"
    and after: "\<And>u. u \<in> set (areas r) \<Longrightarrow> area_end ar \<le> area_start u"
    using "2.prems" by simp_all
  show ?case
  proof (cases "l \<noteq> Empty \<and> max_end l > addr")
    case True
    then obtain b where "b \<in> set (areas l)" "addr < area_end b"
      using max_end_eq [OF c(1)] tree_max_gt [of addr l] by auto
    then have "addr < area_start ar"
      using before by (meson order_less_le_trans)
    then show ?thesis
      using "2.IH"(1) [OF True c(1,3)] True mid(2) by (force simp: area_contains_def)
  next
    case False
    then have l: "\<not> area_contains b addr" if "b \<in> set (areas l)" for b
      using max_end_eq [OF c(1)] tree_max_gt [of addr l] that
      by (cases "l = Empty") (auto simp: area_contains_def)
    have r: "\<not> area_contains b addr" if "b \<in> set (areas r)" "\<not> area_end ar \<le> addr" for b
      using after [OF that(1)] that(2) by (auto simp: area_contains_def)
    show ?thesis
      using "2.IH"(2) [OF False _ c(2,4)] "2.IH"(3) [OF False _ _ c(2,4)] False l [of a] r [of a]
      by (auto simp: area_contains_def)
  qed
qed simp

lemma find_prev_Some:
  assumes "vma_wf t" "find_prev t x = Some a"
  shows "a \<in> set (areas t)" "area_start a \<le> x"
    "\<And>b. b \<in> set (areas t) \<Longrightarrow> area_start b \<le> x \<Longrightarrow> b = a \<or> area_end b \<le> area_start a"
proof -
  let ?ys = "filter (\<lambda>a. area_start a \<le> x) (areas t)"
  have ys: "?ys \<noteq> []" "a = last ?ys"
    using assms by (auto simp: find_prev_def find_prev_loop_eq vma_wf_def Let_def split: if_splits)
  then obtain zs where zs: "?ys = zs @ [a]"
    by (metis append_butlast_last_id)
  then have "a \<in> set ?ys"
    by simp
  then show "a \<in> set (areas t)" "area_start a \<le> x"
    by simp_all
  have "separated ?ys"
    using assms(1) separated_filter by (simp add: vma_wf_def)
  then show "b = a \<or> area_end b \<le> area_start a" if "b \<in> set (areas t)" "area_start b \<le> x" for b
    using that zs by (metis (no_types, lifting) list.set_intros(1) mem_Collect_eq separated_append
        set_ConsD set_filter in_set_conv_decomp_last empty_iff list.set(1) Un_iff set_append)
qed

lemma find_prev_None:
  assumes "vma_wf t" "find_prev t x = None" "b \<in> set (areas t)"
  shows "x < area_start b"
  using assms
  by (auto simp: find_prev_def find_prev_loop_eq vma_wf_def Let_def filter_empty_conv split: if_splits)

lemma find_next_Some:
  assumes "vma_wf t" "find_next t x = Some a"
  shows "a \<in> set (areas t)" "x \<le> area_start a"
    "\<And>b. b \<in> set (areas t) \<Longrightarrow> x \<le> area_start b \<Longrightarrow> b = a \<or> area_end a \<le> area_start b"
proof -
  let ?ys = "filter (\<lambda>a. x \<le> area_start a) (areas t)"
  have ys: "?ys \<noteq> []" "a = hd ?ys"
    using assms by (auto simp: find_next_def find_next_loop_eq vma_wf_def Let_def split: if_splits)
  then obtain zs where zs: "?ys = a # zs"
    by (metis list.collapse)
  then have "a \<in> set ?ys"
    by simp
  then show "a \<in> set (areas t)" "x \<le> area_start a"
    by simp_all
  have "separated ?ys"
    using assms(1) separated_filter by (simp add: vma_wf_def)
  then show "b = a \<or> area_end a \<le> area_start b" if "b \<in> set (areas t)" "x \<le> area_start b" for b
    using that zs by (metis (no_types, lifting) mem_Collect_eq separated_simps(2) set_ConsD set_filter)
qed

lemma find_next_None:
  assumes "vma_wf t" "find_next t x = None" "b \<in> set (areas t)"
  shows "area_start b < x"
  using assms
  by (auto simp: find_next_def find_next_loop_eq vma_wf_def Let_def filter_empty_conv not_le
      split: if_splits)

lemma find_containing_None:
  assumes "vma_wf t" "find_containing t addr = None" "b \<in> set (areas t)"
  shows "\<not> area_contains b addr"
  using assms find_containing_iff [of t addr b] by (auto simp: vma_wf_def)

lemma find_containing_NoneI:
  assumes "vma_wf t" "\<And>b. b \<in> set (areas t) \<Longrightarrow> \<not> area_contains b addr"
  shows "find_containing t addr = None"
proof (cases "find_containing t addr")
  case (Some a)
  then show ?thesis
    using assms find_containing_iff [of t addr a] by (auto simp: vma_wf_def)
qed

subsection \<open>Traversals\<close>

definition stack_areas :: "IntervalNode list \<Rightarrow> MemoryArea list" where
  "stack_areas stack = concat (map (\<lambda>t. case t of Empty \<Rightarrow> [] | Node _ ar _ _ _ r \<Rightarrow> ar # areas r) stack)"

lemma stack_areas_simps [simp]:
  "stack_areas [] = []"
  "stack_areas (Node k ar m p l r # stack) = ar # areas r @ stack_areas stack"
  by (simp_all add: stack_areas_def)

lemma stack_areas_push_left: "stack_areas (push_left t stack) = areas t @ stack_areas stack"
  by (induction t stack rule: push_left.induct) simp_all

lemma push_left_nodes: "\<forall>t \<in> set stack. t \<noteq> Empty \<Longrightarrow> \<forall>u \<in> set (push_left t stack). u \<noteq> Empty"
  by (induction t stack rule: push_left.induct) simp_all

lemma in_order_loop_eq:
  assumes "\<forall>t \<in> set stack. t \<noteq> Empty"
  shows "in_order_loop f cur stack s = fold f (areas cur @ stack_areas stack) s"
  using assms
proof (induction f cur stack s rule: in_order_loop.induct)
  case (1 f cur stack s)
  show ?case
  proof (cases "cur = Empty \<and> stack = []")
    case True
    then show ?thesis
      by (simp add: in_order_loop.simps)
  next
    case False
    have ne: "push_left cur stack \<noteq> []"
      using False pending_push_left [of cur stack] by (cases cur; cases stack) auto
    then obtain u stack' where p: "push_left cur stack = u # stack'"
      by (cases "push_left cur stack") auto
    with push_left_nodes [OF "1.prems", of cur] obtain k ar m q l r where
      u: "u = Node k ar m q l r" and st: "\<forall>t \<in> set stack'. t \<noteq> Empty"
      by (cases u) auto
    have all: "areas cur @ stack_areas stack = ar # areas r @ stack_areas stack'"
      using stack_areas_push_left [of cur stack] p u by simp
    show ?thesis
      unfolding all using "1.IH" [OF False p u st] False p u
      by (subst in_order_loop.simps) auto
  qed
qed

lemma for_each_in_order_eq: "for_each_in_order root f s = fold f (areas root) s"
  by (simp add: for_each_in_order_def in_order_loop_eq)

lemma fold_count: "fold (\<lambda>_. Suc) xs n = n + length xs"
  by (induction xs arbitrary: n) simp_all

fun height :: "IntervalNode \<Rightarrow> nat" where
  "height Empty = 0"
| "height (Node _ _ _ _ l r) = Suc (max (height l) (height r))"

lemma max_depth_loop_eq:
  assumes "\<forall>(t, d) \<in> set stack. t \<noteq> Empty \<and> 0 < d"
  shows "max_depth_loop stack m = Max (insert m ((\<lambda>(t, d). height t + d - 1) ` set stack))"
  using assms
proof (induction stack m rule: max_depth_loop.induct)
  case (3 k ar me p l r depth stack m)
  let ?h = "\<lambda>(t, d). height t + d - 1"
  have IH: "max_depth_loop (push_child r (depth + 1) (push_child l (depth + 1) stack))
      (if depth > m then depth else m)
    = Max (insert (max m depth) (?h ` set (push_child r (depth + 1) (push_child l (depth + 1) stack))))"
    using 3 by (simp add: push_child_def max_def)
  have "Max (insert (max m depth) (?h ` set (push_child r (depth + 1) (push_child l (depth + 1) stack))))
    = Max (insert m (?h ` set ((Node k ar me p l r, depth) # stack)))"
    using 3(2) by (intro Max_eq_if) (auto simp: push_child_def split: if_splits)
  with IH show ?case
    by simp
qed simp_all

section \<open>What insertion does to the areas\<close>

definition no_overlap :: "IntervalNode \<Rightarrow> MemoryArea \<Rightarrow> bool" where
  "no_overlap t ar \<longleftrightarrow> (\<forall>b \<in> set (areas t). \<not> overlaps ar b)"

definition coalesced :: "IntervalNode \<Rightarrow> bool" where
  "coalesced t \<longleftrightarrow> (\<forall>a \<in> set (areas t). \<forall>b \<in> set (areas t).
     area_end a = area_start b \<longrightarrow> area_flags a \<noteq> area_flags b)"

definition mapped :: "MemoryArea set \<Rightarrow> u64 \<Rightarrow> PageTableFlags \<Rightarrow> bool" where
  "mapped A addr fl \<longleftrightarrow> (\<exists>a \<in> A. area_contains a addr \<and> area_flags a = fl)"

definition absorbs :: "IntervalNode \<Rightarrow> MemoryArea \<Rightarrow> IntervalNode \<Rightarrow> MemoryArea \<Rightarrow> bool" where
  "absorbs t ar t1 ar1 \<longleftrightarrow>
     vma_wf t1 \<and> area_start ar1 < area_end ar1 \<and> no_overlap t1 ar1
   \<and> area_flags ar1 = area_flags ar \<and> set (areas t1) \<subseteq> set (areas t)
   \<and> (\<forall>addr fl. mapped (insert ar1 (set (areas t1))) addr fl = mapped (insert ar (set (areas t))) addr fl)"

lemma absorbs_refl:
  "vma_wf t \<Longrightarrow> area_start ar < area_end ar \<Longrightarrow> no_overlap t ar \<Longrightarrow> absorbs t ar t ar"
  by (simp add: absorbs_def)

lemma absorbs_trans:
  "absorbs t ar t1 ar1 \<Longrightarrow> absorbs t1 ar1 t2 ar2 \<Longrightarrow> absorbs t ar t2 ar2"
  by (auto simp: absorbs_def)

lemma vma_wf_member: "vma_wf t \<Longrightarrow> a \<in> set (areas t) \<Longrightarrow> area_start a < area_end a"
  using separated_member [of "areas t" a] by (simp add: vma_wf_def)

lemma remove_member:
  assumes "vma_wf t" "p \<in> set (areas t)" "remove_node t (area_start p) = (t1, x)"
  shows "vma_wf t1" "set (areas t1) = set (areas t) - {p}" "length (areas t1) < length (areas t)"
proof -
  have eq: "areas t1 = filter (\<lambda>a. area_start a \<noteq> area_start p) (areas t)" and wf: "vma_wf t1"
    using remove_node_wf [OF assms(1,3)] by auto
  show "vma_wf t1"
    by (rule wf)
  show "set (areas t1) = set (areas t) - {p}"
    unfolding eq using assms(1,2) separated_start_inj [of "areas t"] by (auto simp: vma_wf_def)
  show "length (areas t1) < length (areas t)"
    unfolding eq using assms(2) by (intro length_filter_less) auto
qed

lemma mapped_insert:
  "mapped (insert a A) addr fl \<longleftrightarrow> area_contains a addr \<and> area_flags a = fl \<or> mapped A addr fl"
  by (auto simp: mapped_def)

lemma absorbs_prev:
  assumes "vma_wf t" "area_start ar < area_end ar" "no_overlap t ar" "p \<in> set (areas t)"
    "area_end p = area_start ar" "area_flags p = area_flags ar"
    "remove_node t (area_start p) = (t1, x)"
  shows "absorbs t ar t1 (ar\<lparr>area_start := area_start p\<rparr>)"
proof -
  note rm = remove_member [OF assms(1,4,7)]
  have ne: "area_start p < area_end p"
    by (rule vma_wf_member [OF assms(1,4)])
  have "\<not> overlaps (ar\<lparr>area_start := area_start p\<rparr>) b" if "b \<in> set (areas t1)" for b
  proof -
    have "\<not> overlaps p b" "\<not> overlaps ar b" "area_start b < area_end b"
      using separated_inj [of "areas t" p b] vma_wf_member [of t b] assms(1,3,4) that rm(2)
      by (auto simp: vma_wf_def no_overlap_def)
    with assms(2,5) ne show ?thesis
      using seg_disjoint [of "area_start p" "area_end p" "area_end ar" "area_start b" "area_end b"]
      unfolding overlaps_def by simp
  qed
  then have "no_overlap t1 (ar\<lparr>area_start := area_start p\<rparr>)"
    by (simp add: no_overlap_def)
  moreover have "mapped (insert (ar\<lparr>area_start := area_start p\<rparr>) (set (areas t1))) addr fl
      = mapped (insert ar (set (areas t))) addr fl" for addr fl
  proof -
    have "set (areas t) = insert p (set (areas t1))"
      using rm(2) assms(4) by auto
    moreover have "area_contains (ar\<lparr>area_start := area_start p\<rparr>) addr
        \<longleftrightarrow> area_contains p addr \<or> area_contains ar addr"
      using assms(2,5) ne unfolding area_contains_def
      by (simp add: seg_join [of "area_start p" "area_end p" "area_end ar"])
    ultimately show ?thesis
      using assms(6) by (auto simp: mapped_insert)
  qed
  ultimately show ?thesis
    using rm ne assms(2,5) by (auto simp: absorbs_def)
qed

lemma absorbs_next:
  assumes "vma_wf t" "area_start ar < area_end ar" "no_overlap t ar" "n \<in> set (areas t)"
    "area_start n = area_end ar" "area_flags n = area_flags ar"
    "remove_node t (area_start n) = (t1, x)"
  shows "absorbs t ar t1 (ar\<lparr>area_end := area_end n\<rparr>)"
proof -
  note rm = remove_member [OF assms(1,4,7)]
  have ne: "area_start n < area_end n"
    by (rule vma_wf_member [OF assms(1,4)])
  have "\<not> overlaps (ar\<lparr>area_end := area_end n\<rparr>) b" if "b \<in> set (areas t1)" for b
  proof -
    have "\<not> overlaps n b" "\<not> overlaps ar b" "area_start b < area_end b"
      using separated_inj [of "areas t" n b] vma_wf_member [of t b] assms(1,3,4) that rm(2)
      by (auto simp: vma_wf_def no_overlap_def)
    with assms(2,5) ne show ?thesis
      using seg_disjoint [of "area_start ar" "area_end ar" "area_end n" "area_start b" "area_end b"]
      unfolding overlaps_def by simp
  qed
  then have "no_overlap t1 (ar\<lparr>area_end := area_end n\<rparr>)"
    by (simp add: no_overlap_def)
  moreover have "mapped (insert (ar\<lparr>area_end := area_end n\<rparr>) (set (areas t1))) addr fl
      = mapped (insert ar (set (areas t))) addr fl" for addr fl
  proof -
    have "set (areas t) = insert n (set (areas t1))"
      using rm(2) assms(4) by auto
    moreover have "area_contains (ar\<lparr>area_end := area_end n\<rparr>) addr
        \<longleftrightarrow> area_contains n addr \<or> area_contains ar addr"
      using assms(2,5) ne unfolding area_contains_def
      by (simp add: seg_join [of "area_start ar" "area_end ar" "area_end n"] disj_commute)
    ultimately show ?thesis
      using assms(6) by (auto simp: mapped_insert)
  qed
  ultimately show ?thesis
    using rm ne assms(2,5) by (auto simp: absorbs_def)
qed

text \<open>Both halves of the loop body, when nothing overlaps.\<close>

lemma merge_prev_ok:
  assumes "vma_wf t" "area_start ar < area_end ar" "no_overlap t ar"
  obtains ar1 m t1 st1 where "merge_prev t st ar = (Ok (ar1, m), t1, st1)" "absorbs t ar t1 ar1"
    "m \<Longrightarrow> length (areas t1) < length (areas t)"
    "\<not> m \<Longrightarrow> t1 = t \<and> ar1 = ar
        \<and> (\<forall>b \<in> set (areas t). area_end b = area_start ar \<longrightarrow> area_flags b \<noteq> area_flags ar)"
proof (cases "find_prev t (area_start ar)")
  case None
  then have "area_end b \<noteq> area_start ar" if "b \<in> set (areas t)" for b
    using find_prev_None [OF assms(1) None that] vma_wf_member [OF assms(1) that] by auto
  then show thesis
    using that [of ar False t st] absorbs_refl [OF assms] by (auto simp: merge_prev_def None)
next
  case (Some p)
  note prev = find_prev_Some [OF assms(1) Some]
  have le: "area_end p \<le> area_start ar"
    using assms(2,3) prev(1,2) by (fastforce simp: no_overlap_def overlaps_def)
  obtain t1 x where rm: "remove_node t (area_start p) = (t1, x)"
    by fastforce
  show thesis
  proof (cases "area_end p = area_start ar \<and> area_flags p = area_flags ar")
    case True
    then show thesis
      using that [of "ar\<lparr>area_start := area_start p\<rparr>" True t1 "st\<lparr>merges := merges st + 1\<rparr>"]
        absorbs_prev [OF assms prev(1) _ _ rm] remove_member [OF assms(1) prev(1) rm]
      by (auto simp: merge_prev_def Some rm)
  next
    case False
    have "b = p" if "b \<in> set (areas t)" "area_end b = area_start ar" for b
      using prev(3) [OF that(1)] vma_wf_member [OF assms(1) that(1)] that(2)
        order_less_le_trans [OF vma_wf_member [OF assms(1) prev(1)] le]
      by (auto dest: less_imp_le leD)
    with False have "\<forall>b \<in> set (areas t). area_end b = area_start ar \<longrightarrow> area_flags b \<noteq> area_flags ar"
      by auto
    then show thesis
      using that [of ar False t st] False le absorbs_refl [OF assms]
      by (auto simp: merge_prev_def Some)
  qed
qed

lemma merge_next_ok:
  assumes "vma_wf t" "area_start ar < area_end ar" "no_overlap t ar"
  obtains ar1 m t1 st1 where "merge_next t st ar = (Ok (ar1, m), t1, st1)" "absorbs t ar t1 ar1"
    "m \<Longrightarrow> length (areas t1) < length (areas t)"
    "\<not> m \<Longrightarrow> t1 = t \<and> ar1 = ar
        \<and> (\<forall>b \<in> set (areas t). area_start b = area_end ar \<longrightarrow> area_flags b \<noteq> area_flags ar)"
proof (cases "find_next t (area_start ar)")
  case None
  then have "area_start b \<noteq> area_end ar" if "b \<in> set (areas t)" for b
    using find_next_None [OF assms(1) None that] assms(2) by auto
  then show thesis
    using that [of ar False t st] absorbs_refl [OF assms] by (auto simp: merge_next_def None)
next
  case (Some n)
  note nxt = find_next_Some [OF assms(1) Some]
  have le: "area_end ar \<le> area_start n"
    using assms(2,3) nxt(1,2) vma_wf_member [OF assms(1) nxt(1)]
    by (fastforce simp: no_overlap_def overlaps_def)
  obtain t1 x where rm: "remove_node t (area_start n) = (t1, x)"
    by fastforce
  show thesis
  proof (cases "area_start n = area_end ar \<and> area_flags n = area_flags ar")
    case True
    then have "remove_node t (area_end ar) = (t1, x)"
      using rm by simp
    with True have "merge_next t st ar
        = (Ok (ar\<lparr>area_end := area_end n\<rparr>, True), t1, st\<lparr>merges := merges st + 1\<rparr>)"
      by (simp add: merge_next_def Some)
    then show thesis
      using True absorbs_next [OF assms nxt(1) _ _ rm] remove_member(3) [OF assms(1) nxt(1) rm]
      by (intro that) blast+
  next
    case False
    have "b = n" if "b \<in> set (areas t)" "area_start b = area_end ar" for b
    proof -
      have "b = n \<or> area_end n \<le> area_end ar"
        using nxt(3) [OF that(1)] assms(2) unfolding that(2) by simp
      then show ?thesis
        using order_le_less_trans [OF le vma_wf_member [OF assms(1) nxt(1)]] by (auto dest: leD)
    qed
    with False have "\<forall>b \<in> set (areas t). area_start b = area_end ar \<longrightarrow> area_flags b \<noteq> area_flags ar"
      by auto
    then show thesis
      using that [of ar False t st] False le absorbs_refl [OF assms]
      by (auto simp: merge_next_def Some)
  qed
qed

lemma insert_loop_ok:
  assumes "vma_wf t" "area_start ar < area_end ar" "no_overlap t ar"
  shows "\<exists>ar1 t1 st1. insert_loop t st ar = Some (Ok ar1, t1, st1) \<and> absorbs t ar t1 ar1
    \<and> (\<forall>b \<in> set (areas t1). (area_end b = area_start ar1 \<or> area_start b = area_end ar1)
          \<longrightarrow> area_flags b \<noteq> area_flags ar1)"
  using assms
proof (induction "length (areas t)" arbitrary: t st ar rule: less_induct)
  case less
  obtain ar1 m1 t1 st1 where p: "merge_prev t st ar = (Ok (ar1, m1), t1, st1)" "absorbs t ar t1 ar1"
    "m1 \<Longrightarrow> length (areas t1) < length (areas t)"
    "\<not> m1 \<Longrightarrow> t1 = t \<and> ar1 = ar
        \<and> (\<forall>b \<in> set (areas t). area_end b = area_start ar \<longrightarrow> area_flags b \<noteq> area_flags ar)"
    by (rule merge_prev_ok [OF less.prems, of st]) blast
  have ar1: "vma_wf t1" "area_start ar1 < area_end ar1" "no_overlap t1 ar1"
    using p(2) by (auto simp: absorbs_def)
  obtain ar2 m2 t2 st2 where n: "merge_next t1 st1 ar1 = (Ok (ar2, m2), t2, st2)"
    "absorbs t1 ar1 t2 ar2" "m2 \<Longrightarrow> length (areas t2) < length (areas t1)"
    "\<not> m2 \<Longrightarrow> t2 = t1 \<and> ar2 = ar1
        \<and> (\<forall>b \<in> set (areas t1). area_start b = area_end ar1 \<longrightarrow> area_flags b \<noteq> area_flags ar1)"
    by (rule merge_next_ok [OF ar1, of st1]) blast
  have ar2: "absorbs t ar t2 ar2"
    using absorbs_trans [OF p(2) n(2)] .
  show ?case
  proof (cases "m1 \<or> m2")
    case True
    have "length (areas t2) < length (areas t)"
      using True p(3,4) n(3,4) by (cases m1; cases m2) auto
    moreover have "vma_wf t2" "area_start ar2 < area_end ar2" "no_overlap t2 ar2"
      using ar2 by (auto simp: absorbs_def)
    ultimately obtain ar3 t3 st3 where r: "insert_loop t2 st2 ar2 = Some (Ok ar3, t3, st3)"
      "absorbs t2 ar2 t3 ar3" "\<forall>b \<in> set (areas t3). (area_end b = area_start ar3 \<or> area_start b = area_end ar3)
          \<longrightarrow> area_flags b \<noteq> area_flags ar3"
      using less.hyps [of t2 ar2 st2] by blast
    have "insert_loop t st ar = insert_loop t2 st2 ar2"
      using True p(1) n(1) by (subst insert_loop.simps) auto
    then show ?thesis
      using r absorbs_trans [OF ar2 r(2)] by auto
  next
    case False
    then have "insert_loop t st ar = Some (Ok ar2, t2, st2)"
      using p(1) n(1) by (subst insert_loop.simps) simp
    moreover have "\<forall>b \<in> set (areas t2). (area_end b = area_start ar2 \<or> area_start b = area_end ar2)
        \<longrightarrow> area_flags b \<noteq> area_flags ar2"
      using False p(4) n(4) by simp
    ultimately show ?thesis
      using ar2 by blast
  qed
qed

text \<open>When something overlaps, the first pass through the loop body rejects. The area that ends
  where the new one starts may already have been taken out of the tree by then.\<close>

lemma merge_next_err:
  assumes "vma_wf u" "b \<in> set (areas u)" "area_start ar1 \<le> area_start b" "area_start b < area_end ar1"
  shows "merge_next u s ar1 = (Err InvalidAccess, u, s\<lparr>overlap_rejects := overlap_rejects s + 1\<rparr>)"
proof (cases "find_next u (area_start ar1)")
  case None
  then show ?thesis
    using find_next_None [OF assms(1) None assms(2)] assms(3) by simp
next
  case (Some n)
  note nxt = find_next_Some [OF assms(1) Some]
  have "area_start n < area_end ar1"
    using nxt(3) [OF assms(2,3)] vma_wf_member [OF assms(1) nxt(1)] assms(4)
    by (auto dest: order_less_le_trans order_less_trans)
  then show ?thesis
    by (simp add: merge_next_def Some)
qed

lemma insert_loop_err:
  assumes wf: "vma_wf t" and ne: "area_start ar < area_end ar" and ov: "\<not> no_overlap t ar"
  shows "\<exists>t1 st1. insert_loop t st ar = Some (Err InvalidAccess, t1, st1) \<and> vma_wf t1
    \<and> (t1 = t \<or> (\<exists>p \<in> set (areas t). area_end p = area_start ar \<and> area_flags p = area_flags ar
          \<and> set (areas t1) = set (areas t) - {p}))"
proof -
  obtain b where b: "b \<in> set (areas t)" "overlaps ar b"
    using ov by (auto simp: no_overlap_def)
  show ?thesis
  proof (cases "area_start b \<le> area_start ar")
    case True
    then obtain p where p: "find_prev t (area_start ar) = Some p"
      using find_prev_None [OF wf _ b(1)] by fastforce
    have "area_start ar < area_end p"
      using find_prev_Some(3) [OF wf p b(1) True] find_prev_Some(2) [OF wf p] b(2)
      by (auto simp: overlaps_def)
    then have "merge_prev t st ar = (Err InvalidAccess, t, st\<lparr>overlap_rejects := overlap_rejects st + 1\<rparr>)"
      by (simp add: merge_prev_def p)
    then show ?thesis
      using wf by (subst insert_loop.simps) simp
  next
    case False
    then have sb: "area_start ar \<le> area_start b" "area_start b < area_end ar"
      using b(2) by (auto simp: overlaps_def)
    show ?thesis
    proof (cases "find_prev t (area_start ar)")
      case None
      then show ?thesis
        using merge_next_err [OF wf b(1) sb] wf by (subst insert_loop.simps) (simp add: merge_prev_def)
    next
      case (Some p)
      note prev = find_prev_Some [OF wf Some]
      obtain t1 x where rm: "remove_node t (area_start p) = (t1, x)"
        by fastforce
      note rmt = remove_member [OF wf prev(1) rm]
      have "b \<in> set (areas t1)"
        using rmt(2) b(1) prev(2) False by auto
      then have err: "merge_next t1 s (ar\<lparr>area_start := area_start p\<rparr>)
          = (Err InvalidAccess, t1, s\<lparr>overlap_rejects := overlap_rejects s + 1\<rparr>)" for s
        using prev(2) sb by (intro merge_next_err [OF rmt(1)]) auto
      show ?thesis
        using merge_next_err [OF wf b(1) sb] wf err rmt prev(1)
        by (subst insert_loop.simps) (auto simp: merge_prev_def Some rm)
    qed
  qed
qed

definition vma_flags :: "IntervalNode \<Rightarrow> u64 \<Rightarrow> PageTableFlags option" where
  "vma_flags t addr = map_option area_flags (find_containing t addr)"

lemma vma_flags_mapped:
  assumes "vma_wf t"
  shows "vma_flags t addr = Some fl \<longleftrightarrow> mapped (set (areas t)) addr fl"
  using assms by (auto simp: vma_flags_def mapped_def vma_wf_def find_containing_iff)

lemma vma_flags_unique:
  assumes "vma_wf t" "mapped (set (areas t)) addr fl" "mapped (set (areas t)) addr fl'"
  shows "fl = fl'"
  using assms vma_flags_mapped by (metis option.inject)

lemma vma_flags_insert:
  assumes "vma_wf t'" "vma_wf t" "no_overlap t ar"
    "\<And>addr fl. mapped (set (areas t')) addr fl = mapped (insert ar (set (areas t))) addr fl"
  shows "vma_flags t' addr = (if area_contains ar addr then Some (area_flags ar) else vma_flags t addr)"
proof -
  have "\<not> mapped (set (areas t)) addr fl" if "area_contains ar addr" for fl
    using that assms(3) by (force simp: mapped_def no_overlap_def overlaps_def area_contains_def)
  then have "vma_flags t' addr = Some fl \<longleftrightarrow>
      (if area_contains ar addr then Some (area_flags ar) else vma_flags t addr) = Some fl" for fl
    using assms(4) by (auto simp: vma_flags_mapped [OF assms(1)] vma_flags_mapped [OF assms(2)] mapped_insert)
  then show ?thesis
    by (metis option.exhaust)
qed

lemma insert_coalesced:
  assumes "coalesced t" "absorbs t ar t1 ar1" "area_start ar1 < area_end ar1"
    "\<forall>b \<in> set (areas t1). (area_end b = area_start ar1 \<or> area_start b = area_end ar1)
        \<longrightarrow> area_flags b \<noteq> area_flags ar1"
    "set (areas t') = insert ar1 (set (areas t1))"
  shows "coalesced t'"
  using assms by (auto simp: coalesced_def absorbs_def) (metis subset_iff)

lemma insert_area_ok:
  assumes "vma_wf t" "area_start ar < area_end ar" "no_overlap t ar"
  obtains t' st' where "insert_area t st ar = Some (Ok (), t', st')" "vma_wf t'"
    "\<And>addr. vma_flags t' addr = (if area_contains ar addr then Some (area_flags ar) else vma_flags t addr)"
    "coalesced t \<Longrightarrow> coalesced t'"
proof -
  let ?st = "st\<lparr>inserts := inserts st + 1\<rparr>"
  obtain ar1 t1 st1 where l: "insert_loop t ?st ar = Some (Ok ar1, t1, st1)" "absorbs t ar t1 ar1"
    "\<forall>b \<in> set (areas t1). (area_end b = area_start ar1 \<or> area_start b = area_end ar1)
        \<longrightarrow> area_flags b \<noteq> area_flags ar1"
    using insert_loop_ok [OF assms, of ?st] by blast
  let ?t' = "insert_node t1 (node_new ar1)"
  have ar1: "vma_wf t1" "area_start ar1 < area_end ar1" "no_overlap t1 ar1"
    using l(2) by (simp_all add: absorbs_def)
  have ins: "vma_wf ?t'" "set (areas ?t') = insert ar1 (set (areas t1))"
    using insert_node_wf [OF ar1(1,2)] ar1(3) by (auto simp: no_overlap_def)
  show thesis
  proof (rule that)
    show "insert_area t st ar = Some (Ok (), ?t', st1)"
      using assms(2) l(1) by (simp add: insert_area_def not_le)
    show "vma_wf ?t'"
      by (rule ins(1))
    show "vma_flags ?t' addr = (if area_contains ar addr then Some (area_flags ar) else vma_flags t addr)" for addr
      using l(2) ins(2) by (intro vma_flags_insert [OF ins(1) assms(1,3)]) (simp add: absorbs_def)
    show "coalesced t \<Longrightarrow> coalesced ?t'"
      using insert_coalesced [OF _ l(2) ar1(2) l(3) ins(2)] .
  qed
qed

lemma insert_area_err:
  assumes "vma_wf t" "area_start ar < area_end ar" "\<not> no_overlap t ar"
  obtains t' st' where "insert_area t st ar = Some (Err InvalidAccess, t', st')" "vma_wf t'"
    "t' = t \<or> (\<exists>p \<in> set (areas t). area_end p = area_start ar \<and> area_flags p = area_flags ar
          \<and> set (areas t') = set (areas t) - {p})"
proof -
  obtain t1 st1 where l: "insert_loop t (st\<lparr>inserts := inserts st + 1\<rparr>) ar = Some (Err InvalidAccess, t1, st1)"
    "vma_wf t1" "t1 = t \<or> (\<exists>p \<in> set (areas t). area_end p = area_start ar \<and> area_flags p = area_flags ar
          \<and> set (areas t1) = set (areas t) - {p})"
    using insert_loop_err [OF assms, of "st\<lparr>inserts := inserts st + 1\<rparr>"] by blast
  then show thesis
    using assms(2) by (intro that [of t1 st1]) (auto simp: insert_area_def dest: leD)
qed

lemma coalesced_subset: "coalesced t \<Longrightarrow> set (areas t') \<subseteq> set (areas t) \<Longrightarrow> coalesced t'"
  by (auto simp: coalesced_def)

section \<open>Properties\<close>

text \<open>C23: on a well-formed tree, inserting a nonempty area always returns, keeps the tree well
  formed and coalesced, and accepts the area exactly when it overlaps no existing one. An
  accepted area changes the permission lookup precisely on its own addresses.\<close>

theorem insert_area_correct:
  assumes "vma_wf t" "area_start ar < area_end ar"
  shows "\<exists>res t' st'. insert_area t st ar = Some (res, t', st') \<and> vma_wf t'
    \<and> (coalesced t \<longrightarrow> coalesced t')
    \<and> (is_ok res \<longleftrightarrow> (\<forall>b \<in> set (areas t). \<not> overlaps ar b))
    \<and> (is_ok res \<longrightarrow> (\<forall>addr. vma_flags t' addr =
          (if area_contains ar addr then Some (area_flags ar) else vma_flags t addr)))"
proof (cases "no_overlap t ar")
  case True
  show ?thesis
    by (rule insert_area_ok [OF assms True, of st]) (use True in \<open>auto simp: no_overlap_def\<close>)
next
  case False
  then obtain t' st' where "insert_area t st ar = Some (Err InvalidAccess, t', st')" "vma_wf t'"
    "set (areas t') \<subseteq> set (areas t)"
    by (elim insert_area_err [OF assms, of st]) auto
  then show ?thesis
    using False coalesced_subset by (auto simp: no_overlap_def)
qed

text \<open>a rejected insertion leaves the tree exactly as it was, unless an area with the same
  flags ends where the rejected one starts.\<close>

theorem insert_area_reject_keeps:
  assumes "vma_wf t" "insert_area t st ar = Some (Err e, t', st')"
    and "\<forall>p \<in> set (areas t). area_end p = area_start ar \<longrightarrow> area_flags p \<noteq> area_flags ar"
  shows "e = InvalidAccess \<and> t' = t"
proof (cases "area_start ar < area_end ar")
  case True
  have "\<not> no_overlap t ar"
    using insert_area_ok [OF assms(1) True, of st] assms(2) by fastforce
  then show ?thesis
    by (rule insert_area_err [OF assms(1) True, of st]) (use assms(2,3) in auto)
next
  case False
  then show ?thesis
    using assms(2) by (simp add: insert_area_def not_less)
qed

text \<open>C24: the rejection is not atomic in the remaining case. If the new area starts where an
  area with the same flags ends, the address after that end is free, and a later area overlaps
  the new one, the insertion fails and the earlier area is gone from the tree.\<close>

theorem insert_area_reject_loses:
  assumes "vma_wf t" "area_start ar < area_end ar" "p \<in> set (areas t)"
    "area_end p = area_start ar" "area_flags p = area_flags ar"
    "find_containing t (area_start ar) = None" "\<exists>b \<in> set (areas t). overlaps ar b"
  shows "\<exists>t' st'. insert_area t st ar = Some (Err InvalidAccess, t', st')
    \<and> find_containing t (area_start p) = Some p \<and> find_containing t' (area_start p) = None"
proof -
  obtain b where b: "b \<in> set (areas t)" "overlaps ar b"
    using assms(7) by blast
  have pne: "area_start p < area_end p" and bne: "area_start b < area_end b"
    using vma_wf_member [OF assms(1)] assms(3) b(1) by auto
  have "find_prev t (area_start ar) \<noteq> None"
  proof
    assume "find_prev t (area_start ar) = None"
    then show False
      using find_prev_None [OF assms(1) _ assms(3), of "area_start ar"] pne assms(4) by simp
  qed
  then obtain q where q: "find_prev t (area_start ar) = Some q"
    by blast
  note prev = find_prev_Some [OF assms(1) q]
  have "area_start q \<noteq> area_start ar"
    using find_containing_None [OF assms(1,6) prev(1)] vma_wf_member [OF assms(1) prev(1)]
    by (auto simp: area_contains_def)
  then have qp: "q = p"
    using prev(3) [OF assms(3)] pne prev(2) unfolding assms(4) by (simp add: less_imp_le)
  obtain t1 x where rm: "remove_node t (area_start p) = (t1, x)"
    by fastforce
  note rmt = remove_member [OF assms(1,3) rm]
  have sb: "area_start ar < area_start b"
    using find_containing_None [OF assms(1,6) b(1)] b(2)
    by (simp add: area_contains_def overlaps_def not_le)
  then have pb: "area_start p < area_start b"
    using pne assms(4) by (simp add: order_less_trans)
  have err: "merge_next t1 s (ar\<lparr>area_start := area_start p\<rparr>)
      = (Err InvalidAccess, t1, s\<lparr>overlap_rejects := overlap_rejects s + 1\<rparr>)" for s
  proof (rule merge_next_err [OF rmt(1)])
    show "b \<in> set (areas t1)"
      using rmt(2) b(1) pb by auto
    show "area_start (ar\<lparr>area_start := area_start p\<rparr>) \<le> area_start b"
      using pb by simp
    show "area_start b < area_end (ar\<lparr>area_start := area_start p\<rparr>)"
      using b(2) by (simp add: overlaps_def)
  qed
  have "\<exists>st'. insert_loop t s ar = Some (Err InvalidAccess, t1, st')" for s
    using assms(4,5) rm err by (subst insert_loop.simps) (simp add: merge_prev_def q qp)
  from this [of "st\<lparr>inserts := inserts st + 1\<rparr>"]
  have "\<exists>st'. insert_area t st ar = Some (Err InvalidAccess, t1, st')"
    using assms(2) by (auto simp: insert_area_def dest: leD)
  moreover have "\<not> area_contains c (area_start p)" if "c \<in> set (areas t1)" for c
  proof -
    have "\<not> overlaps p c"
      using separated_inj [of "areas t" p c] rmt(2) that assms(1,3) by (auto simp: vma_wf_def)
    then show ?thesis
      using pne by (auto simp: area_contains_def overlaps_def)
  qed
  then have "find_containing t1 (area_start p) = None"
    by (rule find_containing_NoneI [OF rmt(1)])
  moreover have "find_containing t (area_start p) = Some p"
    using assms(1,3) pne by (auto simp: vma_wf_def find_containing_iff area_contains_def)
  ultimately show ?thesis
    by blast
qed

text \<open>C25: the three lookups of a well-formed tree. \<open>find_containing\<close> returns the one area that
  holds the address, and nothing when there is none; \<open>find_prev\<close> and \<open>find_next\<close> return the last
  area that starts at or below the address and the first that starts at or above it.\<close>

theorem vma_lookup_correct:
  assumes "vma_wf t"
  shows "(find_containing t addr = Some a \<longleftrightarrow> a \<in> set (areas t) \<and> area_contains a addr)
    \<and> find_prev t addr = (let ys = filter (\<lambda>b. area_start b \<le> addr) (areas t)
                          in if ys = [] then None else Some (last ys))
    \<and> find_next t addr = (let ys = filter (\<lambda>b. addr \<le> area_start b) (areas t)
                          in if ys = [] then None else Some (hd ys))"
  using assms
  by (simp add: vma_wf_def find_containing_iff find_prev_def find_prev_loop_eq find_next_def
      find_next_loop_eq)

text \<open>the stack-based traversals visit every area once, in address order: \<open>for_each_in_order\<close>
  is the fold over the areas, \<open>node_count\<close> their number, and \<open>max_depth\<close> the height of the tree.\<close>

theorem traversals_correct:
  "for_each_in_order root f s = fold f (areas root) s
   \<and> vma_tree_stats root = \<lparr> st_node_count = length (areas root), st_max_depth = height root \<rparr>"
proof -
  have "max_depth root = height root"
    by (cases root) (simp_all add: max_depth_def max_depth_loop_eq del: max_depth_loop.simps)
  then show ?thesis
    by (simp add: for_each_in_order_eq vma_tree_stats_def node_count_def in_order_loop_eq fold_count)
qed

subsection \<open>Instances\<close>

definition sample_area :: "u64 \<Rightarrow> u64 \<Rightarrow> MemoryArea" where
  "sample_area s e = memory_area_new s e (PRESENT OR WRITABLE)"

definition sample_tree :: IntervalNode where
  "sample_tree = insert_node (insert_node Empty (node_new (sample_area 0x1000 0x2000)))
     (node_new (sample_area 0x3000 0x5000))"

lemma sample_tree_props:
  "vma_wf sample_tree"
  "set (areas sample_tree) = {sample_area 0x1000 0x2000, sample_area 0x3000 0x5000}"
proof -
  let ?t1 = "insert_node Empty (node_new (sample_area 0x1000 0x2000))"
  have t1: "vma_wf ?t1" "set (areas ?t1) = {sample_area 0x1000 0x2000}"
    using insert_node_wf [of Empty "sample_area 0x1000 0x2000"]
    by (simp_all add: vma_wf_def sample_area_def memory_area_new_def)
  show "vma_wf sample_tree"
    "set (areas sample_tree) = {sample_area 0x1000 0x2000, sample_area 0x3000 0x5000}"
    unfolding sample_tree_def
    using insert_node_wf [OF t1(1), of "sample_area 0x3000 0x5000"] t1(2)
    by (auto simp: sample_area_def memory_area_new_def overlaps_def)
qed

lemma sample_area_simps [simp]:
  "area_start (sample_area s e) = s" "area_end (sample_area s e) = e"
  "area_flags (sample_area s e) = PRESENT OR WRITABLE"
  by (simp_all add: sample_area_def memory_area_new_def)

theorem insert_area_correct_witness:
  "\<exists>res t' st'. insert_area sample_tree reset_vma_stats (sample_area 0x2000 0x3000) = Some (res, t', st')
    \<and> is_ok res \<and> vma_flags t' 0x2800 = Some (PRESENT OR WRITABLE)"
proof -
  have "\<forall>b \<in> set (areas sample_tree). \<not> overlaps (sample_area 0x2000 0x3000) b"
    by (simp add: sample_tree_props overlaps_def)
  then show ?thesis
    using insert_area_correct [OF sample_tree_props(1), of "sample_area 0x2000 0x3000" reset_vma_stats]
    by (auto simp: area_contains_def)
qed

theorem insert_area_reject_keeps_witness:
  "\<exists>st'. insert_area sample_tree reset_vma_stats (sample_area 0x4000 0x6000)
     = Some (Err InvalidAccess, sample_tree, st')"
proof -
  have "\<not> no_overlap sample_tree (sample_area 0x4000 0x6000)"
    by (simp add: no_overlap_def sample_tree_props overlaps_def)
  then obtain t' st' where i: "insert_area sample_tree reset_vma_stats (sample_area 0x4000 0x6000)
      = Some (Err InvalidAccess, t', st')"
    by (rule insert_area_err [OF sample_tree_props(1), rotated]) simp_all
  then have "t' = sample_tree"
    using insert_area_reject_keeps [OF sample_tree_props(1) i] by (simp add: sample_tree_props)
  with i show ?thesis
    by simp
qed

theorem insert_area_reject_loses_witness:
  "\<exists>t' st'. insert_area sample_tree reset_vma_stats (sample_area 0x2000 0x4000)
      = Some (Err InvalidAccess, t', st') \<and> find_containing t' 0x1000 = None"
proof -
  have "find_containing sample_tree 0x2000 = None"
    by (rule find_containing_NoneI [OF sample_tree_props(1)])
      (auto simp: sample_tree_props area_contains_def)
  moreover have "\<exists>b \<in> set (areas sample_tree). overlaps (sample_area 0x2000 0x4000) b"
    by (simp add: sample_tree_props overlaps_def)
  ultimately have "\<exists>t' st'. insert_area sample_tree reset_vma_stats (sample_area 0x2000 0x4000)
        = Some (Err InvalidAccess, t', st')
      \<and> find_containing sample_tree (area_start (sample_area 0x1000 0x2000)) = Some (sample_area 0x1000 0x2000)
      \<and> find_containing t' (area_start (sample_area 0x1000 0x2000)) = None"
    by (intro insert_area_reject_loses [OF sample_tree_props(1)]) (simp_all add: sample_tree_props)
  then show ?thesis
    by auto
qed

theorem vma_lookup_correct_witness:
  "find_containing sample_tree 0x3fff = Some (sample_area 0x3000 0x5000)"
  using vma_lookup_correct [OF sample_tree_props(1), of "0x3fff" "sample_area 0x3000 0x5000"]
  by (simp add: sample_tree_props area_contains_def)

end
