(* ===== verification/FrameLists.thy ===== *)
theory FrameLists
  imports Addr
begin

text \<open>
  The frame metadata of the physical memory manager and the lists threaded through it
  (\<open>src/mm/src/frame_allocator/allocator_core.rs\<close>, \<open>percpu_cache.rs\<close>).

  Free blocks are linked by frame number through the metadata records: doubly linked in the
  global list of their order and shard, singly linked in the per-CPU caches and in the
  emergency reserve. The metadata is a map of blocks of records, as in the source; touching a
  frame whose block pointer is null is the fault \<open>None\<close>. Frame
  numbers and orders are natural numbers: they stay below \<open>total_frames\<close> and \<open>MAX_ORDER\<close>.

  The invariant \<open>links\<close> relates the lists to a ghost owner map that says in which list, if any,
  a frame number heads a free block; each list operation is then an update of the owner map.
\<close>

section \<open>Constants and data\<close>

definition MAX_ORDER :: nat where "MAX_ORDER = 19"
definition SHARD_COUNT :: nat where "SHARD_COUNT = 8"
definition MAX_CPUS :: nat where "MAX_CPUS = 64"
definition ORDER_4K :: nat where "ORDER_4K = 0"
definition ORDER_2M :: nat where "ORDER_2M = 9"
definition ORDER_1G :: nat where "ORDER_1G = 18"
definition BF_MIGRATABLE :: u8 where "BF_MIGRATABLE = push_bit 0 1"

datatype FrameState = Allocated | FreeGlobal | FreePerCpu

record BuddyFrame =
  bf_order :: nat
  bf_state :: FrameState
  bf_flags :: u8
  bf_next :: "nat option"
  bf_prev :: "nat option"

definition buddy_frame_new :: BuddyFrame where
  "buddy_frame_new = \<lparr> bf_order = 0, bf_state = Allocated, bf_flags = BF_MIGRATABLE,
     bf_next = None, bf_prev = None \<rparr>"

definition set_flag :: "u8 \<Rightarrow> u8 \<Rightarrow> bool \<Rightarrow> u8" where
  "set_flag flags m on = (if on then flags OR m else flags AND NOT m)"

record UninitRegion =
  start_pfn :: nat
  end_pfn :: nat

record Counters =
  allocated_frames :: usize
  alloc_calls :: usize
  alloc_hit_percpu :: usize
  alloc_refill :: usize
  alloc_hit_global :: usize
  alloc_hit_uninit :: usize
  alloc_fail :: usize
  alloc_fail_by_order :: "nat \<Rightarrow> usize"
  dealloc_calls :: usize
  global_list_ops :: usize
  compact_calls :: usize
  compact_drained :: usize
  compact_success :: usize
  compact_last_before :: usize
  compact_last_after :: usize
  compact_last_alloc_call :: usize

record LazyBuddyAllocator =
  total_frames :: nat
  metadata_map :: "nat \<Rightarrow> (nat \<Rightarrow> BuddyFrame) option"
  frames_per_block :: nat
  regions :: "UninitRegion option list"
  last_uninit_idx :: nat
  free_heads :: "nat \<Rightarrow> nat \<Rightarrow> nat option"
  pc_heads :: "nat \<Rightarrow> nat \<Rightarrow> nat option"
  pc_counts :: "nat \<Rightarrow> nat \<Rightarrow> u16"
  reserve_head :: "nat option"
  reserve_count :: usize
  counters :: Counters

definition counters_new :: Counters where
  "counters_new = \<lparr> allocated_frames = 0, alloc_calls = 0, alloc_hit_percpu = 0, alloc_refill = 0,
     alloc_hit_global = 0, alloc_hit_uninit = 0, alloc_fail = 0, alloc_fail_by_order = (\<lambda>_. 0),
     dealloc_calls = 0, global_list_ops = 0, compact_calls = 0, compact_drained = 0, compact_success = 0,
     compact_last_before = 0, compact_last_after = 0, compact_last_alloc_call = 0 \<rparr>"

text \<open>\<open>LazyBuddyAllocator::new\<close>, with the empty lists of \<open>FreeListTable::new\<close> and of the per-CPU
  caches; the configuration is set by \<open>init\<close>.\<close>

definition allocator_new :: LazyBuddyAllocator where
  "allocator_new = \<lparr> total_frames = 0, metadata_map = (\<lambda>_. None), frames_per_block = 0, regions = [],
     last_uninit_idx = 0, free_heads = (\<lambda>_ _. None), pc_heads = (\<lambda>_ _. None), pc_counts = (\<lambda>_ _. 0),
     reserve_head = None, reserve_count = 0, counters = counters_new \<rparr>"

section \<open>Access to the metadata\<close>

definition get_frame :: "nat \<Rightarrow> LazyBuddyAllocator \<Rightarrow> BuddyFrame option" where
  "get_frame pfn s =
    (let block_idx = pfn div frames_per_block s;
         offset = pfn mod frames_per_block s
     in case metadata_map s block_idx of
          None \<Rightarrow> None
        | Some block_ptr \<Rightarrow> Some (block_ptr offset))"

definition upd_frame ::
  "nat \<Rightarrow> (BuddyFrame \<Rightarrow> BuddyFrame) \<Rightarrow> LazyBuddyAllocator \<Rightarrow> LazyBuddyAllocator option" where
  "upd_frame pfn g s =
    (let block_idx = pfn div frames_per_block s;
         offset = pfn mod frames_per_block s
     in case metadata_map s block_idx of
          None \<Rightarrow> None
        | Some block_ptr \<Rightarrow> Some (s\<lparr>metadata_map :=
            (metadata_map s)(block_idx \<mapsto> block_ptr(offset := g (block_ptr offset)))\<rparr>))"

definition count_list_op :: "LazyBuddyAllocator \<Rightarrow> LazyBuddyAllocator" where
  "count_list_op s = s\<lparr>counters := (counters s)\<lparr>global_list_ops := global_list_ops (counters s) + 1\<rparr>\<rparr>"

text \<open>The assignments that take a frame out of a list: state, migratable flag, links.\<close>

definition mark_allocated :: "BuddyFrame \<Rightarrow> BuddyFrame" where
  "mark_allocated f = f\<lparr>bf_state := Allocated, bf_flags := set_flag (bf_flags f) BF_MIGRATABLE True,
     bf_next := None, bf_prev := None\<rparr>"

definition shard_for_pfn :: "nat \<Rightarrow> nat" where
  "shard_for_pfn pfn = pfn mod SHARD_COUNT"

definition shard_for_cpu :: "nat \<Rightarrow> nat" where
  "shard_for_cpu cpu = cpu mod SHARD_COUNT"

section \<open>The global lists\<close>

definition set_free_head :: "nat \<Rightarrow> nat \<Rightarrow> nat option \<Rightarrow> LazyBuddyAllocator \<Rightarrow> LazyBuddyAllocator" where
  "set_free_head order shard h s =
     s\<lparr>free_heads := (free_heads s)(order := (free_heads s order)(shard := h))\<rparr>"

definition remove_from_list_with_list ::
  "nat \<Rightarrow> nat \<Rightarrow> nat \<Rightarrow> LazyBuddyAllocator \<Rightarrow> LazyBuddyAllocator option" where
  "remove_from_list_with_list pfn order shard s =
    do {
      frame \<leftarrow> get_frame pfn s;
      let prev_idx = bf_prev frame;
      let next_idx = bf_next frame;
      s \<leftarrow> upd_frame pfn (\<lambda>f. f\<lparr>bf_next := None, bf_prev := None\<rparr>) s;
      s \<leftarrow> (case prev_idx of
             Some prev \<Rightarrow> upd_frame prev (\<lambda>f. f\<lparr>bf_next := next_idx\<rparr>) s
           | None \<Rightarrow> Some (set_free_head order shard next_idx s));
      (case next_idx of
         Some nxt \<Rightarrow> upd_frame nxt (\<lambda>f. f\<lparr>bf_prev := prev_idx\<rparr>) s
       | None \<Rightarrow> Some s)
    }"

fun pop_shards ::
  "nat \<Rightarrow> nat list \<Rightarrow> LazyBuddyAllocator \<Rightarrow> (nat option \<times> LazyBuddyAllocator) option" where
  "pop_shards order [] s = Some (None, s)"
| "pop_shards order (shard # rest) s =
    (let s = count_list_op s
     in case free_heads s order shard of
       Some idx \<Rightarrow>
         do {
           s \<leftarrow> remove_from_list_with_list idx order shard s;
           s \<leftarrow> upd_frame idx mark_allocated s;
           Some (Some idx, s)
         }
     | None \<Rightarrow> pop_shards order rest s)"

definition pop_from_global ::
  "nat \<Rightarrow> nat \<Rightarrow> LazyBuddyAllocator \<Rightarrow> (nat option \<times> LazyBuddyAllocator) option" where
  "pop_from_global order cpu s =
    (let start = shard_for_cpu cpu
     in pop_shards order (map (\<lambda>offset. (start + offset) mod SHARD_COUNT) [0..<SHARD_COUNT]) s)"

definition push_to_global :: "nat \<Rightarrow> nat \<Rightarrow> LazyBuddyAllocator \<Rightarrow> LazyBuddyAllocator option" where
  "push_to_global pfn order s =
    do {
      let shard = shard_for_pfn pfn;
      let s = count_list_op s;
      let head = free_heads s order shard;
      s \<leftarrow> upd_frame pfn (\<lambda>f. f\<lparr>bf_order := order, bf_state := FreeGlobal,
             bf_flags := set_flag (bf_flags f) BF_MIGRATABLE True, bf_next := head, bf_prev := None\<rparr>) s;
      s \<leftarrow> (case head of
             Some head_idx \<Rightarrow> upd_frame head_idx (\<lambda>f. f\<lparr>bf_prev := Some pfn\<rparr>) s
           | None \<Rightarrow> Some s);
      Some (set_free_head order shard (Some pfn) s)
    }"

section \<open>The per-CPU caches\<close>

definition percpu_pop_raw ::
  "nat \<Rightarrow> nat \<Rightarrow> LazyBuddyAllocator \<Rightarrow> (nat option \<times> LazyBuddyAllocator) option" where
  "percpu_pop_raw cpu order s =
    (let c = cpu mod MAX_CPUS
     in case pc_heads s c order of
       Some head \<Rightarrow>
         do {
           frame \<leftarrow> get_frame head s;
           let s = s\<lparr>pc_heads := (pc_heads s)(c := (pc_heads s c)(order := bf_next frame)),
                     pc_counts := (pc_counts s)(c := (pc_counts s c)(order :=
                       saturating_sub (pc_counts s c order) 1))\<rparr>;
           s \<leftarrow> upd_frame head mark_allocated s;
           Some (Some head, s)
         }
     | None \<Rightarrow> Some (None, s))"

definition percpu_push_raw :: "nat \<Rightarrow> nat \<Rightarrow> nat \<Rightarrow> LazyBuddyAllocator \<Rightarrow> LazyBuddyAllocator option" where
  "percpu_push_raw cpu pfn order s =
    (let c = cpu mod MAX_CPUS
     in do {
       s \<leftarrow> upd_frame pfn (\<lambda>f. f\<lparr>bf_order := order, bf_state := FreePerCpu,
              bf_flags := set_flag (bf_flags f) BF_MIGRATABLE True,
              bf_next := pc_heads s c order, bf_prev := None\<rparr>) s;
       Some (s\<lparr>pc_heads := (pc_heads s)(c := (pc_heads s c)(order := Some pfn)),
               pc_counts := (pc_counts s)(c := (pc_counts s c)(order :=
                 saturating_add (pc_counts s c order) 1))\<rparr>)
     })"

section \<open>The emergency reserve\<close>

definition reserve_pop :: "LazyBuddyAllocator \<Rightarrow> (nat option \<times> LazyBuddyAllocator) option" where
  "reserve_pop s =
    (case reserve_head s of
       Some head \<Rightarrow>
         do {
           frame \<leftarrow> get_frame head s;
           let s = s\<lparr>reserve_head := bf_next frame\<rparr>;
           s \<leftarrow> upd_frame head mark_allocated s;
           Some (Some head, s\<lparr>reserve_count := reserve_count s - 1\<rparr>)
         }
     | None \<Rightarrow> Some (None, s))"

definition reserve_push :: "nat \<Rightarrow> LazyBuddyAllocator \<Rightarrow> LazyBuddyAllocator option" where
  "reserve_push pfn s =
    do {
      s \<leftarrow> upd_frame pfn (\<lambda>f. f\<lparr>bf_order := ORDER_4K, bf_state := Allocated,
             bf_flags := set_flag (bf_flags f) BF_MIGRATABLE True,
             bf_next := reserve_head s, bf_prev := None\<rparr>) s;
      Some (s\<lparr>reserve_head := Some pfn, reserve_count := reserve_count s + 1\<rparr>)
    }"

section \<open>Reading and writing metadata\<close>

definition fr :: "LazyBuddyAllocator \<Rightarrow> nat \<Rightarrow> BuddyFrame option" where
  "fr s p = get_frame p s"

lemma fr_eq: "fr s p = map_option (\<lambda>block_ptr. block_ptr (p mod frames_per_block s))
    (metadata_map s (p div frames_per_block s))"
  by (simp add: fr_def get_frame_def split: option.split)

lemma get_frame_fr [simp]: "get_frame p s = fr s p"
  by (simp add: fr_def)

lemma div_mod_eq_iff: "(q :: nat) div n = p div n \<Longrightarrow> (q mod n = p mod n) = (q = p)"
  by (metis div_mult_mod_eq)

lemma upd_frame_Some:
  assumes "fr s p = Some f"
  shows "\<exists>s'. upd_frame p g s = Some s' \<and> fr s' = (fr s)(p \<mapsto> g f)
    \<and> (\<exists>mm. s' = s\<lparr>metadata_map := mm\<rparr>)"
proof -
  obtain blk where blk: "metadata_map s (p div frames_per_block s) = Some blk"
    "f = blk (p mod frames_per_block s)"
    using assms by (auto simp: fr_eq split: option.splits)
  let ?mm = "(metadata_map s)(p div frames_per_block s \<mapsto>
      blk(p mod frames_per_block s := g (blk (p mod frames_per_block s))))"
  have "fr (s\<lparr>metadata_map := ?mm\<rparr>) q = ((fr s)(p \<mapsto> g f)) q" for q
    using blk div_mod_eq_iff [of q "frames_per_block s" p]
    by (auto simp: fr_eq)
  then have "fr (s\<lparr>metadata_map := ?mm\<rparr>) = (fr s)(p \<mapsto> g f)"
    by (rule ext)
  then show ?thesis
    using blk by (auto simp: upd_frame_def Let_def)
qed

definition same_geo :: "LazyBuddyAllocator \<Rightarrow> LazyBuddyAllocator \<Rightarrow> bool" where
  "same_geo s s' \<longleftrightarrow> total_frames s' = total_frames s \<and> regions s' = regions s
     \<and> last_uninit_idx s' = last_uninit_idx s"

lemma same_geo_refl [simp]: "same_geo s s"
  by (simp add: same_geo_def)

lemma same_geo_trans: "same_geo s s1 \<Longrightarrow> same_geo s1 s2 \<Longrightarrow> same_geo s s2"
  by (simp add: same_geo_def)

lemma same_geo_upd [simp]:
  "same_geo s (s\<lparr>free_heads := a\<rparr>)" "same_geo s (s\<lparr>pc_heads := b\<rparr>)"
  "same_geo s (s\<lparr>reserve_head := c\<rparr>)" "same_geo s (s\<lparr>counters := d\<rparr>)"
  "same_geo s (count_list_op s)" "same_geo s (set_free_head x1 x2 x3 s)"
  by (simp_all add: same_geo_def count_list_op_def set_free_head_def)

lemma upd_frame_ex:
  assumes "fr s p = Some f"
  shows "\<exists>s'. upd_frame p g s = Some s' \<and> fr s' = (fr s)(p \<mapsto> g f) \<and> same_geo s s'
    \<and> free_heads s' = free_heads s \<and> pc_heads s' = pc_heads s \<and> reserve_head s' = reserve_head s"
proof -
  obtain mm where "upd_frame p g s = Some (s\<lparr>metadata_map := mm\<rparr>)"
    "fr (s\<lparr>metadata_map := mm\<rparr>) = (fr s)(p \<mapsto> g f)"
    using upd_frame_Some [OF assms, of g] by blast
  then show ?thesis
    by (simp add: same_geo_def)
qed

section \<open>Linked lists in the metadata\<close>

text \<open>\<open>dpath m pr h xs l e\<close>: from head \<open>h\<close> the frames \<open>xs\<close> are linked both ways; the first one's
  predecessor is \<open>pr\<close>, the last one is \<open>l\<close> and its successor is \<open>e\<close>.\<close>

fun dpath :: "(nat \<Rightarrow> BuddyFrame option) \<Rightarrow> nat option \<Rightarrow> nat option \<Rightarrow> nat list \<Rightarrow> nat option
    \<Rightarrow> nat option \<Rightarrow> bool" where
  "dpath m pr h [] l e \<longleftrightarrow> h = e \<and> l = pr"
| "dpath m pr h (x # xs) l e \<longleftrightarrow> h = Some x \<and>
     (\<exists>f. m x = Some f \<and> bf_prev f = pr \<and> dpath m (Some x) (bf_next f) xs l e)"

text \<open>The singly linked lists only use \<open>next\<close>.\<close>

fun spath :: "(nat \<Rightarrow> BuddyFrame option) \<Rightarrow> nat option \<Rightarrow> nat list \<Rightarrow> bool" where
  "spath m h [] \<longleftrightarrow> h = None"
| "spath m h (x # xs) \<longleftrightarrow> h = Some x \<and> (\<exists>f. m x = Some f \<and> spath m (bf_next f) xs)"

lemma dpath_append:
  "dpath m pr h (xs @ ys) l e \<longleftrightarrow> (\<exists>l' e'. dpath m pr h xs l' e' \<and> dpath m l' e' ys l e)"
  by (induction xs arbitrary: pr h) auto

lemma dpath_cong:
  assumes "\<And>x. x \<in> set xs \<Longrightarrow> m' x = m x"
  shows "dpath m' pr h xs l e = dpath m pr h xs l e"
  using assms by (induction xs arbitrary: pr h) auto

lemma spath_cong:
  assumes "\<And>x. x \<in> set xs \<Longrightarrow> m' x = m x"
  shows "spath m' h xs = spath m h xs"
  using assms by (induction xs arbitrary: h) auto

lemma dpath_upd_notin [simp]: "p \<notin> set xs \<Longrightarrow> dpath (m(p := v)) pr h xs l e = dpath m pr h xs l e"
  by (rule dpath_cong) auto

lemma spath_upd_notin [simp]: "p \<notin> set xs \<Longrightarrow> spath (m(p := v)) h xs = spath m h xs"
  by (rule spath_cong) auto

lemma dpath_None [simp]: "dpath m pr None xs l e \<longleftrightarrow> xs = [] \<and> e = None \<and> l = pr"
  by (cases xs) auto

lemma spath_None [simp]: "spath m None xs \<longleftrightarrow> xs = []"
  by (cases xs) auto

lemma dpath_members: "dpath m pr h xs l e \<Longrightarrow> x \<in> set xs \<Longrightarrow> m x \<noteq> None"
  by (induction xs arbitrary: pr h) auto

lemma dpath_set_next:
  assumes "dpath m pr h (ys @ [q]) l e" "distinct (ys @ [q])"
  shows "l = Some q"
    "\<exists>g. m q = Some g \<and> (\<forall>e'. dpath (m(q \<mapsto> g\<lparr>bf_next := e'\<rparr>)) pr h (ys @ [q]) (Some q) e')"
  using assms by (auto simp: dpath_append)

lemma dpath_set_prev:
  assumes "dpath m pr h (z # zs) l e" "z \<notin> set zs"
  shows "\<exists>g. m z = Some g \<and> dpath (m(z \<mapsto> g\<lparr>bf_prev := pr'\<rparr>)) pr' h (z # zs) l e"
  using assms by auto

definition strip :: "BuddyFrame \<Rightarrow> nat \<times> FrameState" where
  "strip f = (bf_order f, bf_state f)"

lemma strip_upd [simp]:
  "strip (f\<lparr>bf_next := a\<rparr>) = strip f" "strip (f\<lparr>bf_prev := b\<rparr>) = strip f"
  "strip (f\<lparr>bf_next := a, bf_prev := b\<rparr>) = strip f"
  by (simp_all add: strip_def)

lemma count_list_op_simps [simp]:
  "fr (count_list_op s) = fr s" "free_heads (count_list_op s) = free_heads s"
  "pc_heads (count_list_op s) = pc_heads s" "reserve_head (count_list_op s) = reserve_head s"
  by (simp_all add: count_list_op_def fr_eq fun_eq_iff)

lemma fr_upd_simps [simp]:
  "fr (s\<lparr>free_heads := a\<rparr>) = fr s" "fr (s\<lparr>pc_heads := b\<rparr>) = fr s" "fr (s\<lparr>pc_counts := b'\<rparr>) = fr s"
  "fr (s\<lparr>reserve_head := c\<rparr>) = fr s" "fr (s\<lparr>reserve_count := c'\<rparr>) = fr s"
  "fr (s\<lparr>counters := d\<rparr>) = fr s" "fr (s\<lparr>regions := e\<rparr>) = fr s" "fr (s\<lparr>last_uninit_idx := e'\<rparr>) = fr s"
  by (simp_all add: fr_eq fun_eq_iff)

text \<open>Unlinking a frame from its global list.\<close>

lemma remove_from_list_spec:
  assumes path: "dpath (fr s) None (free_heads s order shard) (ys @ p # zs) l None"
    and dist: "distinct (ys @ p # zs)"
  obtains s' l' where "remove_from_list_with_list p order shard s = Some s'"
    "dpath (fr s') None (free_heads s' order shard) (ys @ zs) l' None"
    "\<And>x. x \<notin> set (ys @ p # zs) \<Longrightarrow> fr s' x = fr s x"
    "\<And>x. map_option strip (fr s' x) = map_option strip (fr s x)"
    "\<And>o' sh'. (o', sh') \<noteq> (order, shard) \<Longrightarrow> free_heads s' o' sh' = free_heads s o' sh'"
    "pc_heads s' = pc_heads s" "reserve_head s' = reserve_head s" "same_geo s s'"
proof -
  let ?h = "free_heads s order shard"
  obtain l1 f where ys: "dpath (fr s) None ?h ys l1 (Some p)" and f: "fr s p = Some f" "bf_prev f = l1"
    and zs: "dpath (fr s) (Some p) (bf_next f) zs l None"
    using path by (auto simp: dpath_append)
  obtain s1 where s1: "upd_frame p (\<lambda>f. f\<lparr>bf_next := None, bf_prev := None\<rparr>) s = Some s1"
    "fr s1 = (fr s)(p \<mapsto> f\<lparr>bf_next := None, bf_prev := None\<rparr>)" "same_geo s s1"
    "free_heads s1 = free_heads s" "pc_heads s1 = pc_heads s" "reserve_head s1 = reserve_head s"
    using upd_frame_ex [OF f(1)] by blast
  have ys1: "dpath (fr s1) None ?h ys l1 (Some p)" and zs1: "dpath (fr s1) (Some p) (bf_next f) zs l None"
    using ys zs dist by (simp_all add: s1(2))
  obtain s2 where s2: "(case bf_prev f of
        Some prev \<Rightarrow> upd_frame prev (\<lambda>g. g\<lparr>bf_next := bf_next f\<rparr>) s1
      | None \<Rightarrow> Some (set_free_head order shard (bf_next f) s1)) = Some s2"
    and y2: "dpath (fr s2) None (free_heads s2 order shard) ys l1 (bf_next f)"
    and z2: "dpath (fr s2) (Some p) (bf_next f) zs l None"
    and o2: "\<And>x. x \<notin> set ys \<Longrightarrow> fr s2 x = fr s1 x" "\<And>x. map_option strip (fr s2 x) = map_option strip (fr s1 x)"
    "\<And>o' sh'. (o', sh') \<noteq> (order, shard) \<Longrightarrow> free_heads s2 o' sh' = free_heads s1 o' sh'"
    "pc_heads s2 = pc_heads s1" "reserve_head s2 = reserve_head s1" "same_geo s1 s2"
  proof (cases ys rule: rev_cases)
    case Nil
    then have "l1 = None"
      using ys by simp
    then show thesis
      using that [of "set_free_head order shard (bf_next f) s1"] Nil zs1 f(2)
      by (auto simp: set_free_head_def)
  next
    case (snoc ys0 q)
    obtain g where g: "l1 = Some q" "fr s1 q = Some g"
      "dpath ((fr s1)(q \<mapsto> g\<lparr>bf_next := bf_next f\<rparr>)) None ?h (ys0 @ [q]) (Some q) (bf_next f)"
      using dpath_set_next [of "fr s1" None ?h ys0 q l1 "Some p"] ys1 dist snoc by auto
    obtain s' where u: "upd_frame q (\<lambda>g. g\<lparr>bf_next := bf_next f\<rparr>) s1 = Some s'"
      "fr s' = (fr s1)(q \<mapsto> g\<lparr>bf_next := bf_next f\<rparr>)" "same_geo s1 s'"
      "free_heads s' = free_heads s1" "pc_heads s' = pc_heads s1" "reserve_head s' = reserve_head s1"
      using upd_frame_ex [OF g(2)] by blast
    show thesis
      using g f(2) u snoc dist zs1 s1(4) by (intro that [of s']) auto
  qed
  obtain s3 l3 where s3: "(case bf_next f of
        Some nxt \<Rightarrow> upd_frame nxt (\<lambda>g. g\<lparr>bf_prev := l1\<rparr>) s2
      | None \<Rightarrow> Some s2) = Some s3"
    and p3: "dpath (fr s3) None (free_heads s3 order shard) (ys @ zs) l3 None"
    and o3: "\<And>x. x \<notin> set zs \<Longrightarrow> fr s3 x = fr s2 x" "\<And>x. map_option strip (fr s3 x) = map_option strip (fr s2 x)"
    "free_heads s3 = free_heads s2" "pc_heads s3 = pc_heads s2" "reserve_head s3 = reserve_head s2" "same_geo s2 s3"
  proof (cases zs)
    case Nil
    then show thesis
      using that [of s2 l1] z2 y2 by auto
  next
    case (Cons z zs')
    obtain g where g: "fr s2 z = Some g"
      "dpath ((fr s2)(z \<mapsto> g\<lparr>bf_prev := l1\<rparr>)) l1 (bf_next f) (z # zs') l None"
      using dpath_set_prev [of "fr s2" "Some p" "bf_next f" z zs' l None l1] z2 dist Cons by auto
    obtain s' where u: "upd_frame z (\<lambda>g. g\<lparr>bf_prev := l1\<rparr>) s2 = Some s'"
      "fr s' = (fr s2)(z \<mapsto> g\<lparr>bf_prev := l1\<rparr>)" "same_geo s2 s'"
      "free_heads s' = free_heads s2" "pc_heads s' = pc_heads s2" "reserve_head s' = reserve_head s2"
      using upd_frame_ex [OF g(1)] by blast
    have "dpath (fr s') None (free_heads s' order shard) (ys @ zs) l None"
      unfolding dpath_append using y2 g(2) u(2,4) dist Cons by auto
    then show thesis
      using g f(2) u Cons z2 by (intro that [of s' l]) auto
  qed
  show thesis
  proof (rule that [OF _ p3])
    show "remove_from_list_with_list p order shard s = Some s3"
      using f s1(1) s2 s3 by (simp add: remove_from_list_with_list_def)
    show "fr s3 x = fr s x" if "x \<notin> set (ys @ p # zs)" for x
      using that o3(1) o2(1) s1(2) by simp
    show "map_option strip (fr s3 x) = map_option strip (fr s x)" for x
      using o3(2) o2(2) s1(2) f(1) by simp
    show "same_geo s s3"
      using same_geo_trans s1(3) o2(6) o3(6) by blast
  qed (use o3 o2 s1 in simp_all)
qed

section \<open>The owner map\<close>

datatype Loc = Glob nat | Cpu nat nat | Res

fun loc_order :: "Loc \<Rightarrow> nat" where
  "loc_order (Glob k) = k"
| "loc_order (Cpu c k) = k"
| "loc_order Res = ORDER_4K"

fun loc_ok :: "Loc \<Rightarrow> bool" where
  "loc_ok (Glob k) \<longleftrightarrow> k < MAX_ORDER"
| "loc_ok (Cpu c k) \<longleftrightarrow> c < MAX_CPUS \<and> k < MAX_ORDER"
| "loc_ok Res \<longleftrightarrow> True"

definition state_of :: "Loc option \<Rightarrow> FrameState" where
  "state_of l = (case l of Some (Glob _) \<Rightarrow> FreeGlobal | Some (Cpu _ _) \<Rightarrow> FreePerCpu | _ \<Rightarrow> Allocated)"

definition fields_ok :: "Loc option \<Rightarrow> BuddyFrame \<Rightarrow> bool" where
  "fields_ok l f \<longleftrightarrow> bf_state f = state_of l \<and> (\<forall>x. l = Some x \<longrightarrow> bf_order f = loc_order x)"

definition glist :: "LazyBuddyAllocator \<Rightarrow> (nat \<Rightarrow> Loc option) \<Rightarrow> nat \<Rightarrow> nat \<Rightarrow> bool" where
  "glist s own k sh \<longleftrightarrow> (\<exists>xs l. dpath (fr s) None (free_heads s k sh) xs l None \<and> distinct xs
     \<and> set xs = {p. own p = Some (Glob k) \<and> shard_for_pfn p = sh})"

definition clist :: "LazyBuddyAllocator \<Rightarrow> (nat \<Rightarrow> Loc option) \<Rightarrow> nat \<Rightarrow> nat \<Rightarrow> bool" where
  "clist s own c k \<longleftrightarrow> (\<exists>xs. spath (fr s) (pc_heads s c k) xs \<and> distinct xs
     \<and> set xs = {p. own p = Some (Cpu c k)})"

definition rlist :: "LazyBuddyAllocator \<Rightarrow> (nat \<Rightarrow> Loc option) \<Rightarrow> bool" where
  "rlist s own \<longleftrightarrow> (\<exists>xs. spath (fr s) (reserve_head s) xs \<and> distinct xs
     \<and> set xs = {p. own p = Some Res})"

definition links :: "LazyBuddyAllocator \<Rightarrow> (nat \<Rightarrow> Loc option) \<Rightarrow> bool" where
  "links s own \<longleftrightarrow>
     (\<forall>k sh. k < MAX_ORDER \<longrightarrow> sh < SHARD_COUNT \<longrightarrow> glist s own k sh)
   \<and> (\<forall>c k. c < MAX_CPUS \<longrightarrow> k < MAX_ORDER \<longrightarrow> clist s own c k)
   \<and> rlist s own
   \<and> (\<forall>p f. fr s p = Some f \<longrightarrow> fields_ok (own p) f)
   \<and> (\<forall>p l. own p = Some l \<longrightarrow> loc_ok l)"

lemma fields_ok_strip: "strip f = strip g \<Longrightarrow> fields_ok l f = fields_ok l g"
  by (simp add: fields_ok_def strip_def)

lemma glist_frame:
  assumes "glist s own k sh" "free_heads s' k sh = free_heads s k sh"
    "\<And>p. own p = Some (Glob k) \<Longrightarrow> shard_for_pfn p = sh \<Longrightarrow> fr s' p = fr s p"
    "\<And>p. shard_for_pfn p = sh \<Longrightarrow> own' p = Some (Glob k) \<longleftrightarrow> own p = Some (Glob k)"
  shows "glist s' own' k sh"
proof -
  obtain xs l where "dpath (fr s) None (free_heads s k sh) xs l None" "distinct xs"
    "set xs = {p. own p = Some (Glob k) \<and> shard_for_pfn p = sh}"
    using assms(1) by (auto simp: glist_def)
  moreover have "dpath (fr s') None (free_heads s k sh) xs l None"
    using calculation assms(3) by (subst dpath_cong [of xs "fr s'" "fr s"]) auto
  ultimately show ?thesis
    using assms(2,4) unfolding glist_def by (intro exI [of _ xs] exI [of _ l]) auto
qed

lemma clist_frame:
  assumes "clist s own c k" "pc_heads s' c k = pc_heads s c k"
    "\<And>p. own p = Some (Cpu c k) \<Longrightarrow> fr s' p = fr s p"
    "\<And>p. own' p = Some (Cpu c k) \<longleftrightarrow> own p = Some (Cpu c k)"
  shows "clist s' own' c k"
proof -
  obtain xs where "spath (fr s) (pc_heads s c k) xs" "distinct xs" "set xs = {p. own p = Some (Cpu c k)}"
    using assms(1) by (auto simp: clist_def)
  moreover have "spath (fr s') (pc_heads s c k) xs"
    using calculation assms(3) by (subst spath_cong [of xs "fr s'" "fr s"]) auto
  ultimately show ?thesis
    using assms(2,4) unfolding clist_def by (intro exI [of _ xs]) auto
qed

lemma rlist_frame:
  assumes "rlist s own" "reserve_head s' = reserve_head s"
    "\<And>p. own p = Some Res \<Longrightarrow> fr s' p = fr s p"
    "\<And>p. own' p = Some Res \<longleftrightarrow> own p = Some Res"
  shows "rlist s' own'"
proof -
  obtain xs where "spath (fr s) (reserve_head s) xs" "distinct xs" "set xs = {p. own p = Some Res}"
    using assms(1) by (auto simp: rlist_def)
  moreover have "spath (fr s') (reserve_head s) xs"
    using calculation assms(3) by (subst spath_cong [of xs "fr s'" "fr s"]) auto
  ultimately show ?thesis
    using assms(2,4) unfolding rlist_def by (intro exI [of _ xs]) auto
qed

lemma shard_bound [simp]: "shard_for_pfn p < SHARD_COUNT"
  by (simp add: shard_for_pfn_def SHARD_COUNT_def)

lemma shard_cpu_bound [simp]: "shard_for_cpu p < SHARD_COUNT"
  by (simp add: shard_for_cpu_def SHARD_COUNT_def)

lemma linksD:
  assumes "links s own"
  shows "k < MAX_ORDER \<Longrightarrow> sh < SHARD_COUNT \<Longrightarrow> glist s own k sh"
    "c < MAX_CPUS \<Longrightarrow> k < MAX_ORDER \<Longrightarrow> clist s own c k"
    "rlist s own" "fr s p = Some f \<Longrightarrow> fields_ok (own p) f" "own p = Some x \<Longrightarrow> loc_ok x"
  using assms by (auto simp: links_def)

lemma linksI:
  assumes "\<And>k sh. k < MAX_ORDER \<Longrightarrow> sh < SHARD_COUNT \<Longrightarrow> glist s own k sh"
    "\<And>c k. c < MAX_CPUS \<Longrightarrow> k < MAX_ORDER \<Longrightarrow> clist s own c k"
    "rlist s own" "\<And>p f. fr s p = Some f \<Longrightarrow> fields_ok (own p) f"
    "\<And>p x. own p = Some x \<Longrightarrow> loc_ok x"
  shows "links s own"
  using assms by (simp add: links_def)

lemma links_cong:
  assumes "links s own" "fr s' = fr s" "free_heads s' = free_heads s" "pc_heads s' = pc_heads s"
    "reserve_head s' = reserve_head s"
  shows "links s' own"
  using assms by (simp add: links_def glist_def clist_def rlist_def)

text \<open>Changing fields of a frame that is in no list.\<close>

lemma links_upd_free:
  assumes "links s own" "own p = None" "fr s' = (fr s)(p \<mapsto> f)" "bf_state f = Allocated"
    "free_heads s' = free_heads s" "pc_heads s' = pc_heads s" "reserve_head s' = reserve_head s"
  shows "links s' own"
proof -
  have same: "fr s' q = fr s q" if "own q = Some x" for q x
    using that assms(2,3) by auto
  note L = linksD [OF assms(1)]
  show ?thesis
  proof (rule linksI)
    show "glist s' own k sh" if "k < MAX_ORDER" "sh < SHARD_COUNT" for k sh
      by (rule glist_frame [OF L(1) [OF that]]) (simp_all add: assms(5) same)
    show "clist s' own c k" if "c < MAX_CPUS" "k < MAX_ORDER" for c k
      by (rule clist_frame [OF L(2) [OF that]]) (simp_all add: assms(6) same)
    show "rlist s' own"
      by (rule rlist_frame [OF L(3)]) (simp_all add: assms(7) same)
    show "fields_ok (own q) g" if "fr s' q = Some g" for q g
      using that L(4) [of q g] assms(2,3,4) by (auto simp: fields_ok_def state_of_def split: if_splits)
    show "loc_ok x" if "own q = Some x" for q x
      by (rule L(5) [OF that])
  qed
qed

text \<open>\<open>step s s' P\<close>: configuration and regions are unchanged, no metadata appears or disappears,
  and only the frames in \<open>P\<close> change order or state.\<close>

definition step :: "LazyBuddyAllocator \<Rightarrow> LazyBuddyAllocator \<Rightarrow> nat set \<Rightarrow> bool" where
  "step s s' P \<longleftrightarrow> same_geo s s' \<and> (\<forall>q. (fr s' q = None) = (fr s q = None))
     \<and> (\<forall>q. q \<notin> P \<longrightarrow> map_option strip (fr s' q) = map_option strip (fr s q))"

lemma step_refl: "step s s P"
  by (simp add: step_def)

lemma step_trans: "step s s1 P \<Longrightarrow> step s1 s2 Q \<Longrightarrow> P \<union> Q \<subseteq> R \<Longrightarrow> step s s2 R"
  unfolding step_def using same_geo_trans by (metis Un_iff subset_iff)

lemma step_mono: "step s s1 P \<Longrightarrow> P \<subseteq> R \<Longrightarrow> step s s1 R"
  by (auto simp: step_def)

lemma step_same: "fr s' = fr s \<Longrightarrow> same_geo s s' \<Longrightarrow> step s s' P"
  by (simp add: step_def)

lemma step_upd: "fr s p = Some f \<Longrightarrow> fr s' = (fr s)(p \<mapsto> g) \<Longrightarrow> same_geo s s' \<Longrightarrow> step s s' {p}"
  by (simp add: step_def)

lemma step_fr: "step s s' P \<Longrightarrow> fr s p \<noteq> None \<Longrightarrow> fr s' p \<noteq> None"
  by (simp add: step_def)

lemma map_strip_dom: "map_option strip a = map_option strip b \<Longrightarrow> (a = None) = (b = None)"
  by (cases a; cases b) auto

lemma mark_allocated_simps [simp]:
  "bf_state (mark_allocated f) = Allocated" "bf_order (mark_allocated f) = bf_order f"
  by (simp_all add: mark_allocated_def)

subsection \<open>Taking a block out of its global list\<close>

lemma glistE:
  assumes "links s own" "own p = Some (Glob k)"
  obtains ys zs l where "dpath (fr s) None (free_heads s k (shard_for_pfn p)) (ys @ p # zs) l None"
    "distinct (ys @ p # zs)" "set (ys @ p # zs) = {q. own q = Some (Glob k) \<and> shard_for_pfn q = shard_for_pfn p}"
proof -
  have "k < MAX_ORDER"
    using linksD(5) [OF assms] by simp
  then obtain xs l where x: "dpath (fr s) None (free_heads s k (shard_for_pfn p)) xs l None" "distinct xs"
    "set xs = {q. own q = Some (Glob k) \<and> shard_for_pfn q = shard_for_pfn p}"
    using linksD(1) [OF assms(1), of k "shard_for_pfn p"] by (auto simp: glist_def)
  then have "p \<in> set xs"
    using assms(2) by simp
  then obtain ys zs where "xs = ys @ p # zs"
    by (meson split_list)
  with x show thesis
    by (intro that) simp_all
qed

lemma unlink_global:
  assumes "links s own" "own p = Some (Glob k)"
  obtains s1 s2 f where "remove_from_list_with_list p k (shard_for_pfn p) s = Some s1"
    "upd_frame p mark_allocated s1 = Some s2" "links s2 (own(p := None))" "step s s2 {p}"
    "fr s2 p = Some f" "bf_order f = k"
proof -
  let ?sh = "shard_for_pfn p"
  obtain ys zs l where x: "dpath (fr s) None (free_heads s k ?sh) (ys @ p # zs) l None"
    "distinct (ys @ p # zs)" "set (ys @ p # zs) = {q. own q = Some (Glob k) \<and> shard_for_pfn q = ?sh}"
    using glistE [OF assms] by blast
  obtain s1 l1 where s1: "remove_from_list_with_list p k ?sh s = Some s1"
    "dpath (fr s1) None (free_heads s1 k ?sh) (ys @ zs) l1 None"
    "\<And>x. x \<notin> set (ys @ p # zs) \<Longrightarrow> fr s1 x = fr s x"
    "\<And>x. map_option strip (fr s1 x) = map_option strip (fr s x)"
    "\<And>o' sh'. (o', sh') \<noteq> (k, ?sh) \<Longrightarrow> free_heads s1 o' sh' = free_heads s o' sh'"
    "pc_heads s1 = pc_heads s" "reserve_head s1 = reserve_head s" "same_geo s s1"
    using remove_from_list_spec [OF x(1,2)] by blast
  have "fr s p \<noteq> None"
    using dpath_members [OF x(1)] by simp
  then obtain f where f: "fr s1 p = Some f"
    using map_strip_dom [OF s1(4) [of p]] by auto
  obtain s2 where s2: "upd_frame p mark_allocated s1 = Some s2" "fr s2 = (fr s1)(p \<mapsto> mark_allocated f)"
    "same_geo s1 s2" "free_heads s2 = free_heads s1" "pc_heads s2 = pc_heads s1"
    "reserve_head s2 = reserve_head s1"
    using upd_frame_ex [OF f] by blast
  note L = linksD [OF assms(1)]
  have same: "fr s2 q = fr s q" if "own q \<noteq> Some (Glob k) \<or> shard_for_pfn q \<noteq> ?sh" for q
    using that s1(3) [of q] x(3) s2(2) assms(2) by auto
  have strip_f: "strip f = strip g" if "fr s p = Some g" for g
    using s1(4) [of p] f that by simp
  show thesis
  proof (rule that [OF s1(1) s2(1)])
    show "links s2 (own(p := None))"
    proof (rule linksI)
      show "glist s2 (own(p := None)) k' sh" if k': "k' < MAX_ORDER" "sh < SHARD_COUNT" for k' sh
      proof (cases "(k', sh) = (k, ?sh)")
        case True
        have "p \<notin> set (ys @ zs)"
          using x(2) by auto
        then have "dpath (fr s2) None (free_heads s2 k ?sh) (ys @ zs) l1 None"
          using s1(2) s2(2,4) by simp
        moreover have "set (ys @ zs) = {q. (own(p := None)) q = Some (Glob k) \<and> shard_for_pfn q = ?sh}"
          using x(2,3) by auto
        ultimately show ?thesis
          using True x(2) unfolding glist_def by (intro exI [of _ "ys @ zs"] exI [of _ l1]) auto
      next
        case False
        then show ?thesis
          using s1(5) [OF False] s2(4) same assms(2)
          by (intro glist_frame [OF L(1) [OF k']]) auto
      qed
      show "clist s2 (own(p := None)) c k'" if "c < MAX_CPUS" "k' < MAX_ORDER" for c k'
        by (rule clist_frame [OF L(2) [OF that]]) (use s1(6) s2(5) same assms(2) in auto)
      show "rlist s2 (own(p := None))"
        by (rule rlist_frame [OF L(3)]) (use s1(7) s2(6) same assms(2) in auto)
      show "fields_ok ((own(p := None)) q) g" if fq: "fr s2 q = Some g" for q g
      proof (cases "q = p")
        case True
        then show ?thesis
          using fq s2(2) by (auto simp: fields_ok_def state_of_def)
      next
        case False
        then obtain g' where "fr s q = Some g'" "strip g = strip g'"
          using fq s1(4) [of q] s2(2) by (cases "fr s q") auto
        then show ?thesis
          using L(4) [of q g'] False fields_ok_strip [of g g'] by simp
      qed
      show "loc_ok y" if "(own(p := None)) q = Some y" for q y
        using that L(5) by (auto split: if_splits)
    qed
    show "step s s2 {p}"
      using s1(4,8) s2(2,3) same_geo_trans map_strip_dom [OF s1(4)] \<open>fr s p \<noteq> None\<close>
      unfolding step_def by (metis fun_upd_apply option.distinct(1) singletonI)
    obtain g where g: "fr s p = Some g"
      using \<open>fr s p \<noteq> None\<close> by auto
    then show "bf_order (mark_allocated f) = k"
      using L(4) [OF g] strip_f [OF g] assms(2) by (simp add: fields_ok_def strip_def)
  qed (use s2(2) in simp)
qed

lemma pop_shards_links:
  assumes "links s own" "k < MAX_ORDER" "\<forall>sh \<in> set shs. sh < SHARD_COUNT"
  shows "\<exists>r s'. pop_shards k shs s = Some (r, s') \<and>
    (case r of
       None \<Rightarrow> links s' own \<and> step s s' {} \<and> (\<forall>p. own p = Some (Glob k) \<longrightarrow> shard_for_pfn p \<notin> set shs)
     | Some p \<Rightarrow> own p = Some (Glob k) \<and> links s' (own(p := None)) \<and> step s s' {p}
         \<and> (\<exists>f. fr s' p = Some f \<and> bf_order f = k))"
  using assms
proof (induction shs arbitrary: s)
  case Nil
  then show ?case
    by (simp add: step_refl)
next
  case (Cons sh shs)
  let ?s = "count_list_op s"
  have L: "links ?s own" and st: "step s ?s {}"
    using Cons.prems(1) by (auto intro: links_cong step_same)
  show ?case
  proof (cases "free_heads s k sh")
    case None
    have "shard_for_pfn p \<noteq> sh" if "own p = Some (Glob k)" for p
      using linksD(1) [OF Cons.prems(1,2), of sh] Cons.prems(3) that None
      by (auto simp: glist_def)
    moreover obtain r s' where r: "pop_shards k shs ?s = Some (r, s')"
      "case r of
         None \<Rightarrow> links s' own \<and> step ?s s' {} \<and> (\<forall>p. own p = Some (Glob k) \<longrightarrow> shard_for_pfn p \<notin> set shs)
       | Some p \<Rightarrow> own p = Some (Glob k) \<and> links s' (own(p := None)) \<and> step ?s s' {p}
           \<and> (\<exists>f. fr s' p = Some f \<and> bf_order f = k)"
      using Cons.IH [OF L Cons.prems(2)] Cons.prems(3) by auto
    ultimately show ?thesis
      using None step_trans [OF st] by (cases r) auto
  next
    case (Some idx)
    obtain xs l where "dpath (fr s) None (Some idx) xs l None"
      "set xs = {p. own p = Some (Glob k) \<and> shard_for_pfn p = sh}"
      using linksD(1) [OF Cons.prems(1,2), of sh] Cons.prems(3) Some by (auto simp: glist_def)
    then have idx: "own idx = Some (Glob k)" "shard_for_pfn idx = sh"
      by (cases xs; auto)+
    obtain s1 s2 f where u: "remove_from_list_with_list idx k sh ?s = Some s1"
      "upd_frame idx mark_allocated s1 = Some s2" "links s2 (own(idx := None))" "step ?s s2 {idx}"
      "fr s2 idx = Some f" "bf_order f = k"
      using unlink_global [OF L idx(1)] unfolding idx(2) by blast
    then show ?thesis
      using Some idx step_trans [OF st u(4)] by auto
  qed
qed

lemma pop_from_global_links:
  assumes "links s own" "k < MAX_ORDER"
  obtains s' where "pop_from_global k cpu s = Some (None, s')" "links s' own" "step s s' {}"
      "\<And>p. own p \<noteq> Some (Glob k)"
    | p s' f where "pop_from_global k cpu s = Some (Some p, s')" "own p = Some (Glob k)"
      "links s' (own(p := None))" "step s s' {p}" "fr s' p = Some f" "bf_order f = k"
proof -
  let ?shs = "map (\<lambda>offset. (shard_for_cpu cpu + offset) mod SHARD_COUNT) [0..<SHARD_COUNT]"
  have shs: "set ?shs = {..<SHARD_COUNT}"
  proof -
    have "x \<in> (\<lambda>offset. (shard_for_cpu cpu + offset) mod 8) ` {0..<8}" if "x < 8" for x
    proof (rule image_eqI)
      show "x = (shard_for_cpu cpu + (x + 8 - shard_for_cpu cpu) mod 8) mod 8"
        using that shard_cpu_bound [of cpu] by (simp add: mod_add_right_eq SHARD_COUNT_def)
    qed simp
    then show ?thesis
      by (auto simp: SHARD_COUNT_def)
  qed
  obtain r s' where r: "pop_shards k ?shs s = Some (r, s')"
    "case r of
         None \<Rightarrow> links s' own \<and> step s s' {} \<and> (\<forall>p. own p = Some (Glob k) \<longrightarrow> shard_for_pfn p \<notin> {..<SHARD_COUNT})
       | Some p \<Rightarrow> own p = Some (Glob k) \<and> links s' (own(p := None)) \<and> step s s' {p}
           \<and> (\<exists>f. fr s' p = Some f \<and> bf_order f = k)"
    using pop_shards_links [OF assms, of ?shs] unfolding shs by auto
  show thesis
  proof (cases r)
    case None
    then show thesis
      using r that(1) by (auto simp: pop_from_global_def)
  next
    case (Some p)
    then show thesis
      using r that(2) by (auto simp: pop_from_global_def)
  qed
qed

subsection \<open>Putting a block into a list\<close>

lemma fields_ok_new: "bf_state f = state_of (Some x) \<Longrightarrow> bf_order f = loc_order x \<Longrightarrow> fields_ok (Some x) f"
  by (simp add: fields_ok_def)

lemma push_to_global_links:
  assumes "links s own" "own p = None" "fr s p \<noteq> None" "k < MAX_ORDER"
  obtains s' where "push_to_global p k s = Some s'" "links s' (own(p \<mapsto> Glob k))" "step s s' {p}"
proof -
  let ?sh = "shard_for_pfn p" and ?s = "count_list_op s"
  let ?g = "\<lambda>f. f\<lparr>bf_order := k, bf_state := FreeGlobal, bf_flags := set_flag (bf_flags f) BF_MIGRATABLE True,
             bf_next := free_heads s k ?sh, bf_prev := None\<rparr>"
  obtain f where f: "fr ?s p = Some f"
    using assms(3) by auto
  note L = linksD [OF assms(1)]
  obtain xs l where x: "dpath (fr s) None (free_heads s k ?sh) xs l None" "distinct xs"
    "set xs = {q. own q = Some (Glob k) \<and> shard_for_pfn q = ?sh}"
    using L(1) [OF assms(4), of ?sh] by (auto simp: glist_def)
  have px: "p \<notin> set xs"
    using x(3) assms(2) by simp
  obtain s1 where s1: "upd_frame p ?g ?s = Some s1" "fr s1 = (fr s)(p \<mapsto> ?g f)" "same_geo ?s s1"
    "free_heads s1 = free_heads s" "pc_heads s1 = pc_heads s" "reserve_head s1 = reserve_head s"
    using upd_frame_ex [OF f, of ?g] by auto
  obtain s2 l2 where s2: "(case free_heads s k ?sh of
        Some head_idx \<Rightarrow> upd_frame head_idx (\<lambda>f. f\<lparr>bf_prev := Some p\<rparr>) s1
      | None \<Rightarrow> Some s1) = Some s2"
    "dpath (fr s2) (Some p) (free_heads s k ?sh) xs l2 None" "fr s2 p = Some (?g f)"
    "\<And>q. q \<notin> set xs \<Longrightarrow> fr s2 q = fr s1 q" "\<And>q. map_option strip (fr s2 q) = map_option strip (fr s1 q)"
    "same_geo s1 s2" "free_heads s2 = free_heads s" "pc_heads s2 = pc_heads s" "reserve_head s2 = reserve_head s"
  proof (cases xs)
    case Nil
    then show thesis
      using that [of s1 "Some p"] x(1) s1 by simp
  next
    case (Cons h xs')
    have h: "free_heads s k ?sh = Some h" "dpath (fr s1) None (Some h) (h # xs') l None"
      using x(1) s1(2) Cons px by auto
    then obtain g where g: "fr s1 h = Some g"
      "dpath ((fr s1)(h \<mapsto> g\<lparr>bf_prev := Some p\<rparr>)) (Some p) (Some h) (h # xs') l None"
      using dpath_set_prev [of "fr s1" None "Some h" h xs' l None "Some p"] x(2) Cons by auto
    obtain s' where "upd_frame h (\<lambda>f. f\<lparr>bf_prev := Some p\<rparr>) s1 = Some s'"
      "fr s' = (fr s1)(h \<mapsto> g\<lparr>bf_prev := Some p\<rparr>)" "same_geo s1 s'"
      "free_heads s' = free_heads s1" "pc_heads s' = pc_heads s1" "reserve_head s' = reserve_head s1"
      using upd_frame_ex [OF g(1)] by blast
    then show thesis
      using that [of s' l] h g Cons px s1 by auto
  qed
  let ?s' = "set_free_head k ?sh (Some p) s2"
  have fr': "fr ?s' = fr s2" "pc_heads ?s' = pc_heads s" "reserve_head ?s' = reserve_head s"
    "\<And>k' sh'. free_heads ?s' k' sh' = (if (k', sh') = (k, ?sh) then Some p else free_heads s k' sh')"
    using s2 by (auto simp: set_free_head_def)
  have same: "fr ?s' q = fr s q" if "own q = Some x" "x \<noteq> Glob k \<or> shard_for_pfn q \<noteq> ?sh" for q x
    using that s2(4) [of q] s1(2) fr'(1) x(3) assms(2) by auto
  show thesis
  proof (rule that)
    show "push_to_global p k s = Some ?s'"
      using s1(1) s2(1) by (simp add: push_to_global_def)
    show "links ?s' (own(p \<mapsto> Glob k))"
    proof (rule linksI)
      show "glist ?s' (own(p \<mapsto> Glob k)) k' sh" if k': "k' < MAX_ORDER" "sh < SHARD_COUNT" for k' sh
      proof (cases "(k', sh) = (k, ?sh)")
        case True
        have "dpath (fr ?s') None (free_heads ?s' k ?sh) (p # xs) l2 None"
          using s2(2,3) fr' by simp
        moreover have "set (p # xs) = {q. (own(p \<mapsto> Glob k)) q = Some (Glob k) \<and> shard_for_pfn q = ?sh}"
          using x(3) by auto
        ultimately show ?thesis
          using True x(2) px unfolding glist_def by (intro exI [of _ "p # xs"] exI [of _ l2]) auto
      next
        case False
        then show ?thesis
          using fr'(4) [of k' sh] same assms(2) by (intro glist_frame [OF L(1) [OF k']]) auto
      qed
      show "clist ?s' (own(p \<mapsto> Glob k)) c k'" if "c < MAX_CPUS" "k' < MAX_ORDER" for c k'
        by (rule clist_frame [OF L(2) [OF that]]) (use fr'(2) same assms(2) in auto)
      show "rlist ?s' (own(p \<mapsto> Glob k))"
        by (rule rlist_frame [OF L(3)]) (use fr'(3) same assms(2) in auto)
      show "fields_ok ((own(p \<mapsto> Glob k)) q) g" if fq: "fr ?s' q = Some g" for q g
      proof (cases "q = p")
        case True
        then show ?thesis
          using fq s2(3) fr'(1) by (auto intro!: fields_ok_new simp: state_of_def)
      next
        case False
        then obtain g' where "fr s q = Some g'" "strip g = strip g'"
          using fq s2(5) [of q] s1(2) fr'(1) by (cases "fr s q") auto
        then show ?thesis
          using L(4) [of q g'] False fields_ok_strip [of g g'] by simp
      qed
      show "loc_ok y" if "(own(p \<mapsto> Glob k)) q = Some y" for q y
        using that L(5) assms(4) by (auto split: if_splits)
    qed
    have "step s s1 {p}"
      using s1(2,3) assms(3) same_geo_trans [of s ?s s1] by (auto simp: step_def)
    moreover have "step s1 ?s' {}"
      using s2(5,6) fr'(1) map_strip_dom [OF s2(5)] same_geo_trans [of s1 s2 ?s'] by (auto simp: step_def)
    ultimately show "step s ?s' {p}"
      by (rule step_trans) simp
  qed
qed

subsection \<open>Singly linked lists\<close>

text \<open>A frame leaves, or enters, at the head of its list; every other list is untouched.\<close>

lemma links_pop_cpu:
  assumes "links s own" "pc_heads s c k = Some p" "c < MAX_CPUS" "k < MAX_ORDER"
    "fr s p = Some f" "fr s' = (fr s)(p \<mapsto> f')" "bf_state f' = Allocated"
    "free_heads s' = free_heads s" "reserve_head s' = reserve_head s"
    "pc_heads s' = (pc_heads s)(c := (pc_heads s c)(k := bf_next f))"
  shows "own p = Some (Cpu c k)" "links s' (own(p := None))"
proof -
  note L = linksD [OF assms(1)]
  obtain xs where x: "spath (fr s) (pc_heads s c k) xs" "distinct xs" "set xs = {q. own q = Some (Cpu c k)}"
    using L(2) [OF assms(3,4)] by (auto simp: clist_def)
  then obtain xs' where xs: "xs = p # xs'" "spath (fr s) (bf_next f) xs'"
    using assms(2,5) by (cases xs) auto
  show own: "own p = Some (Cpu c k)"
    using x(3) xs(1) by auto
  have same: "fr s' q = fr s q" if "own q \<noteq> own p" for q
    using that assms(6) by auto
  show "links s' (own(p := None))"
  proof (rule linksI)
    show "glist s' (own(p := None)) k' sh" if "k' < MAX_ORDER" "sh < SHARD_COUNT" for k' sh
      by (rule glist_frame [OF L(1) [OF that]]) (use assms(8) same own in auto)
    show "rlist s' (own(p := None))"
      by (rule rlist_frame [OF L(3)]) (use assms(9) same own in auto)
    show "clist s' (own(p := None)) c' k'" if c': "c' < MAX_CPUS" "k' < MAX_ORDER" for c' k'
    proof (cases "(c', k') = (c, k)")
      case True
      have "spath (fr s') (pc_heads s' c k) xs'"
        using xs x(2) assms(6,10) by simp
      moreover have "set xs' = {q. (own(p := None)) q = Some (Cpu c k)}"
        using x(2,3) xs(1) by auto
      ultimately show ?thesis
        using True x(2) xs(1) unfolding clist_def by (intro exI [of _ xs']) auto
    next
      case False
      then show ?thesis
        using assms(10) same own by (intro clist_frame [OF L(2) [OF c']]) auto
    qed
    show "fields_ok ((own(p := None)) q) g" if "fr s' q = Some g" for q g
      using that L(4) [of q g] assms(6,7) by (auto simp: fields_ok_def state_of_def split: if_splits)
    show "loc_ok y" if "(own(p := None)) q = Some y" for q y
      using that L(5) by (auto split: if_splits)
  qed
qed

lemma links_push_cpu:
  assumes "links s own" "own p = None" "c < MAX_CPUS" "k < MAX_ORDER"
    "fr s' = (fr s)(p \<mapsto> f')" "bf_state f' = FreePerCpu" "bf_order f' = k" "bf_next f' = pc_heads s c k"
    "free_heads s' = free_heads s" "reserve_head s' = reserve_head s"
    "pc_heads s' = (pc_heads s)(c := (pc_heads s c)(k := Some p))"
  shows "links s' (own(p \<mapsto> Cpu c k))"
proof -
  note L = linksD [OF assms(1)]
  obtain xs where x: "spath (fr s) (pc_heads s c k) xs" "distinct xs" "set xs = {q. own q = Some (Cpu c k)}"
    using L(2) [OF assms(3,4)] by (auto simp: clist_def)
  have px: "p \<notin> set xs"
    using x(3) assms(2) by simp
  have same: "fr s' q = fr s q" if "own q \<noteq> None" for q
    using that assms(2,5) by auto
  show ?thesis
  proof (rule linksI)
    show "glist s' (own(p \<mapsto> Cpu c k)) k' sh" if "k' < MAX_ORDER" "sh < SHARD_COUNT" for k' sh
      by (rule glist_frame [OF L(1) [OF that]]) (use assms(2,9) same in auto)
    show "rlist s' (own(p \<mapsto> Cpu c k))"
      by (rule rlist_frame [OF L(3)]) (use assms(2,10) same in auto)
    show "clist s' (own(p \<mapsto> Cpu c k)) c' k'" if c': "c' < MAX_CPUS" "k' < MAX_ORDER" for c' k'
    proof (cases "(c', k') = (c, k)")
      case True
      have "spath (fr s') (pc_heads s' c k) (p # xs)"
        using x(1) px assms(5,8,11) by simp
      moreover have "set (p # xs) = {q. (own(p \<mapsto> Cpu c k)) q = Some (Cpu c k)}"
        using x(3) by auto
      ultimately show ?thesis
        using True x(2) px unfolding clist_def by (intro exI [of _ "p # xs"]) auto
    next
      case False
      then show ?thesis
        using assms(2,11) same by (intro clist_frame [OF L(2) [OF c']]) auto
    qed
    show "fields_ok ((own(p \<mapsto> Cpu c k)) q) g" if "fr s' q = Some g" for q g
      using that L(4) [of q g] assms(5,6,7) by (auto simp: fields_ok_def state_of_def split: if_splits)
    show "loc_ok y" if "(own(p \<mapsto> Cpu c k)) q = Some y" for q y
      using that L(5) assms(3,4) by (auto split: if_splits)
  qed
qed

lemma percpu_pop_raw_links:
  assumes "links s own" "k < MAX_ORDER"
  obtains "percpu_pop_raw cpu k s = Some (None, s)" "\<And>p. own p \<noteq> Some (Cpu (cpu mod MAX_CPUS) k)"
    | p s' f where "percpu_pop_raw cpu k s = Some (Some p, s')" "own p = Some (Cpu (cpu mod MAX_CPUS) k)"
      "links s' (own(p := None))" "step s s' {p}" "fr s' p = Some f" "bf_order f = k"
proof -
  let ?c = "cpu mod MAX_CPUS"
  have c: "?c < MAX_CPUS"
    by (simp add: MAX_CPUS_def)
  obtain xs where x: "spath (fr s) (pc_heads s ?c k) xs" "set xs = {q. own q = Some (Cpu ?c k)}"
    using linksD(2) [OF assms(1) c assms(2)] by (auto simp: clist_def)
  show thesis
  proof (cases "pc_heads s ?c k")
    case None
    then have "own p \<noteq> Some (Cpu ?c k)" for p
      using x by auto
    then show thesis
      using that(1) None by (simp add: percpu_pop_raw_def)
  next
    case (Some p)
    then obtain f where f: "fr s p = Some f"
      using x(1) by (cases xs) auto
    let ?s1 = "s\<lparr>pc_heads := (pc_heads s)(?c := (pc_heads s ?c)(k := bf_next f)),
                 pc_counts := (pc_counts s)(?c := (pc_counts s ?c)(k := saturating_sub (pc_counts s ?c k) 1))\<rparr>"
    have f1: "fr ?s1 p = Some f"
      using f by simp
    obtain s' where s': "upd_frame p mark_allocated ?s1 = Some s'" "fr s' = (fr s)(p \<mapsto> mark_allocated f)"
      "same_geo ?s1 s'" "free_heads s' = free_heads s" "pc_heads s' = pc_heads ?s1"
      "reserve_head s' = reserve_head s"
      using upd_frame_ex [OF f1, of mark_allocated] by auto
    have own: "own p = Some (Cpu ?c k)" "links s' (own(p := None))"
      using links_pop_cpu [OF assms(1) Some c assms(2) f s'(2) _ s'(4,6)] s'(5) by simp_all
    have "same_geo s s'"
      using s'(3) by (simp add: same_geo_def)
    then have "step s s' {p}"
      by (rule step_upd [OF f s'(2)])
    moreover have "bf_order (mark_allocated f) = k"
      using linksD(4) [OF assms(1) f] own(1) by (simp add: fields_ok_def)
    moreover have "percpu_pop_raw cpu k s = Some (Some p, s')"
      using Some f s'(1) by (simp add: percpu_pop_raw_def)
    ultimately show thesis
      using that(2) [of p s' "mark_allocated f"] own s'(2) by simp
  qed
qed

lemma percpu_push_raw_links:
  assumes "links s own" "own p = None" "fr s p \<noteq> None" "k < MAX_ORDER"
  obtains s' where "percpu_push_raw cpu p k s = Some s'" "links s' (own(p \<mapsto> Cpu (cpu mod MAX_CPUS) k))"
    "step s s' {p}"
proof -
  let ?c = "cpu mod MAX_CPUS"
  have c: "?c < MAX_CPUS"
    by (simp add: MAX_CPUS_def)
  let ?g = "\<lambda>f. f\<lparr>bf_order := k, bf_state := FreePerCpu, bf_flags := set_flag (bf_flags f) BF_MIGRATABLE True,
              bf_next := pc_heads s ?c k, bf_prev := None\<rparr>"
  obtain f where f: "fr s p = Some f"
    using assms(3) by auto
  obtain s1 where s1: "upd_frame p ?g s = Some s1" "fr s1 = (fr s)(p \<mapsto> ?g f)" "same_geo s s1"
    "free_heads s1 = free_heads s" "pc_heads s1 = pc_heads s" "reserve_head s1 = reserve_head s"
    using upd_frame_ex [OF f, of ?g] by blast
  let ?s' = "s1\<lparr>pc_heads := (pc_heads s1)(?c := (pc_heads s1 ?c)(k := Some p)),
               pc_counts := (pc_counts s1)(?c := (pc_counts s1 ?c)(k := saturating_add (pc_counts s1 ?c k) 1))\<rparr>"
  show thesis
  proof (rule that)
    show "percpu_push_raw cpu p k s = Some ?s'"
      using s1(1) by (simp add: percpu_push_raw_def Let_def)
    show "links ?s' (own(p \<mapsto> Cpu ?c k))"
      by (rule links_push_cpu [OF assms(1,2) c assms(4), of _ "?g f"]) (use s1 in simp_all)
    show "step s ?s' {p}"
      using s1(2,3) by (intro step_upd [OF f]) (simp_all add: same_geo_def)
  qed
qed

lemma links_pop_res:
  assumes "links s own" "reserve_head s = Some p"
    "fr s p = Some f" "fr s' = (fr s)(p \<mapsto> f')" "bf_state f' = Allocated"
    "free_heads s' = free_heads s" "pc_heads s' = pc_heads s" "reserve_head s' = bf_next f"
  shows "own p = Some Res" "links s' (own(p := None))"
proof -
  note L = linksD [OF assms(1)]
  obtain xs where x: "spath (fr s) (reserve_head s) xs" "distinct xs" "set xs = {q. own q = Some Res}"
    using L(3) by (auto simp: rlist_def)
  then obtain xs' where xs: "xs = p # xs'" "spath (fr s) (bf_next f) xs'"
    using assms(2,3) by (cases xs) auto
  show own: "own p = Some Res"
    using x(3) xs(1) by auto
  have same: "fr s' q = fr s q" if "own q \<noteq> own p" for q
    using that assms(4) by auto
  show "links s' (own(p := None))"
  proof (rule linksI)
    show "glist s' (own(p := None)) k' sh" if "k' < MAX_ORDER" "sh < SHARD_COUNT" for k' sh
      by (rule glist_frame [OF L(1) [OF that]]) (use assms(6) same own in auto)
    show "clist s' (own(p := None)) c k" if "c < MAX_CPUS" "k < MAX_ORDER" for c k
      by (rule clist_frame [OF L(2) [OF that]]) (use assms(7) same own in auto)
    have "spath (fr s') (reserve_head s') xs'"
      using xs x(2) assms(4,8) by simp
    moreover have "set xs' = {q. (own(p := None)) q = Some Res}"
      using x(2,3) xs(1) by auto
    ultimately show "rlist s' (own(p := None))"
      using x(2) xs(1) unfolding rlist_def by (intro exI [of _ xs']) auto
    show "fields_ok ((own(p := None)) q) g" if "fr s' q = Some g" for q g
      using that L(4) [of q g] assms(4,5) by (auto simp: fields_ok_def state_of_def split: if_splits)
    show "loc_ok y" if "(own(p := None)) q = Some y" for q y
      using that L(5) by (auto split: if_splits)
  qed
qed

lemma links_push_res:
  assumes "links s own" "own p = None" "fr s' = (fr s)(p \<mapsto> f')" "bf_state f' = Allocated"
    "bf_order f' = ORDER_4K" "bf_next f' = reserve_head s" "free_heads s' = free_heads s"
    "pc_heads s' = pc_heads s" "reserve_head s' = Some p"
  shows "links s' (own(p \<mapsto> Res))"
proof -
  note L = linksD [OF assms(1)]
  obtain xs where x: "spath (fr s) (reserve_head s) xs" "distinct xs" "set xs = {q. own q = Some Res}"
    using L(3) by (auto simp: rlist_def)
  have px: "p \<notin> set xs"
    using x(3) assms(2) by simp
  have same: "fr s' q = fr s q" if "own q \<noteq> None" for q
    using that assms(2,3) by auto
  show ?thesis
  proof (rule linksI)
    show "glist s' (own(p \<mapsto> Res)) k' sh" if "k' < MAX_ORDER" "sh < SHARD_COUNT" for k' sh
      by (rule glist_frame [OF L(1) [OF that]]) (use assms(2,7) same in auto)
    show "clist s' (own(p \<mapsto> Res)) c k" if "c < MAX_CPUS" "k < MAX_ORDER" for c k
      by (rule clist_frame [OF L(2) [OF that]]) (use assms(2,8) same in auto)
    have "spath (fr s') (reserve_head s') (p # xs)"
      using x(1) px assms(3,6,9) by simp
    moreover have "set (p # xs) = {q. (own(p \<mapsto> Res)) q = Some Res}"
      using x(3) by auto
    ultimately show "rlist s' (own(p \<mapsto> Res))"
      using x(2) px unfolding rlist_def by (intro exI [of _ "p # xs"]) auto
    show "fields_ok ((own(p \<mapsto> Res)) q) g" if "fr s' q = Some g" for q g
      using that L(4) [of q g] assms(3,4,5) by (auto simp: fields_ok_def state_of_def split: if_splits)
    show "loc_ok y" if "(own(p \<mapsto> Res)) q = Some y" for q y
      using that L(5) by (auto split: if_splits)
  qed
qed

lemma reserve_pop_links:
  assumes "links s own"
  obtains "reserve_pop s = Some (None, s)" "\<And>p. own p \<noteq> Some Res"
    | p s' f where "reserve_pop s = Some (Some p, s')" "own p = Some Res" "links s' (own(p := None))"
      "step s s' {p}" "fr s' p = Some f" "bf_order f = ORDER_4K"
proof -
  obtain xs where x: "spath (fr s) (reserve_head s) xs" "set xs = {q. own q = Some Res}"
    using linksD(3) [OF assms] by (auto simp: rlist_def)
  show thesis
  proof (cases "reserve_head s")
    case None
    then have "own p \<noteq> Some Res" for p
      using x by auto
    then show thesis
      using that(1) None by (simp add: reserve_pop_def)
  next
    case (Some p)
    then obtain f where f: "fr s p = Some f"
      using x(1) by (cases xs) auto
    let ?s1 = "s\<lparr>reserve_head := bf_next f\<rparr>"
    have f1: "fr ?s1 p = Some f"
      using f by simp
    obtain s2 where s2: "upd_frame p mark_allocated ?s1 = Some s2" "fr s2 = (fr s)(p \<mapsto> mark_allocated f)"
      "same_geo ?s1 s2" "free_heads s2 = free_heads s" "pc_heads s2 = pc_heads s"
      "reserve_head s2 = bf_next f"
      using upd_frame_ex [OF f1, of mark_allocated] by auto
    let ?s' = "s2\<lparr>reserve_count := reserve_count s2 - 1\<rparr>"
    have own: "own p = Some Res" "links ?s' (own(p := None))"
      using links_pop_res [OF assms Some f, of ?s' "mark_allocated f"] s2 by simp_all
    have "step s ?s' {p}"
      using s2(2,3) by (intro step_upd [OF f]) (simp_all add: same_geo_def)
    moreover have "bf_order (mark_allocated f) = ORDER_4K"
      using linksD(4) [OF assms f] own(1) by (simp add: fields_ok_def)
    moreover have "reserve_pop s = Some (Some p, ?s')"
      using Some f s2(1) by (simp add: reserve_pop_def)
    ultimately show thesis
      using that(2) [of p ?s' "mark_allocated f"] own s2(2) by simp
  qed
qed

lemma reserve_push_links:
  assumes "links s own" "own p = None" "fr s p \<noteq> None"
  obtains s' where "reserve_push p s = Some s'" "links s' (own(p \<mapsto> Res))" "step s s' {p}"
proof -
  let ?g = "\<lambda>f. f\<lparr>bf_order := ORDER_4K, bf_state := Allocated,
      bf_flags := set_flag (bf_flags f) BF_MIGRATABLE True, bf_next := reserve_head s, bf_prev := None\<rparr>"
  obtain f where f: "fr s p = Some f"
    using assms(3) by auto
  obtain s1 where s1: "upd_frame p ?g s = Some s1" "fr s1 = (fr s)(p \<mapsto> ?g f)" "same_geo s s1"
    "free_heads s1 = free_heads s" "pc_heads s1 = pc_heads s" "reserve_head s1 = reserve_head s"
    using upd_frame_ex [OF f, of ?g] by blast
  let ?s' = "s1\<lparr>reserve_head := Some p, reserve_count := reserve_count s1 + 1\<rparr>"
  show thesis
  proof (rule that)
    show "reserve_push p s = Some ?s'"
      using s1(1) by (simp add: reserve_push_def)
    show "links ?s' (own(p \<mapsto> Res))"
      by (rule links_push_res [OF assms(1,2), of _ "?g f"]) (use s1 in simp_all)
    show "step s ?s' {p}"
      using s1(2,3) by (intro step_upd [OF f]) (simp_all add: same_geo_def)
  qed
qed

end
