(* ===== verification/FrameAllocator.thy ===== *)
theory FrameAllocator
  imports FrameLists
begin

text \<open>
  The buddy allocator of physical frames (\<open>LazyBuddyAllocator\<close> in
  \<open>src/mm/src/frame_allocator/allocator_core.rs\<close>, and \<open>mod.rs\<close>): splitting and merging,
  the regions that have not entered the buddy system yet, the per-CPU caches with their refill
  and drain, compaction, \<open>allocate\<close> and \<open>deallocate\<close>.

  Every operation takes and returns the whole allocator state; \<open>None\<close> is a fault (a null
  metadata pointer) or a loop that does not end. The invariant \<open>pmm_inv\<close> adds the geometry of
  the free blocks to the list invariant: blocks are aligned, inside the frame range, disjoint
  from each other and from the uninitialised regions. Under it, no operation faults, \<open>allocate\<close>
  takes exactly one aligned block out of the set of free frames and \<open>deallocate\<close> gives exactly
  one back.
\<close>

section \<open>Small arithmetic of the source\<close>

text \<open>\<open>usize::BITS - 1 - n.leading_zeros()\<close> and \<open>n.trailing_zeros()\<close>.\<close>

fun floor_log2 :: "nat \<Rightarrow> nat" where
  "floor_log2 n = (if n < 2 then 0 else Suc (floor_log2 (n div 2)))"

fun trailing_zeros :: "nat \<Rightarrow> nat" where
  "trailing_zeros n = (if n = 0 then 64 else if odd n then 0 else Suc (trailing_zeros (n div 2)))"

declare floor_log2.simps [simp del] trailing_zeros.simps [simp del]

definition per_cpu_limit :: "nat \<Rightarrow> u16" where
  "per_cpu_limit order =
    (if order \<le> 1 then 64 else if order \<le> 4 then 32 else if order \<le> 8 then 16
     else if order \<le> 12 then 8 else if order \<le> 16 then 4 else 2)"

definition per_cpu_batch :: "nat \<Rightarrow> u16" where
  "per_cpu_batch order = (let limit = per_cpu_limit order in if limit > 8 then 8 else limit)"

definition current_cpu_id :: "nat \<Rightarrow> nat" where
  "current_cpu_id raw = (if raw \<ge> MAX_CPUS then 0 else raw)"

definition bump :: "(Counters \<Rightarrow> Counters) \<Rightarrow> LazyBuddyAllocator \<Rightarrow> LazyBuddyAllocator" where
  "bump f s = s\<lparr>counters := f (counters s)\<rparr>"

section \<open>Merging and splitting\<close>

function free_and_merge :: "nat \<Rightarrow> nat \<Rightarrow> LazyBuddyAllocator \<Rightarrow> LazyBuddyAllocator option" where
  "free_and_merge pfn order s =
    (if \<not> order < MAX_ORDER - 1 then push_to_global pfn order s
     else let buddy_pfn = pfn XOR push_bit order 1 in
       if buddy_pfn \<ge> total_frames s then push_to_global pfn order s
       else let shard = shard_for_pfn buddy_pfn; s1 = count_list_op s in
         case get_frame buddy_pfn s1 of
           None \<Rightarrow> None
         | Some buddy \<Rightarrow>
             if bf_state buddy \<noteq> FreeGlobal \<or> bf_order buddy \<noteq> order then push_to_global pfn order s1
             else case remove_from_list_with_list buddy_pfn order shard s1 of
               None \<Rightarrow> None
             | Some s2 \<Rightarrow>
                 (case upd_frame buddy_pfn mark_allocated s2 of
                    None \<Rightarrow> None
                  | Some s3 \<Rightarrow> free_and_merge (if buddy_pfn < pfn then buddy_pfn else pfn) (order + 1) s3))"
  by pat_completeness auto
termination
  by (relation "measure (\<lambda>(pfn, order, s). MAX_ORDER - order)") auto

declare free_and_merge.simps [simp del]

text \<open>The assignments to a frame that is carved out of a larger block.\<close>

definition carve :: "nat \<Rightarrow> BuddyFrame \<Rightarrow> BuddyFrame" where
  "carve order f = f\<lparr>bf_order := order, bf_state := Allocated,
     bf_flags := set_flag (bf_flags f) BF_MIGRATABLE True, bf_next := None, bf_prev := None\<rparr>"

fun split_block :: "nat \<Rightarrow> nat list \<Rightarrow> LazyBuddyAllocator \<Rightarrow> LazyBuddyAllocator option" where
  "split_block idx [] s = Some s"
| "split_block idx (j # js) s =
    do {
      let buddy_idx = idx + 2 ^ j;
      s \<leftarrow> upd_frame buddy_idx (carve j) s;
      s \<leftarrow> push_to_global buddy_idx j s;
      split_block idx js s
    }"

fun alloc_higher :: "nat \<Rightarrow> nat \<Rightarrow> nat list \<Rightarrow> LazyBuddyAllocator \<Rightarrow> (nat option \<times> LazyBuddyAllocator) option" where
  "alloc_higher order cpu [] s = Some (None, s)"
| "alloc_higher order cpu (higher # rest) s =
    do {
      (r, s) \<leftarrow> pop_from_global higher cpu s;
      (case r of
         None \<Rightarrow> alloc_higher order cpu rest s
       | Some idx \<Rightarrow>
           do {
             let s = bump (\<lambda>c. c\<lparr>alloc_hit_global := alloc_hit_global c + 1\<rparr>) s;
             s \<leftarrow> split_block idx (rev [order..<higher]) s;
             s \<leftarrow> upd_frame idx (carve order) s;
             Some (Some idx, s)
           })
    }"

definition alloc_from_list :: "nat \<Rightarrow> nat \<Rightarrow> LazyBuddyAllocator \<Rightarrow> (nat option \<times> LazyBuddyAllocator) option" where
  "alloc_from_list order cpu s =
    do {
      (r, s) \<leftarrow> pop_from_global order cpu s;
      (case r of
         Some idx \<Rightarrow> Some (Some idx, bump (\<lambda>c. c\<lparr>alloc_hit_global := alloc_hit_global c + 1\<rparr>) s)
       | None \<Rightarrow> alloc_higher order cpu [order + 1..<MAX_ORDER] s)
    }"

section \<open>Uninitialised regions\<close>

text \<open>The alignment gap in front of an allocation is freed in the largest blocks that fit.\<close>

definition gap_order :: "nat \<Rightarrow> nat \<Rightarrow> nat" where
  "gap_order cursor aligned_start =
    (let remaining = aligned_start - cursor;
         max_fit = min (floor_log2 remaining) (MAX_ORDER - 1);
         align_limit = trailing_zeros cursor
     in min max_fit align_limit)"

function free_gap :: "nat \<Rightarrow> nat \<Rightarrow> LazyBuddyAllocator \<Rightarrow> LazyBuddyAllocator option" where
  "free_gap cursor aligned_start s =
    (if \<not> cursor < aligned_start then Some s
     else let order_gap = gap_order cursor aligned_start in
       case upd_frame cursor (carve order_gap) s of
         None \<Rightarrow> None
       | Some s1 \<Rightarrow>
           (case free_and_merge cursor order_gap s1 of
              None \<Rightarrow> None
            | Some s2 \<Rightarrow> free_gap (cursor + 2 ^ order_gap) aligned_start s2))"
  by pat_completeness auto
termination
  by (relation "measure (\<lambda>(cursor, aligned_start, s). aligned_start - cursor)")
    (auto simp: diff_less_mono2)

declare free_gap.simps [simp del]

text \<open>\<open>(n + sz - 1) & !(sz - 1)\<close> for a power of two, on frame numbers.\<close>

definition align_pfn :: "nat \<Rightarrow> nat \<Rightarrow> nat" where
  "align_pfn n sz = (n + sz - 1) div sz * sz"

fun uninit_loop :: "nat \<Rightarrow> nat list \<Rightarrow> LazyBuddyAllocator \<Rightarrow> (nat option \<times> LazyBuddyAllocator) option" where
  "uninit_loop sz [] s = Some (None, s)"
| "uninit_loop sz (i # is) s =
    (case regions s ! i of
       None \<Rightarrow> uninit_loop sz is s
     | Some region \<Rightarrow>
         let aligned_start = align_pfn (start_pfn region) sz in
         if aligned_start + sz \<le> end_pfn region then
           do {
             s \<leftarrow> (if aligned_start > start_pfn region then free_gap (start_pfn region) aligned_start s
                  else Some s);
             let region' = (if aligned_start + sz = end_pfn region then None
                            else Some (region\<lparr>start_pfn := aligned_start + sz\<rparr>));
             Some (Some aligned_start, s\<lparr>regions := (regions s)[i := region'], last_uninit_idx := i\<rparr>)
           }
         else uninit_loop sz is s)"

definition alloc_from_uninit :: "nat \<Rightarrow> LazyBuddyAllocator \<Rightarrow> (nat option \<times> LazyBuddyAllocator) option" where
  "alloc_from_uninit order s =
    (let sz = 2 ^ order; len = length (regions s)
     in if len = 0 then Some (None, s)
        else uninit_loop sz (map (\<lambda>offset. (last_uninit_idx s + offset) mod len) [0..<len]) s)"

definition alloc_global :: "nat \<Rightarrow> nat \<Rightarrow> LazyBuddyAllocator \<Rightarrow> (nat option \<times> LazyBuddyAllocator) option" where
  "alloc_global order cpu s =
    do {
      (r, s) \<leftarrow> alloc_from_list order cpu s;
      (case r of
         Some idx \<Rightarrow> Some (Some idx, s)
       | None \<Rightarrow>
           do {
             (r, s) \<leftarrow> alloc_from_uninit order s;
             (case r of
                Some idx \<Rightarrow>
                  do {
                    let s = bump (\<lambda>c. c\<lparr>alloc_hit_uninit := alloc_hit_uninit c + 1\<rparr>) s;
                    s \<leftarrow> upd_frame idx (carve order) s;
                    Some (Some idx, s)
                  }
              | None \<Rightarrow> Some (None, s))
           })
    }"

section \<open>Per-CPU caches\<close>

definition percpu_pop :: "nat \<Rightarrow> nat \<Rightarrow> LazyBuddyAllocator \<Rightarrow> (nat option \<times> LazyBuddyAllocator) option" where
  "percpu_pop cpu order s =
    do {
      (res, s) \<leftarrow> percpu_pop_raw cpu order s;
      Some (res, if res \<noteq> None then bump (\<lambda>c. c\<lparr>alloc_hit_percpu := alloc_hit_percpu c + 1\<rparr>) s else s)
    }"

fun percpu_drain :: "nat \<Rightarrow> nat \<Rightarrow> nat \<Rightarrow> LazyBuddyAllocator \<Rightarrow> LazyBuddyAllocator option" where
  "percpu_drain cpu order 0 s = Some s"
| "percpu_drain cpu order (Suc to_drain) s =
    do {
      (r, s) \<leftarrow> percpu_pop_raw cpu order s;
      (case r of
         Some drained \<Rightarrow> do { s \<leftarrow> free_and_merge drained order s; percpu_drain cpu order to_drain s }
       | None \<Rightarrow> Some s)
    }"

definition percpu_push :: "nat \<Rightarrow> nat \<Rightarrow> nat \<Rightarrow> LazyBuddyAllocator \<Rightarrow> LazyBuddyAllocator option" where
  "percpu_push cpu pfn order s =
    do {
      s \<leftarrow> percpu_push_raw cpu pfn order s;
      let limit = per_cpu_limit order;
      let count = pc_counts s (cpu mod MAX_CPUS) order;
      let to_drain = (if count > limit then count - limit else 0);
      percpu_drain cpu order (unat to_drain) s
    }"

fun refill_loop ::
  "nat \<Rightarrow> nat \<Rightarrow> nat \<Rightarrow> nat option \<Rightarrow> LazyBuddyAllocator \<Rightarrow> (nat option \<times> LazyBuddyAllocator) option" where
  "refill_loop cpu order 0 first s = Some (first, s)"
| "refill_loop cpu order (Suc n) first s =
    do {
      (r, s) \<leftarrow> alloc_global order cpu s;
      (case r of
         None \<Rightarrow> Some (first, s)
       | Some pfn \<Rightarrow>
           (case first of
              None \<Rightarrow> refill_loop cpu order n (Some pfn) s
            | Some _ \<Rightarrow> do { s \<leftarrow> percpu_push_raw cpu pfn order s; refill_loop cpu order n first s }))
    }"

definition percpu_refill :: "nat \<Rightarrow> nat \<Rightarrow> LazyBuddyAllocator \<Rightarrow> (nat option \<times> LazyBuddyAllocator) option" where
  "percpu_refill cpu order s =
    do {
      (first, s) \<leftarrow> refill_loop cpu order (unat (per_cpu_batch order)) None s;
      Some (first, if first \<noteq> None then bump (\<lambda>c. c\<lparr>alloc_refill := alloc_refill c + 1\<rparr>) s else s)
    }"

section \<open>Compaction\<close>

partial_function (option) drain_loop ::
  "nat \<Rightarrow> nat \<Rightarrow> usize \<Rightarrow> LazyBuddyAllocator \<Rightarrow> (usize \<times> LazyBuddyAllocator) option" where
  "drain_loop cpu order drained s =
    Option.bind (percpu_pop_raw cpu order s) (\<lambda>(r, s1).
      case r of
        None \<Rightarrow> Some (drained, s1)
      | Some pfn \<Rightarrow> Option.bind (free_and_merge pfn order s1)
          (\<lambda>s2. drain_loop cpu order (saturating_add drained 1) s2))"

fun drain_lists :: "(nat \<times> nat) list \<Rightarrow> usize \<Rightarrow> LazyBuddyAllocator \<Rightarrow> (usize \<times> LazyBuddyAllocator) option" where
  "drain_lists [] drained s = Some (drained, s)"
| "drain_lists ((cpu, order) # rest) drained s =
    do { (drained, s) \<leftarrow> drain_loop cpu order drained s; drain_lists rest drained s }"

definition drain_percpu_all :: "LazyBuddyAllocator \<Rightarrow> (usize \<times> LazyBuddyAllocator) option" where
  "drain_percpu_all s =
    drain_lists (concat (map (\<lambda>cpu. map (\<lambda>order. (cpu, order)) [0..<MAX_ORDER]) [0..<MAX_CPUS])) 0 s"

partial_function (option) walk_list :: "LazyBuddyAllocator \<Rightarrow> nat option \<Rightarrow> nat \<Rightarrow> nat option" where
  "walk_list s cur n =
    (case cur of
       None \<Rightarrow> Some n
     | Some pfn \<Rightarrow> Option.bind (get_frame pfn s) (\<lambda>frame. walk_list s (bf_next frame) (n + 1)))"

fun walk_lists :: "LazyBuddyAllocator \<Rightarrow> (nat \<times> nat) list \<Rightarrow> (nat \<Rightarrow> nat) \<Rightarrow> (nat \<Rightarrow> nat) option" where
  "walk_lists s [] free_global = Some free_global"
| "walk_lists s ((order, shard) # rest) free_global =
    do {
      n \<leftarrow> walk_list s (free_heads s order shard) (free_global order);
      walk_lists s rest (free_global(order := n))
    }"

fun first_nonzero :: "(nat \<Rightarrow> nat) \<Rightarrow> nat list \<Rightarrow> nat" where
  "first_nonzero f [] = 0"
| "first_nonzero f (order # rest) = (if f order > 0 then order else first_nonzero f rest)"

definition max_free_order :: "LazyBuddyAllocator \<Rightarrow> nat option" where
  "max_free_order s =
    do {
      free_global \<leftarrow> walk_lists s
        (concat (map (\<lambda>order. map (\<lambda>shard. (order, shard)) [0..<SHARD_COUNT]) [0..<MAX_ORDER])) (\<lambda>_. 0);
      let free_percpu = (\<lambda>order. sum_list (map (\<lambda>cpu. unat (pc_counts s cpu order)) [0..<MAX_CPUS]));
      Some (first_nonzero (\<lambda>order. free_global order + free_percpu order) (rev [0..<MAX_ORDER]))
    }"

definition compact :: "LazyBuddyAllocator \<Rightarrow> LazyBuddyAllocator option" where
  "compact s =
    do {
      before \<leftarrow> max_free_order s;
      let s = bump (\<lambda>c. c\<lparr>compact_calls := compact_calls c + 1\<rparr>) s;
      (drained, s) \<leftarrow> drain_percpu_all s;
      let s = bump (\<lambda>c. c\<lparr>compact_drained := compact_drained c + drained\<rparr>) s;
      after \<leftarrow> max_free_order s;
      let s = bump (\<lambda>c. c\<lparr>compact_last_before := of_nat before, compact_last_after := of_nat after\<rparr>) s;
      Some (if after > before then bump (\<lambda>c. c\<lparr>compact_success := compact_success c + 1\<rparr>) s else s)
    }"

section \<open>Allocation and deallocation\<close>

definition frame_address :: "nat \<Rightarrow> u64" where
  "frame_address idx = of_nat (idx * 4096)"

definition or_else ::
  "(nat option \<times> LazyBuddyAllocator) option \<Rightarrow> (LazyBuddyAllocator \<Rightarrow> (nat option \<times> LazyBuddyAllocator) option)
    \<Rightarrow> (nat option \<times> LazyBuddyAllocator) option" where
  "or_else m f = do { (r, s) \<leftarrow> m; (case r of Some idx \<Rightarrow> Some (Some idx, s) | None \<Rightarrow> f s) }"

definition took_block :: "nat \<Rightarrow> nat \<Rightarrow> LazyBuddyAllocator \<Rightarrow> u64 option \<times> LazyBuddyAllocator" where
  "took_block order idx s =
    (Some (frame_address idx), bump (\<lambda>c. c\<lparr>allocated_frames := allocated_frames c + 2 ^ order\<rparr>) s)"

definition alloc_failed :: "nat \<Rightarrow> LazyBuddyAllocator \<Rightarrow> u64 option \<times> LazyBuddyAllocator" where
  "alloc_failed order s =
    (None, bump (\<lambda>c. c\<lparr>alloc_fail := alloc_fail c + 1,
       alloc_fail_by_order := (alloc_fail_by_order c)(order := alloc_fail_by_order c order + 1)\<rparr>) s)"

text \<open>\<open>allocate\<close> on the CPU with raw id \<open>raw\<close>. The result is the address passed to
  \<open>PhysFrame::containing_address\<close>.\<close>

definition allocate :: "nat \<Rightarrow> nat \<Rightarrow> LazyBuddyAllocator \<Rightarrow> (u64 option \<times> LazyBuddyAllocator) option" where
  "allocate raw order s =
    (if order \<ge> MAX_ORDER then Some (None, s)
     else
       let s = bump (\<lambda>c. c\<lparr>alloc_calls := alloc_calls c + 1\<rparr>) s;
           cpu = current_cpu_id raw
       in do {
         (r, s) \<leftarrow> or_else (or_else (or_else (percpu_pop cpu order s)
                     (percpu_refill cpu order))
                     (alloc_global order cpu))
                     (\<lambda>s. if order = ORDER_4K then reserve_pop s else Some (None, s));
         (case r of
            Some idx \<Rightarrow> Some (took_block order idx s)
          | None \<Rightarrow>
              let now = alloc_calls (counters s); last = compact_last_alloc_call (counters s) in
              if order > ORDER_4K \<and> saturating_sub now last \<ge> 1024 then
                do {
                  max_order \<leftarrow> max_free_order s;
                  if max_order < order then
                    do {
                      s \<leftarrow> compact (bump (\<lambda>c. c\<lparr>compact_last_alloc_call := now\<rparr>) s);
                      (r, s) \<leftarrow> alloc_global order cpu s;
                      Some (case r of Some idx \<Rightarrow> took_block order idx s | None \<Rightarrow> alloc_failed order s)
                    }
                  else Some (alloc_failed order s)
                }
              else Some (alloc_failed order s))
       })"

definition deallocate :: "nat \<Rightarrow> u64 \<Rightarrow> LazyBuddyAllocator \<Rightarrow> LazyBuddyAllocator option" where
  "deallocate raw addr s =
    (let s = bump (\<lambda>c. c\<lparr>dealloc_calls := dealloc_calls c + 1\<rparr>) s;
         pfn = unat addr div 4096
     in if pfn \<ge> total_frames s then Some s
        else case get_frame pfn s of
          None \<Rightarrow> Some s
        | Some frame_meta \<Rightarrow>
            if bf_state frame_meta \<noteq> Allocated then Some s
            else
              let order = bf_order frame_meta in
              do {
                s \<leftarrow> (if order = ORDER_4K \<and> reserve_count s < 32 then reserve_push pfn s
                     else percpu_push (current_cpu_id raw) pfn order s);
                Some (bump (\<lambda>c. c\<lparr>allocated_frames := allocated_frames c - 2 ^ order\<rparr>) s)
              })"

definition allocate_frames :: "nat \<Rightarrow> nat \<Rightarrow> LazyBuddyAllocator \<Rightarrow> (u64 option \<times> LazyBuddyAllocator) option" where
  "allocate_frames raw order s = allocate raw order s"

definition allocate_frame :: "nat \<Rightarrow> LazyBuddyAllocator \<Rightarrow> (u64 option \<times> LazyBuddyAllocator) option" where
  "allocate_frame raw s = allocate_frames raw ORDER_4K s"

definition deallocate_frame :: "nat \<Rightarrow> u64 \<Rightarrow> LazyBuddyAllocator \<Rightarrow> LazyBuddyAllocator option" where
  "deallocate_frame raw addr s = deallocate raw addr s"

fun init_reserve :: "nat \<Rightarrow> LazyBuddyAllocator \<Rightarrow> LazyBuddyAllocator option" where
  "init_reserve 0 s = Some s"
| "init_reserve (Suc pages) s =
    do {
      (r, s) \<leftarrow> alloc_global ORDER_4K 0 s;
      (case r of
         Some frame \<Rightarrow> do { s \<leftarrow> reserve_push frame s; init_reserve pages s }
       | None \<Rightarrow> Some s)
    }"

section \<open>The geometry of free blocks\<close>

definition block :: "nat \<Rightarrow> nat \<Rightarrow> nat set" where
  "block k p = {p..<p + 2 ^ k}"

definition owned :: "(nat \<Rightarrow> Loc option) \<Rightarrow> nat set" where
  "owned own = {x. \<exists>p l. own p = Some l \<and> x \<in> block (loc_order l) p}"

text \<open>\<open>geo T own U\<close>: the blocks of the owner map are aligned, below \<open>T\<close>, pairwise disjoint and
  disjoint from \<open>U\<close>.\<close>

definition geo :: "nat \<Rightarrow> (nat \<Rightarrow> Loc option) \<Rightarrow> nat set \<Rightarrow> bool" where
  "geo T own U \<longleftrightarrow>
     (\<forall>p l. own p = Some l \<longrightarrow> 2 ^ loc_order l dvd p \<and> p + 2 ^ loc_order l \<le> T)
   \<and> (\<forall>p l q l'. own p = Some l \<longrightarrow> own q = Some l' \<longrightarrow> p \<noteq> q \<longrightarrow>
        block (loc_order l) p \<inter> block (loc_order l') q = {})
   \<and> owned own \<inter> U = {}"

lemma block_self [simp]: "p \<in> block k p"
  by (simp add: block_def)

lemma block_bound: "p + 2 ^ k \<le> T \<Longrightarrow> p < (T :: nat)"
  using zero_less_power [of "2 :: nat" k] by linarith

lemma block_subset_owned: "own p = Some l \<Longrightarrow> block (loc_order l) p \<subseteq> owned own"
  by (auto simp: owned_def)

lemma owned_self: "own p = Some l \<Longrightarrow> p \<in> owned own"
  using block_subset_owned [of own p l] by auto

lemma not_owned: "p \<notin> owned own \<Longrightarrow> own p = None"
  using owned_self by (cases "own p") auto

lemma block_disjoint_own: "block k p \<inter> (owned own \<union> U) = {} \<Longrightarrow> own p = None"
  using block_self [of p k] not_owned [of p own] by blast

lemma geoD:
  assumes "geo T own U"
  shows "own p = Some l \<Longrightarrow> 2 ^ loc_order l dvd p" "own p = Some l \<Longrightarrow> p + 2 ^ loc_order l \<le> T"
    "own p = Some l \<Longrightarrow> own q = Some l' \<Longrightarrow> p \<noteq> q \<Longrightarrow> block (loc_order l) p \<inter> block (loc_order l') q = {}"
    "owned own \<inter> U = {}"
  using assms unfolding geo_def by blast+

lemma geo_insert:
  assumes "geo T own U" "block (loc_order l) p \<inter> owned own = {}" "block (loc_order l) p \<inter> U = {}"
    "2 ^ loc_order l dvd p" "p + 2 ^ loc_order l \<le> T"
  shows "owned (own(p \<mapsto> l)) = owned own \<union> block (loc_order l) p" "geo T (own(p \<mapsto> l)) U"
proof -
  have p: "own p = None"
    using assms(2) block_self [of p "loc_order l"] by (intro not_owned) blast
  show ow: "owned (own(p \<mapsto> l)) = owned own \<union> block (loc_order l) p"
    using p unfolding owned_def by (auto split: if_splits) (metis option.distinct(1))
  have dj: "block (loc_order l) p \<inter> block (loc_order l') q = {}" if "own q = Some l'" for q l'
    using block_subset_owned [of own q l', OF that] assms(2) by blast
  show "geo T (own(p \<mapsto> l)) U"
    unfolding geo_def
  proof (intro conjI allI impI)
    fix a la b lb
    assume ab: "(own(p \<mapsto> l)) a = Some la" "(own(p \<mapsto> l)) b = Some lb" "a \<noteq> b"
    then show "block (loc_order la) a \<inter> block (loc_order lb) b = {}"
      using dj [of a la] dj [of b lb] geoD(3) [OF assms(1), of a la b lb]
      by (cases "a = p"; cases "b = p") auto
  next
    show "owned (own(p \<mapsto> l)) \<inter> U = {}"
      using ow geoD(4) [OF assms(1)] assms(3) by blast
  qed (use geoD(1,2) [OF assms(1)] assms(4,5) in \<open>auto split: if_splits\<close>)
qed

lemma geo_remove:
  assumes "geo T own U" "own p = Some l"
  shows "owned (own(p := None)) = owned own - block (loc_order l) p" "geo T (own(p := None)) U"
proof -
  show ow: "owned (own(p := None)) = owned own - block (loc_order l) p"
  proof (intro set_eqI iffI)
    fix x
    assume "x \<in> owned (own(p := None))"
    then obtain q l' where "q \<noteq> p" "own q = Some l'" "x \<in> block (loc_order l') q"
      by (auto simp: owned_def split: if_splits)
    then show "x \<in> owned own - block (loc_order l) p"
      using geoD(3) [OF assms(1), of q l' p l] assms(2) block_subset_owned [of own q l'] by blast
  next
    fix x
    assume "x \<in> owned own - block (loc_order l) p"
    then obtain q l' where "own q = Some l'" "x \<in> block (loc_order l') q" "x \<notin> block (loc_order l) p"
      by (auto simp: owned_def)
    then have "(own(p := None)) q = Some l'"
      using assms(2) by auto
    then show "x \<in> owned (own(p := None))"
      using \<open>x \<in> block (loc_order l') q\<close> unfolding owned_def by blast
  qed
  show "geo T (own(p := None)) U"
    unfolding geo_def
  proof (intro conjI allI impI)
    fix a la b lb
    assume "(own(p := None)) a = Some la" "(own(p := None)) b = Some lb" "a \<noteq> b"
    then show "block (loc_order la) a \<inter> block (loc_order lb) b = {}"
      using geoD(3) [OF assms(1), of a la b lb] by (auto split: if_splits)
  next
    show "owned (own(p := None)) \<inter> U = {}"
      using ow geoD(4) [OF assms(1)] by blast
  qed (use geoD(1,2) [OF assms(1)] in \<open>auto split: if_splits\<close>)
qed

lemma geo_shrink: "geo T own U \<Longrightarrow> V \<subseteq> U \<Longrightarrow> geo T own V"
  unfolding geo_def by blast

subsection \<open>The allocator invariant\<close>

definition pinv :: "LazyBuddyAllocator \<Rightarrow> (nat \<Rightarrow> Loc option) \<Rightarrow> nat set \<Rightarrow> bool" where
  "pinv s own U \<longleftrightarrow> links s own \<and> geo (total_frames s) own U \<and> (\<forall>p < total_frames s. fr s p \<noteq> None)"

text \<open>The three outcomes of an operation: it takes a block out of the free blocks, it adds the
  frames \<open>X\<close> to them, or it only rearranges them.\<close>

definition took ::
  "LazyBuddyAllocator \<Rightarrow> (nat \<Rightarrow> Loc option) \<Rightarrow> nat set \<Rightarrow> LazyBuddyAllocator \<Rightarrow> (nat \<Rightarrow> Loc option)
    \<Rightarrow> nat \<Rightarrow> nat \<Rightarrow> bool" where
  "took s own U s' own' k p \<longleftrightarrow> pinv s' own' U \<and> step s s' (owned own) \<and> 2 ^ k dvd p
     \<and> block k p \<subseteq> owned own \<and> owned own' = owned own - block k p
     \<and> (\<exists>f. fr s' p = Some f \<and> bf_order f = k)"

definition gave ::
  "LazyBuddyAllocator \<Rightarrow> (nat \<Rightarrow> Loc option) \<Rightarrow> nat set \<Rightarrow> LazyBuddyAllocator \<Rightarrow> (nat \<Rightarrow> Loc option)
    \<Rightarrow> nat set \<Rightarrow> bool" where
  "gave s own U s' own' X \<longleftrightarrow> pinv s' own' U \<and> step s s' (owned own \<union> X) \<and> owned own' = owned own \<union> X"

lemma step_total: "step s s' P \<Longrightarrow> total_frames s' = total_frames s"
  by (simp add: step_def same_geo_def)

lemma step_regions: "step s s' P \<Longrightarrow> regions s' = regions s"
  by (simp add: step_def same_geo_def)

lemma pinv_step:
  assumes "pinv s own U" "links s' own'" "step s s' P" "geo (total_frames s) own' U"
  shows "pinv s' own' U"
  using assms step_total [OF assms(3)] step_fr [OF assms(3)] by (simp add: pinv_def)

lemma pinvD:
  assumes "pinv s own U"
  shows "links s own" "geo (total_frames s) own U" "p < total_frames s \<Longrightarrow> fr s p \<noteq> None"
  using assms by (auto simp: pinv_def)

lemma gave_insert:
  assumes "pinv s own U" "links s' (own(p \<mapsto> l))" "step s s' {p}"
    "block (loc_order l) p \<inter> (owned own \<union> U) = {}" "2 ^ loc_order l dvd p"
    "p + 2 ^ loc_order l \<le> total_frames s"
  shows "gave s own U s' (own(p \<mapsto> l)) (block (loc_order l) p)"
proof -
  have g: "owned (own(p \<mapsto> l)) = owned own \<union> block (loc_order l) p"
    "geo (total_frames s) (own(p \<mapsto> l)) U"
    using geo_insert [OF pinvD(2) [OF assms(1)], of l p] assms(4-6) by blast+
  then show ?thesis
    using pinv_step [OF assms(1,2,3)] step_mono [OF assms(3)] by (auto simp: gave_def)
qed

lemma took_remove:
  assumes "pinv s own U" "own p = Some l" "links s' (own(p := None))" "step s s' {p}"
    "fr s' p = Some f" "bf_order f = loc_order l"
  shows "took s own U s' (own(p := None)) (loc_order l) p"
proof -
  note g = geo_remove [OF pinvD(2) [OF assms(1)] assms(2)]
  show ?thesis
    using g pinv_step [OF assms(1,3,4)] step_mono [OF assms(4)] owned_self [of own p l, OF assms(2)]
      block_subset_owned [of own p l, OF assms(2)] geoD(1) [OF pinvD(2) [OF assms(1)] assms(2)] assms(5,6)
    by (auto simp: took_def)
qed

subsection \<open>Buddies\<close>

lemma buddy_eq:
  fixes m :: nat
  shows "(2 ^ k * m) XOR 2 ^ k = 2 ^ k * (if even m then m + 1 else m - 1)"
proof -
  have "(2 ^ k * m) XOR 2 ^ k = push_bit k m XOR push_bit k 1"
    by (simp add: push_bit_eq_mult mult.commute)
  also have "\<dots> = push_bit k (m XOR 1)"
    by (simp only: push_bit_xor)
  also have "m XOR 1 = (if even m then m + 1 else m - 1)"
    using xor_Suc_0_eq [of m] by simp
  finally show ?thesis
    by (simp add: push_bit_eq_mult mult.commute)
qed

lemma block_halves:
  "block (Suc k) c = block k c \<union> block k (c + 2 ^ k)" "block k c \<inter> block k (c + 2 ^ k) = {}"
  by (auto simp: block_def)

lemma buddy_cases:
  fixes p :: nat
  assumes "2 ^ k dvd p"
  obtains "2 ^ Suc k dvd p" "p XOR push_bit k 1 = p + 2 ^ k"
    | c where "2 ^ Suc k dvd c" "p = c + 2 ^ k" "p XOR push_bit k 1 = c"
proof -
  obtain m where p: "p = 2 ^ k * m"
    using assms by (rule dvdE)
  have x: "p XOR push_bit k 1 = 2 ^ k * (if even m then m + 1 else m - 1)"
    unfolding p using buddy_eq [of k m] by simp
  show thesis
  proof (cases "even m")
    case True
    then show thesis
      using that(1) p x by simp
  next
    case False
    then obtain n where "m = 2 * n + 1"
      by (rule oddE)
    then show thesis
      using that(2) [of "2 ^ Suc k * n"] p x by (simp add: algebra_simps)
  qed
qed

lemma buddy_props:
  assumes "2 ^ k dvd (p :: nat)" "b = p XOR push_bit k 1"
  shows "2 ^ k dvd b \<and> 2 ^ Suc k dvd (if b < p then b else p)
    \<and> block (Suc k) (if b < p then b else p) = block k p \<union> block k b
    \<and> block k p \<inter> block k b = {} \<and> (if b < p then b else p) + 2 ^ Suc k = max p b + 2 ^ k"
proof (rule buddy_cases [OF assms(1)])
  assume b: "2 ^ Suc k dvd p" "p XOR push_bit k 1 = p + 2 ^ k"
  show ?thesis
    unfolding assms(2) b(2) using b(1) assms(1) block_halves [of k p] by simp
next
  fix c
  assume c: "2 ^ Suc k dvd c" "p = c + 2 ^ k" "p XOR push_bit k 1 = c"
  have "2 ^ k dvd c"
    using c(1) by (rule power_le_dvd) simp
  moreover have "b = c"
    using assms(2) c(3) by simp
  ultimately show ?thesis
    unfolding c(2) using c(1) block_halves [of k c] by (simp add: Un_commute Int_commute)
qed

lemma state_FreeGlobal:
  assumes "links s own" "fr s p = Some f" "bf_state f = FreeGlobal" "bf_order f = k"
  shows "own p = Some (Glob k)"
  using linksD(4) [OF assms(1,2)] assms(3,4)
  by (auto simp: fields_ok_def state_of_def split: option.splits Loc.splits)

lemma push_global_gave:
  assumes "pinv s own U" "block k p \<inter> (owned own \<union> U) = {}" "2 ^ k dvd p"
    "p + 2 ^ k \<le> total_frames s" "k < MAX_ORDER"
  obtains s' where "push_to_global p k s = Some s'" "gave s own U s' (own(p \<mapsto> Glob k)) (block k p)"
proof -
  have p: "fr s p \<noteq> None" "own p = None"
    using pinvD(3) [OF assms(1) block_bound [OF assms(4)]] block_disjoint_own [OF assms(2)] by simp_all
  show thesis
  proof (rule push_to_global_links [OF pinvD(1) [OF assms(1)] p(2,1) assms(5)])
    fix s'
    assume "push_to_global p k s = Some s'" "links s' (own(p \<mapsto> Glob k))" "step s s' {p}"
    then show thesis
      using gave_insert [OF assms(1), of s' p "Glob k"] assms(2-4) by (intro that) simp_all
  qed
qed

lemma unlink_took:
  assumes "pinv s own U" "own p = Some (Glob k)"
  obtains s1 s2 where "remove_from_list_with_list p k (shard_for_pfn p) s = Some s1"
    "upd_frame p mark_allocated s1 = Some s2" "took s own U s2 (own(p := None)) k p"
proof (rule unlink_global [OF pinvD(1) [OF assms(1)] assms(2)])
  fix s1 s2 f
  assume a: "remove_from_list_with_list p k (shard_for_pfn p) s = Some s1"
    "upd_frame p mark_allocated s1 = Some s2" "links s2 (own(p := None))" "step s s2 {p}"
    "fr s2 p = Some f" "bf_order f = k"
  show thesis
    using took_remove [OF assms a(3-5)] a(6) by (intro that [OF a(1,2)]) simp
qed

lemma tookD:
  assumes "took s own U s' own' k p"
  shows "pinv s' own' U" "step s s' (owned own)" "2 ^ k dvd p" "block k p \<subseteq> owned own"
    "owned own' = owned own - block k p" "total_frames s' = total_frames s"
  using assms step_total by (auto simp: took_def)

lemma gaveD:
  assumes "gave s own U s' own' X"
  shows "pinv s' own' U" "step s s' (owned own \<union> X)" "owned own' = owned own \<union> X"
    "total_frames s' = total_frames s"
  using assms step_total by (auto simp: gave_def)

lemma owned_bound: "geo T own U \<Longrightarrow> x \<in> owned own \<Longrightarrow> x < T"
  unfolding owned_def block_def using geoD(2) by fastforce

lemma owned_block_bound:
  assumes "geo T own U" "block k p \<subseteq> owned own"
  shows "p + 2 ^ k \<le> T"
proof -
  have pos: "0 < (2 :: nat) ^ k"
    by simp
  then have "p \<le> p + 2 ^ k - 1 \<and> p + 2 ^ k - 1 < p + 2 ^ k"
    by linarith
  then have "p + 2 ^ k - 1 \<in> block k p"
    by (simp only: block_def atLeastLessThan_iff)
  then have "p + 2 ^ k - 1 < T"
    using owned_bound [OF assms(1)] assms(2) by blast
  with pos show ?thesis
    by linarith
qed

lemma pinv_count: "pinv s own U \<Longrightarrow> pinv (count_list_op s) own U"
  by (rule pinv_step [of s own U _ own "{}"]) (auto simp: pinv_def intro: links_cong step_same)

lemma step_count: "step (count_list_op s) s' P \<Longrightarrow> step s s' P"
  by (auto simp: step_def same_geo_def count_list_op_def)

lemma gave_count: "gave (count_list_op s) own U s' own' X \<Longrightarrow> gave s own U s' own' X"
  using step_count by (simp add: gave_def)

definition cpu_sub :: "(nat \<Rightarrow> Loc option) \<Rightarrow> (nat \<Rightarrow> Loc option) \<Rightarrow> bool" where
  "cpu_sub own' own \<longleftrightarrow> (\<forall>q c k. own' q = Some (Cpu c k) \<longrightarrow> own q = Some (Cpu c k))"

text \<open>Freeing a block returns without a fault and adds exactly its frames to the free blocks,
  whatever merging happens on the way.\<close>

lemma free_and_merge_gave:
  assumes "pinv s own U" "block k p \<inter> (owned own \<union> U) = {}" "2 ^ k dvd p"
    "p + 2 ^ k \<le> total_frames s" "k < MAX_ORDER"
  shows "\<exists>s' own'. free_and_merge p k s = Some s' \<and> gave s own U s' own' (block k p) \<and> cpu_sub own' own"
  using assms
proof (induction p k s arbitrary: own rule: free_and_merge.induct)
  case (1 p k s)
  let ?b = "p XOR push_bit k 1" and ?s = "count_list_op s"
  note inv = pinv_count [OF "1.prems"(1)]
  have stop: ?case if "free_and_merge p k s = push_to_global p k t" "t = s \<or> t = ?s" for t
  proof -
    have "pinv t own U" "p + 2 ^ k \<le> total_frames t"
      using that(2) "1.prems"(1,4) inv by (auto simp: count_list_op_def)
    then obtain s' where s': "push_to_global p k t = Some s'" "gave t own U s' (own(p \<mapsto> Glob k)) (block k p)"
      using push_global_gave [OF _ "1.prems"(2,3) _ "1.prems"(5), of t] by blast
    then have "gave s own U s' (own(p \<mapsto> Glob k)) (block k p)"
      using that(2) gave_count by blast
    moreover have "cpu_sub (own(p \<mapsto> Glob k)) own"
      by (simp add: cpu_sub_def)
    ultimately show ?case
      using that(1) s'(1) by auto
  qed
  show ?case
  proof (cases "k < MAX_ORDER - 1 \<and> ?b < total_frames s")
    case False
    then show ?thesis
      by (intro stop [of s]) (subst free_and_merge.simps, auto)
  next
    case k: True
    have "fr ?s ?b \<noteq> None"
      using pinvD(3) [OF "1.prems"(1)] k by simp
    then obtain buddy where buddy: "fr ?s ?b = Some buddy"
      by blast
    show ?thesis
    proof (cases "bf_state buddy \<noteq> FreeGlobal \<or> bf_order buddy \<noteq> k")
      case True
      then show ?thesis
        using k buddy by (intro stop [of ?s]) (subst free_and_merge.simps, auto)
    next
      case False
      have ob: "own ?b = Some (Glob k)"
        using state_FreeGlobal [OF pinvD(1) [OF inv] buddy] False by simp
      obtain s1 s2 where s2: "remove_from_list_with_list ?b k (shard_for_pfn ?b) ?s = Some s1"
        "upd_frame ?b mark_allocated s1 = Some s2" "took ?s own U s2 (own(?b := None)) k ?b"
        using unlink_took [OF inv ob] by blast
      note t = tookD [OF s2(3)]
      let ?m = "if ?b < p then ?b else p"
      note bp = buddy_props [OF "1.prems"(3) refl]
      have dj: "block k ?b \<subseteq> owned own" "owned own \<inter> U = {}"
        using t(4) geoD(4) [OF pinvD(2) [OF inv]] by auto
      have dm: "block (k + 1) ?m \<inter> (owned (own(?b := None)) \<union> U) = {}"
        using bp dj t(5) "1.prems"(2) unfolding Suc_eq_plus1 by blast
      have Tm: "?m + 2 ^ (k + 1) \<le> total_frames s2"
      proof -
        have "?m + 2 ^ (k + 1) = max p ?b + 2 ^ k"
          using bp unfolding Suc_eq_plus1 by blast
        moreover have "p + 2 ^ k \<le> total_frames s2" "?b + 2 ^ k \<le> total_frames s2"
          using geoD(2) [OF pinvD(2) [OF inv] ob] "1.prems"(4) t(6) by (simp_all add: count_list_op_def)
        ultimately show ?thesis
          by (simp only: max_def simp_thms split: if_splits)
      qed
      have am: "2 ^ (k + 1) dvd ?m"
        using bp unfolding Suc_eq_plus1 by blast
      have c: "\<not> \<not> k < MAX_ORDER - 1" "\<not> total_frames s \<le> ?b" "get_frame ?b ?s = Some buddy" "k + 1 < MAX_ORDER"
        using k buddy by (simp, simp only: not_le, simp, linarith)
      obtain s' own' where s': "free_and_merge ?m (k + 1) s2 = Some s'"
        "gave s2 (own(?b := None)) U s' own' (block (k + 1) ?m)" "cpu_sub own' (own(?b := None))"
        using "1.IH" [OF c(1) refl c(2) refl refl c(3) False s2(1,2) t(1) dm am Tm c(4)] by blast
      have "free_and_merge p k s = Some s'"
        using k buddy False s2(1,2) s'(1)
        by (subst free_and_merge.simps) (auto simp: Let_def cong: if_cong)
      moreover have "gave s own U s' own' (block k p)"
      proof (rule gave_count)
        have m: "block (k + 1) ?m = block k p \<union> block k ?b"
          using bp by simp
        have "owned own' = owned own \<union> block k p"
          using gaveD(3) [OF s'(2)] t(4,5) m by blast
        moreover have "step ?s s' (owned own \<union> block k p)"
          using t(4,5) m by (intro step_trans [OF t(2) gaveD(2) [OF s'(2)]]) blast
        ultimately show "gave ?s own U s' own' (block k p)"
          using gaveD(1) [OF s'(2)] by (simp add: gave_def)
      qed
      moreover have "cpu_sub own' own"
        using s'(3) by (auto simp: cpu_sub_def split: if_splits)
      ultimately show ?thesis
        by blast
    qed
  qed
qed

subsection \<open>Splitting\<close>

lemma carve_simps [simp]: "bf_state (carve k f) = Allocated" "bf_order (carve k f) = k"
  by (simp_all add: carve_def)

text \<open>Writing the order of a frame that heads no free block.\<close>

lemma carve_ok:
  assumes "pinv s own U" "own p = None" "p < total_frames s"
  obtains s' f where "upd_frame p (carve k) s = Some s'" "pinv s' own U" "step s s' {p}"
    "fr s' p = Some f" "bf_order f = k"
proof -
  obtain f where f: "fr s p = Some f"
    using pinvD(3) [OF assms(1,3)] by auto
  obtain s' where s': "upd_frame p (carve k) s = Some s'" "fr s' = (fr s)(p \<mapsto> carve k f)" "same_geo s s'"
    "free_heads s' = free_heads s" "pc_heads s' = pc_heads s" "reserve_head s' = reserve_head s"
    using upd_frame_ex [OF f, of "carve k"] by blast
  have st: "step s s' {p}"
    by (rule step_upd [OF f s'(2,3)])
  have "links s' own"
    by (rule links_upd_free [OF pinvD(1) [OF assms(1)] assms(2) s'(2)]) (use s' in simp_all)
  then have "pinv s' own U"
    using pinv_step [OF assms(1) _ st] pinvD(2) [OF assms(1)] by blast
  then show thesis
    using that [OF s'(1) _ st] s'(2) by simp
qed

lemma split_block_gave:
  assumes "pinv s own U" "block h p \<inter> (owned own \<union> U) = {}" "2 ^ h dvd p" "p + 2 ^ h \<le> total_frames s"
    "k \<le> h" "h < MAX_ORDER"
  shows "\<exists>s' own'. split_block p (rev [k..<h]) s = Some s' \<and> gave s own U s' own' (block h p - block k p)"
  using assms(5,1-4,6)
proof (induction h arbitrary: s own rule: dec_induct)
  case base
  then show ?case
    by (auto simp: gave_def step_refl)
next
  case (step h)
  let ?b = "p + 2 ^ h"
  have bh: "block (Suc h) p = block h p \<union> block h ?b" "block h p \<inter> block h ?b = {}"
    using block_halves [of h p] by auto
  have T: "?b + 2 ^ h \<le> total_frames s"
    using step.prems(4) by simp
  have bt: "?b < total_frames s"
    by (rule block_bound [OF T])
  have dj: "block h ?b \<inter> (owned own \<union> U) = {}"
    using step.prems(2) bh(1) by blast
  obtain s1 f where s1: "upd_frame ?b (carve h) s = Some s1" "pinv s1 own U" "step s s1 {?b}"
    "fr s1 ?b = Some f" "bf_order f = h"
    using carve_ok [OF step.prems(1) block_disjoint_own [OF dj] bt] by blast
  note T1 = step_total [OF s1(3)]
  have "2 ^ h dvd p"
    using step.prems(3) by (rule power_le_dvd) simp
  then have al: "2 ^ h dvd ?b" "2 ^ h dvd p"
    by simp_all
  obtain s2 where s2: "push_to_global ?b h s1 = Some s2" "gave s1 own U s2 (own(?b \<mapsto> Glob h)) (block h ?b)"
    using push_global_gave [OF s1(2) dj al(1)] T T1 step.prems(5) by (metis Suc_lessD)
  note g2 = gaveD [OF s2(2)]
  have "\<exists>s' own'. split_block p (rev [k..<h]) s2 = Some s'
      \<and> gave s2 (own(?b \<mapsto> Glob h)) U s' own' (block h p - block k p)"
  proof (rule step.IH [OF g2(1) _ al(2)])
    show "block h p \<inter> (owned (own(?b \<mapsto> Glob h)) \<union> U) = {}"
      using g2(3) bh step.prems(2) by blast
    show "p + 2 ^ h \<le> total_frames s2"
      using T T1 g2(4) by simp
    show "h < MAX_ORDER"
      using step.prems(5) by simp
  qed
  then obtain s' own' where s': "split_block p (rev [k..<h]) s2 = Some s'"
    "gave s2 (own(?b \<mapsto> Glob h)) U s' own' (block h p - block k p)"
    by blast
  note g3 = gaveD [OF s'(2)]
  have kh: "block k p \<subseteq> block h p"
    using step.hyps power_increasing [of k h "2 :: nat"] by (auto simp: block_def)
  have ow: "owned own' = owned own \<union> (block (Suc h) p - block k p)"
    using g3(3) g2(3) bh kh by blast
  have st2: "step s s2 (owned own \<union> block h ?b)"
    using block_self [of ?b h] by (intro step_trans [OF s1(3) g2(2)]) blast
  have "step s s' (owned own \<union> (block (Suc h) p - block k p))"
    using g2(3) bh kh by (intro step_trans [OF st2 g3(2)]) blast
  then have "gave s own U s' own' (block (Suc h) p - block k p)"
    using g3(1) ow by (simp add: gave_def)
  moreover have "split_block p (rev [k..<Suc h]) s = Some s'"
    using step.hyps s1(1) s2(1) s'(1) by simp
  ultimately show ?case
    by blast
qed

subsection \<open>Allocation from the lists\<close>

definition alloc_spec ::
  "nat \<Rightarrow> LazyBuddyAllocator \<Rightarrow> (nat \<Rightarrow> Loc option) \<Rightarrow> nat set \<Rightarrow> nat option \<Rightarrow> LazyBuddyAllocator \<Rightarrow> bool" where
  "alloc_spec k s own U r s' \<longleftrightarrow>
    (case r of None \<Rightarrow> pinv s' own U \<and> step s s' (owned own)
             | Some p \<Rightarrow> \<exists>own'. took s own U s' own' k p)"

lemma bump_simps [simp]:
  "fr (bump f s) = fr s" "free_heads (bump f s) = free_heads s" "pc_heads (bump f s) = pc_heads s"
  "pc_counts (bump f s) = pc_counts s"
  "reserve_head (bump f s) = reserve_head s" "reserve_count (bump f s) = reserve_count s"
  "total_frames (bump f s) = total_frames s" "regions (bump f s) = regions s"
  "last_uninit_idx (bump f s) = last_uninit_idx s"
  by (simp_all add: bump_def)

lemma same_geo_bump [simp]: "same_geo (bump f s) s' = same_geo s s'" "same_geo s (bump f s') = same_geo s s'"
  by (simp_all add: same_geo_def)

lemma step_bump [simp]: "step (bump f s) s' P = step s s' P" "step s (bump f s') P = step s s' P"
  by (simp_all add: step_def)

lemma links_bump [simp]: "links (bump f s) own = links s own"
  by (simp add: links_def glist_def clist_def rlist_def)

lemma pinv_bump [simp]: "pinv (bump f s) own U = pinv s own U"
  by (simp add: pinv_def)

lemma took_bump [simp]:
  "took (bump f s) own U s' own' k p = took s own U s' own' k p"
  "took s own U (bump f s') own' k p = took s own U s' own' k p"
  by (simp_all add: took_def)

lemma gave_bump [simp]:
  "gave (bump f s) own U s' own' X = gave s own U s' own' X"
  "gave s own U (bump f s') own' X = gave s own U s' own' X"
  by (simp_all add: gave_def)

lemma alloc_spec_bump [simp]:
  "alloc_spec k (bump f s) own U r s' = alloc_spec k s own U r s'"
  "alloc_spec k s own U r (bump f s') = alloc_spec k s own U r s'"
  by (simp_all add: alloc_spec_def split: option.split)

lemma alloc_spec_trans:
  assumes "step s s1 (owned own)" "alloc_spec k s1 own U r s'"
  shows "alloc_spec k s own U r s'"
  using assms step_trans [OF assms(1)] by (auto simp: alloc_spec_def took_def split: option.splits)

lemma pop_from_global_alloc:
  assumes "pinv s own U" "k < MAX_ORDER"
  shows "\<exists>r s'. pop_from_global k cpu s = Some (r, s') \<and> alloc_spec k s own U r s'"
proof (rule pop_from_global_links [OF pinvD(1) [OF assms(1)] assms(2), of cpu])
  fix s'
  assume a: "pop_from_global k cpu s = Some (None, s')" "links s' own" "step s s' {}"
  then have "pinv s' own U"
    using pinv_step [OF assms(1)] pinvD(2) [OF assms(1)] by blast
  then show ?thesis
    using a step_mono [OF a(3)] by (auto simp: alloc_spec_def)
next
  fix p s' f
  assume a: "pop_from_global k cpu s = Some (Some p, s')" "own p = Some (Glob k)"
    "links s' (own(p := None))" "step s s' {p}" "fr s' p = Some f" "bf_order f = k"
  have "took s own U s' (own(p := None)) k p"
    using took_remove [OF assms(1) a(2-5)] a(6) by simp
  then show ?thesis
    using a(1) by (auto simp: alloc_spec_def)
qed

text \<open>A larger block popped from its list, split down to the order asked for.\<close>

lemma split_took:
  assumes "took s own U s1 own1 h p" "pinv s own U" "k < h" "h < MAX_ORDER"
  shows "\<exists>s2 s3 own3. split_block p (rev [k..<h]) s1 = Some s2 \<and> upd_frame p (carve k) s2 = Some s3
    \<and> took s own U s3 own3 k p"
proof -
  note t = tookD [OF assms(1)]
  have oU: "owned own \<inter> U = {}"
    using geoD(4) [OF pinvD(2) [OF assms(2)]] .
  have dj: "block h p \<inter> (owned own1 \<union> U) = {}"
    using t(4,5) oU by blast
  have T: "p + 2 ^ h \<le> total_frames s1"
    using owned_block_bound [OF pinvD(2) [OF assms(2)] t(4)] t(6) by simp
  obtain s2 own2 where s2: "split_block p (rev [k..<h]) s1 = Some s2"
    "gave s1 own1 U s2 own2 (block h p - block k p)"
    using split_block_gave [OF t(1) dj t(3) T _ assms(4), of k] assms(3) by auto
  note g = gaveD [OF s2(2)]
  have kh: "block k p \<subseteq> block h p"
    using assms(3) power_increasing [of k h "2 :: nat"] by (auto simp: block_def)
  have "p \<notin> owned own2"
    using g(3) t(5) block_self [of p k] kh by blast
  then have "own2 p = None"
    by (rule not_owned)
  moreover have "p < total_frames s2"
    using block_bound [OF T] g(4) by simp
  ultimately obtain s3 f where s3: "upd_frame p (carve k) s2 = Some s3" "pinv s3 own2 U" "step s2 s3 {p}"
    "fr s3 p = Some f" "bf_order f = k"
    using carve_ok [OF g(1)] by blast
  have "step s s2 (owned own)"
    using t(4,5) by (intro step_trans [OF t(2) g(2)]) blast
  then have "step s s3 (owned own)"
    by (rule step_trans [OF _ s3(3)]) (use t(4) block_self [of p h] in blast)
  moreover have "2 ^ k dvd p"
    using t(3) by (rule power_le_dvd) (use assms(3) in simp)
  ultimately have "took s own U s3 own2 k p"
    using s3 g(3) t(4,5) kh unfolding took_def by blast
  then show ?thesis
    using s2(1) s3(1) by blast
qed

lemma alloc_higher_spec:
  assumes "pinv s own U" "\<forall>h \<in> set hs. k < h \<and> h < MAX_ORDER"
  shows "\<exists>r s'. alloc_higher k cpu hs s = Some (r, s') \<and> alloc_spec k s own U r s'"
  using assms
proof (induction hs arbitrary: s)
  case Nil
  then show ?case
    by (simp add: alloc_spec_def step_refl)
next
  case (Cons h hs)
  obtain r s1 where p: "pop_from_global h cpu s = Some (r, s1)" "alloc_spec h s own U r s1"
    using pop_from_global_alloc [OF Cons.prems(1), of h cpu] Cons.prems(2) by auto
  show ?case
  proof (cases r)
    case None
    then have s1: "pinv s1 own U" "step s s1 (owned own)"
      using p(2) by (simp_all add: alloc_spec_def)
    then show ?thesis
      using Cons.IH [OF s1(1)] Cons.prems(2) p(1) None alloc_spec_trans [OF s1(2)] by fastforce
  next
    case (Some idx)
    let ?f = "\<lambda>c. c\<lparr>alloc_hit_global := alloc_hit_global c + 1\<rparr>"
    obtain own1 where "took s own U (bump ?f s1) own1 h idx"
      using p(2) Some by (auto simp: alloc_spec_def)
    then obtain s2 s3 own3 where "split_block idx (rev [k..<h]) (bump ?f s1) = Some s2"
      "upd_frame idx (carve k) s2 = Some s3" "took s own U s3 own3 k idx"
      using split_took [of s own U "bump ?f s1" own1 h idx k] Cons.prems by auto
    then show ?thesis
      using p(1) Some by (auto simp: alloc_spec_def)
  qed
qed

lemma alloc_from_list_spec:
  assumes "pinv s own U" "k < MAX_ORDER"
  shows "\<exists>r s'. alloc_from_list k cpu s = Some (r, s') \<and> alloc_spec k s own U r s'"
proof -
  obtain r s1 where p: "pop_from_global k cpu s = Some (r, s1)" "alloc_spec k s own U r s1"
    using pop_from_global_alloc [OF assms, of cpu] by auto
  show ?thesis
  proof (cases r)
    case None
    then have s1: "pinv s1 own U" "step s s1 (owned own)"
      using p(2) by (simp_all add: alloc_spec_def)
    obtain r' s' where "alloc_higher k cpu [k + 1..<MAX_ORDER] s1 = Some (r', s')" "alloc_spec k s1 own U r' s'"
      using alloc_higher_spec [OF s1(1), of "[k + 1..<MAX_ORDER]" k cpu] by auto
    then show ?thesis
      using p(1) None alloc_spec_trans [OF s1(2)] by (simp add: alloc_from_list_def)
  next
    case (Some idx)
    then show ?thesis
      using p by (simp add: alloc_from_list_def)
  qed
qed

subsection \<open>Freeing an alignment gap\<close>

lemma floor_log2_le: "0 < n \<Longrightarrow> 2 ^ floor_log2 n \<le> n"
proof (induction n rule: floor_log2.induct)
  case (1 n)
  show ?case
  proof (cases "n < 2")
    case True
    then show ?thesis
      using "1.prems" by (simp add: floor_log2.simps)
  next
    case False
    then have "2 ^ floor_log2 (n div 2) \<le> n div 2"
      using "1.IH" by simp
    then have "2 * 2 ^ floor_log2 (n div 2) \<le> n"
      by simp
    then show ?thesis
      using False by (subst floor_log2.simps) simp
  qed
qed

lemma trailing_zeros_dvd: "0 < n \<Longrightarrow> 2 ^ trailing_zeros n dvd n"
proof (induction n rule: trailing_zeros.induct)
  case (1 n)
  show ?case
  proof (cases "odd n")
    case True
    then show ?thesis
      by (subst trailing_zeros.simps) simp
  next
    case False
    then obtain m where m: "n = 2 * m"
      by blast
    then show ?thesis
      using "1.IH" "1.prems" by (subst trailing_zeros.simps) simp
  qed
qed

lemma gap_order_props:
  assumes "c < a"
  shows "2 ^ gap_order c a \<le> a - c" "2 ^ gap_order c a dvd c" "gap_order c a < MAX_ORDER"
proof -
  have le: "gap_order c a \<le> floor_log2 (a - c)" "gap_order c a \<le> trailing_zeros c"
    by (simp_all add: gap_order_def)
  show "2 ^ gap_order c a \<le> a - c"
    by (rule order_trans [OF power_increasing [OF le(1)] floor_log2_le]) (use assms in simp_all)
  show "2 ^ gap_order c a dvd c"
    using le(2) trailing_zeros_dvd [of c] by (cases "c = 0") (auto intro: power_le_dvd)
  show "gap_order c a < MAX_ORDER"
    by (simp add: gap_order_def MAX_ORDER_def)
qed

lemma free_gap_gave:
  assumes "pinv s own U" "{c..<a} \<inter> (owned own \<union> U) = {}" "a \<le> total_frames s"
  shows "\<exists>s' own'. free_gap c a s = Some s' \<and> gave s own U s' own' {c..<a}"
  using assms
proof (induction c a s arbitrary: own rule: free_gap.induct)
  case (1 c a s)
  show ?case
  proof (cases "c < a")
    case False
    then have "free_gap c a s = Some s" "{c..<a} = {}"
      by (simp_all add: free_gap.simps)
    then show ?thesis
      using "1.prems"(1) by (auto simp: gave_def step_refl)
  next
    case True
    let ?g = "gap_order c a"
    note g = gap_order_props [OF True]
    have le: "c + 2 ^ ?g \<le> a"
      using g(1) True by linarith
    have blk: "{c..<a} = block ?g c \<union> {c + 2 ^ ?g..<a}" "block ?g c \<inter> {c + 2 ^ ?g..<a} = {}"
      using le by (auto simp: block_def)
    have dj: "block ?g c \<inter> (owned own \<union> U) = {}"
      using "1.prems"(2) blk(1) by blast
    have ct: "c < total_frames s" "c + 2 ^ ?g \<le> total_frames s"
      using True le "1.prems"(3) by simp_all
    obtain s1 f where s1: "upd_frame c (carve ?g) s = Some s1" "pinv s1 own U" "step s s1 {c}"
      "fr s1 c = Some f" "bf_order f = ?g"
      using carve_ok [OF "1.prems"(1) block_disjoint_own [OF dj] ct(1)] by blast
    have ct1: "c + 2 ^ ?g \<le> total_frames s1"
      using ct(2) step_total [OF s1(3)] by simp
    obtain s2 own2 where s2: "free_and_merge c ?g s1 = Some s2" "gave s1 own U s2 own2 (block ?g c)"
      using free_and_merge_gave [OF s1(2) dj g(2) ct1 g(3)] by blast
    note g2 = gaveD [OF s2(2)]
    have dj2: "{c + 2 ^ ?g..<a} \<inter> (owned own2 \<union> U) = {}"
      using "1.prems"(2) blk g2(3) by blast
    have T2: "a \<le> total_frames s2"
      using "1.prems"(3) step_total [OF s1(3)] g2(4) by simp
    obtain s' own' where s': "free_gap (c + 2 ^ ?g) a s2 = Some s'"
      "gave s2 own2 U s' own' {c + 2 ^ ?g..<a}"
      using "1.IH" [OF _ refl s1(1) s2(1) g2(1) dj2 T2] True by blast
    note g3 = gaveD [OF s'(2)]
    have st: "step s s2 (owned own \<union> block ?g c)"
      using block_self [of c ?g] by (intro step_trans [OF s1(3) g2(2)]) blast
    have "step s s' (owned own \<union> {c..<a})"
      using g2(3) blk(1) by (intro step_trans [OF st g3(2)]) blast
    moreover have "owned own' = owned own \<union> {c..<a}"
      using g3(3) g2(3) blk(1) by blast
    ultimately have "gave s own U s' own' {c..<a}"
      using g3(1) by (simp add: gave_def)
    moreover have "free_gap c a s = Some s'"
      using True s1(1) s2(1) s'(1) by (subst free_gap.simps) (simp add: Let_def)
    ultimately show ?thesis
      by blast
  qed
qed

subsection \<open>Regions\<close>

fun rset :: "UninitRegion option \<Rightarrow> nat set" where
  "rset None = {}"
| "rset (Some r) = {start_pfn r..<end_pfn r}"

definition region_frames :: "UninitRegion option list \<Rightarrow> nat set" where
  "region_frames rs = (\<Union>i<length rs. rset (rs ! i))"

definition regions_ok :: "nat \<Rightarrow> UninitRegion option list \<Rightarrow> bool" where
  "regions_ok T rs \<longleftrightarrow> (\<forall>i<length rs. rset (rs ! i) \<subseteq> {..<T}
     \<and> (\<forall>j<length rs. i \<noteq> j \<longrightarrow> rset (rs ! i) \<inter> rset (rs ! j) = {}))"

lemma region_update:
  assumes "regions_ok T rs" "i < length rs" "rset r \<subseteq> rset (rs ! i)"
  shows "regions_ok T (rs[i := r])"
    "region_frames (rs[i := r]) = region_frames rs - (rset (rs ! i) - rset r)"
proof -
  have sub: "rset (rs[i := r] ! j) \<subseteq> rset (rs ! j)" if "j < length rs" for j
    using assms(2,3) that by (cases "i = j") simp_all
  show "regions_ok T (rs[i := r])"
    using assms(1) sub unfolding regions_ok_def length_list_update by blast
  have dj: "rset (rs ! j) \<inter> rset (rs ! i) = {}" if "j < length rs" "j \<noteq> i" for j
    using assms(1,2) that unfolding regions_ok_def by blast
  show "region_frames (rs[i := r]) = region_frames rs - (rset (rs ! i) - rset r)"
  proof (intro set_eqI iffI)
    fix x
    assume "x \<in> region_frames (rs[i := r])"
    then obtain j where j: "j < length rs" "x \<in> rset (rs[i := r] ! j)"
      by (auto simp: region_frames_def)
    then have "x \<in> region_frames rs"
      using sub unfolding region_frames_def by blast
    moreover have "x \<notin> rset (rs ! i) - rset r"
      using j dj [of j] assms(2) by (cases "j = i") auto
    ultimately show "x \<in> region_frames rs - (rset (rs ! i) - rset r)"
      by blast
  next
    fix x
    assume x: "x \<in> region_frames rs - (rset (rs ! i) - rset r)"
    then obtain j where j: "j < length rs" "x \<in> rset (rs ! j)"
      by (auto simp: region_frames_def)
    then have "x \<in> rset (rs[i := r] ! j)"
      using x assms(2) by (cases "j = i") auto
    then show "x \<in> region_frames (rs[i := r])"
      using j(1) by (auto simp: region_frames_def)
  qed
qed

text \<open>The frames the allocator may hand out, and the invariant of the whole allocator.\<close>

definition free_frames :: "LazyBuddyAllocator \<Rightarrow> (nat \<Rightarrow> Loc option) \<Rightarrow> nat set" where
  "free_frames s own = owned own \<union> region_frames (regions s)"

definition pmm_inv :: "LazyBuddyAllocator \<Rightarrow> (nat \<Rightarrow> Loc option) \<Rightarrow> bool" where
  "pmm_inv s own \<longleftrightarrow> pinv s own (region_frames (regions s)) \<and> regions_ok (total_frames s) (regions s)"

definition stable :: "LazyBuddyAllocator \<Rightarrow> LazyBuddyAllocator \<Rightarrow> nat set \<Rightarrow> bool" where
  "stable s s' F \<longleftrightarrow> total_frames s' = total_frames s
     \<and> (\<forall>q. q \<notin> F \<longrightarrow> map_option strip (fr s' q) = map_option strip (fr s q))"

definition taken ::
  "LazyBuddyAllocator \<Rightarrow> (nat \<Rightarrow> Loc option) \<Rightarrow> LazyBuddyAllocator \<Rightarrow> (nat \<Rightarrow> Loc option) \<Rightarrow> nat \<Rightarrow> nat \<Rightarrow> bool" where
  "taken s own s' own' k p \<longleftrightarrow> pmm_inv s' own' \<and> stable s s' (free_frames s own) \<and> 2 ^ k dvd p
     \<and> block k p \<subseteq> free_frames s own \<and> free_frames s' own' = free_frames s own - block k p"

definition added ::
  "LazyBuddyAllocator \<Rightarrow> (nat \<Rightarrow> Loc option) \<Rightarrow> LazyBuddyAllocator \<Rightarrow> (nat \<Rightarrow> Loc option) \<Rightarrow> nat set \<Rightarrow> bool" where
  "added s own s' own' X \<longleftrightarrow> pmm_inv s' own' \<and> stable s s' (free_frames s own \<union> X)
     \<and> free_frames s' own' = free_frames s own \<union> X"

lemma stable_trans: "stable s s1 P \<Longrightarrow> stable s1 s2 Q \<Longrightarrow> P \<union> Q \<subseteq> R \<Longrightarrow> stable s s2 R"
  unfolding stable_def by (metis Un_iff subset_iff)

lemma step_stable: "step s s' P \<Longrightarrow> P \<subseteq> F \<Longrightarrow> stable s s' F"
  using step_total by (auto simp: step_def stable_def)

lemma pmm_disjoint: "pmm_inv s own \<Longrightarrow> owned own \<inter> region_frames (regions s) = {}"
  using geoD(4) [OF pinvD(2), of s own] by (simp add: pmm_inv_def)

lemma took_taken:
  assumes "pmm_inv s own" "took s own (region_frames (regions s)) s' own' k p"
  shows "taken s own s' own' k p"
proof -
  note t = tookD [OF assms(2)]
  have r: "regions s' = regions s"
    using step_regions [OF t(2)] .
  have oU: "owned own \<inter> region_frames (regions s) = {}"
    by (rule pmm_disjoint [OF assms(1)])
  have "pmm_inv s' own'"
    using assms(1) t(1,6) r by (simp add: pmm_inv_def)
  moreover have "free_frames s' own' = free_frames s own - block k p"
    using t(4,5) oU r unfolding free_frames_def by auto
  ultimately show ?thesis
    using t(3,4) step_stable [OF t(2)] by (auto simp: taken_def free_frames_def)
qed

lemma gave_added:
  assumes "pmm_inv s own" "gave s own (region_frames (regions s)) s' own' X"
  shows "added s own s' own' X"
proof -
  note g = gaveD [OF assms(2)]
  have "regions s' = regions s"
    using step_regions [OF g(2)] .
  then show ?thesis
    using assms(1) g(1,3,4) step_stable [OF g(2), of "free_frames s own \<union> X"]
    by (auto simp: added_def free_frames_def pmm_inv_def)
qed

lemma align_pfn_props:
  assumes "0 < n"
  shows "m \<le> align_pfn m n" "n dvd align_pfn m n"
  using round_up_bounds [OF assms, of m] by (simp_all add: align_pfn_def)

lemma pinv_regions [simp]: "pinv (s\<lparr>regions := x, last_uninit_idx := y\<rparr>) own U = pinv s own U"
  by (simp add: pinv_def links_def glist_def clist_def rlist_def)

lemma region_alloc:
  assumes inv: "pmm_inv s own" and i: "i < length (regions s)" and r: "regions s ! i = Some r"
    and a: "a = align_pfn (start_pfn r) (2 ^ k)" "a + 2 ^ k \<le> end_pfn r"
    and r': "r' = (if a + 2 ^ k = end_pfn r then None else Some (r\<lparr>start_pfn := a + 2 ^ k\<rparr>))"
  shows "\<exists>s1 own1. (if a > start_pfn r then free_gap (start_pfn r) a s else Some s) = Some s1
    \<and> taken s own (s1\<lparr>regions := (regions s1)[i := r'], last_uninit_idx := i\<rparr>) own1 k a"
proof -
  let ?U = "region_frames (regions s)" and ?c = "start_pfn r"
  let ?U1 = "?U - {?c..<a + 2 ^ k}"
  have ca: "?c \<le> a" "2 ^ k dvd a"
    unfolding a(1) by (rule align_pfn_props; simp)+
  have rs: "rset (regions s ! i) = {?c..<end_pfn r}"
    by (simp add: r)
  have rU: "{?c..<end_pfn r} \<subseteq> ?U"
    using i rs by (auto simp: region_frames_def)
  have oU: "owned own \<inter> ?U = {}"
    by (rule pmm_disjoint [OF inv])
  have inv1: "pinv s own ?U1"
    using inv geo_shrink [of "total_frames s" own ?U ?U1] by (auto simp: pmm_inv_def pinv_def)
  have gU: "{?c..<a} \<subseteq> ?U" "block k a \<subseteq> ?U"
    using rU a(2) ca(1) by (auto simp: block_def)
  have "{?c..<a} \<inter> (owned own \<union> ?U1) = {}"
    using gU(1) oU by auto
  moreover have "a \<le> total_frames s"
  proof -
    have "{?c..<end_pfn r} \<subseteq> {..<total_frames s}"
      using inv i rs unfolding pmm_inv_def regions_ok_def by blast
    then show ?thesis
      using block_bound [OF a(2)] ca(1) by (auto simp: subset_iff intro: less_imp_le)
  qed
  ultimately obtain s1 own1 where s1: "free_gap ?c a s = Some s1" "gave s own ?U1 s1 own1 {?c..<a}"
    using free_gap_gave [OF inv1] by blast
  note g = gaveD [OF s1(2)]
  let ?s' = "s1\<lparr>regions := (regions s1)[i := r'], last_uninit_idx := i\<rparr>"
  have reg: "regions s1 = regions s"
    using step_regions [OF g(2)] .
  have rr: "rset r' = {a + 2 ^ k..<end_pfn r}"
    by (auto simp: r')
  have up: "regions_ok (total_frames s) ((regions s)[i := r'])" "region_frames ((regions s)[i := r']) = ?U1"
  proof -
    have "rset r' \<subseteq> rset (regions s ! i)"
      unfolding rr rs using ca(1) by auto
    note u = region_update [OF _ i this, of "total_frames s"]
    show "regions_ok (total_frames s) ((regions s)[i := r'])"
      using u(1) inv by (simp add: pmm_inv_def)
    have "rset (regions s ! i) - rset r' = {?c..<a + 2 ^ k}"
      unfolding rr rs using a(2) ca(1) by auto
    then show "region_frames ((regions s)[i := r']) = ?U1"
      using u(2) inv by (simp add: pmm_inv_def)
  qed
  have "pmm_inv ?s' own1"
    using g(1,4) up reg by (simp add: pmm_inv_def)
  moreover have "free_frames ?s' own1 = free_frames s own - block k a"
  proof -
    have "{?c..<a + 2 ^ k} = {?c..<a} \<union> block k a" "{?c..<a} \<inter> block k a = {}"
      using ca(1) by (auto simp: block_def)
    then show ?thesis
      using g(3) up(2) reg oU gU unfolding free_frames_def by auto
  qed
  moreover have "stable s ?s' (free_frames s own)"
    using step_stable [OF g(2), of "free_frames s own"] gU(1) by (auto simp: stable_def free_frames_def)
  ultimately have "taken s own ?s' own1 k a"
    using ca(2) gU(2) by (auto simp: taken_def free_frames_def)
  moreover have "(if a > ?c then free_gap ?c a s else Some s) = Some s1"
    using s1(1) ca(1) by (auto simp: free_gap.simps)
  ultimately show ?thesis
    by blast
qed

definition alloc_all ::
  "nat \<Rightarrow> LazyBuddyAllocator \<Rightarrow> (nat \<Rightarrow> Loc option) \<Rightarrow> nat option \<Rightarrow> LazyBuddyAllocator \<Rightarrow> bool" where
  "alloc_all k s own r s' \<longleftrightarrow>
    (case r of
       None \<Rightarrow> \<exists>own'. added s own s' own' {}
     | Some p \<Rightarrow> \<exists>own'. taken s own s' own' k p \<and> (\<exists>f. fr s' p = Some f \<and> bf_order f = k))"

lemma added_refl: "pmm_inv s own \<Longrightarrow> added s own s own {}"
  by (simp add: added_def stable_def)

lemma added_bump [simp]:
  "added (bump f s) own s' own' X = added s own s' own' X"
  "added s own (bump f s') own' X = added s own s' own' X"
  by (simp_all add: added_def pmm_inv_def stable_def free_frames_def)

lemma taken_bump [simp]:
  "taken (bump f s) own s' own' k p = taken s own s' own' k p"
  "taken s own (bump f s') own' k p = taken s own s' own' k p"
  by (simp_all add: taken_def pmm_inv_def stable_def free_frames_def)

lemma alloc_all_bump [simp]:
  "alloc_all k (bump f s) own r s' = alloc_all k s own r s'"
  "alloc_all k s own r (bump f s') = alloc_all k s own r s'"
  by (simp_all add: alloc_all_def split: option.split)

lemma pmm_inv_bump [simp]: "pmm_inv (bump f s) own = pmm_inv s own"
  by (simp add: pmm_inv_def)

lemma added_alloc_trans:
  assumes "added s own s1 own1 {}" "alloc_all k s1 own1 r s'"
  shows "alloc_all k s own r s'"
proof -
  have f: "free_frames s1 own1 = free_frames s own" and st: "stable s s1 (free_frames s own)"
    using assms(1) by (simp_all add: added_def)
  show ?thesis
    using assms(2) f stable_trans [OF st, of s' "free_frames s own" "free_frames s own"]
    by (auto simp: alloc_all_def added_def taken_def split: option.splits)
qed

lemma alloc_spec_all:
  assumes "pmm_inv s own" "alloc_spec k s own (region_frames (regions s)) r s'"
  shows "alloc_all k s own r s'"
proof (cases r)
  case None
  then have "pinv s' own (region_frames (regions s))" "step s s' (owned own)"
    using assms(2) by (simp_all add: alloc_spec_def)
  then have "gave s own (region_frames (regions s)) s' own {}"
    by (simp add: gave_def)
  then have "added s own s' own {}"
    by (rule gave_added [OF assms(1)])
  then show ?thesis
    using None by (auto simp: alloc_all_def)
next
  case (Some p)
  then obtain own' where tk: "took s own (region_frames (regions s)) s' own' k p"
    using assms(2) by (auto simp: alloc_spec_def)
  have "taken s own s' own' k p"
    by (rule took_taken [OF assms(1) tk])
  moreover have "\<exists>f. fr s' p = Some f \<and> bf_order f = k"
    using tk by (simp add: took_def)
  ultimately show ?thesis
    using Some by (auto simp: alloc_all_def)
qed

lemma uninit_loop_spec:
  assumes "pmm_inv s own" "\<forall>i \<in> set is. i < length (regions s)"
  shows "\<exists>r s'. uninit_loop (2 ^ k) is s = Some (r, s')
    \<and> (case r of None \<Rightarrow> s' = s | Some p \<Rightarrow> \<exists>own'. taken s own s' own' k p)"
  using assms(2)
proof (induction "is")
  case (Cons i "is")
  show ?case
  proof (cases "regions s ! i")
    case None
    then show ?thesis
      using Cons by simp
  next
    case (Some r)
    let ?a = "align_pfn (start_pfn r) (2 ^ k)"
    show ?thesis
    proof (cases "?a + 2 ^ k \<le> end_pfn r")
      case True
      then show ?thesis
        using region_alloc [OF assms(1) _ Some refl True refl] Cons.prems Some
        by (fastforce simp: Let_def)
    next
      case False
      then show ?thesis
        using Cons Some by simp
    qed
  qed
qed simp

lemma alloc_from_uninit_spec:
  assumes "pmm_inv s own"
  shows "\<exists>r s'. alloc_from_uninit k s = Some (r, s')
    \<and> (case r of None \<Rightarrow> s' = s | Some p \<Rightarrow> \<exists>own'. taken s own s' own' k p)"
proof (cases "regions s = []")
  case True
  then show ?thesis
    by (simp add: alloc_from_uninit_def)
next
  case False
  then show ?thesis
    using uninit_loop_spec [OF assms, of "map (\<lambda>offset. (last_uninit_idx s + offset) mod length (regions s))
      [0..<length (regions s)]" k]
    by (simp add: alloc_from_uninit_def Let_def)
qed

lemma taken_carve:
  assumes "taken s own s1 own1 k p" "pmm_inv s own"
  shows "\<exists>s2. upd_frame p (carve k) s1 = Some s2 \<and> alloc_all k s own (Some p) s2"
proof -
  have t: "pmm_inv s1 own1" "block k p \<subseteq> free_frames s own" "free_frames s1 own1 = free_frames s own - block k p"
    "stable s s1 (free_frames s own)"
    using assms(1) by (simp_all add: taken_def)
  have "p \<in> free_frames s own"
    using t(2) block_self [of p k] by blast
  moreover have "region_frames (regions s) \<subseteq> {..<total_frames s}"
    using assms(2) unfolding pmm_inv_def regions_ok_def region_frames_def by blast
  ultimately have pt: "p < total_frames s1"
    using owned_bound [of "total_frames s" own "region_frames (regions s)" p] assms(2) t(4)
    by (auto simp: free_frames_def pmm_inv_def pinv_def stable_def)
  have "p \<notin> owned own1"
    using t(3) block_self [of p k] unfolding free_frames_def by blast
  then obtain s2 f where s2: "upd_frame p (carve k) s1 = Some s2" "pinv s2 own1 (region_frames (regions s1))"
    "step s1 s2 {p}" "fr s2 p = Some f" "bf_order f = k"
    using carve_ok [of s1 own1 "region_frames (regions s1)" p k] t(1) pt not_owned [of p own1]
    by (auto simp: pmm_inv_def)
  have r: "regions s2 = regions s1" "total_frames s2 = total_frames s1"
    using step_regions [OF s2(3)] step_total [OF s2(3)] by simp_all
  have "stable s s2 (free_frames s own)"
    using step_stable [OF s2(3), of "{p}"] \<open>p \<in> free_frames s own\<close> by (intro stable_trans [OF t(4)]) auto
  then have "taken s own s2 own1 k p"
    using assms(1) s2(2) r unfolding taken_def pmm_inv_def free_frames_def by simp
  then show ?thesis
    using s2 by (auto simp: alloc_all_def)
qed

lemma alloc_global_spec:
  assumes "pmm_inv s own" "k < MAX_ORDER"
  shows "\<exists>r s'. alloc_global k cpu s = Some (r, s') \<and> alloc_all k s own r s'"
proof -
  have "pinv s own (region_frames (regions s))"
    using assms(1) by (simp add: pmm_inv_def)
  from alloc_from_list_spec [OF this assms(2)] obtain r s1 where
    l: "alloc_from_list k cpu s = Some (r, s1)" "alloc_spec k s own (region_frames (regions s)) r s1"
    by blast
  note a1 = alloc_spec_all [OF assms(1) l(2)]
  show ?thesis
  proof (cases r)
    case (Some p)
    then show ?thesis
      using l(1) a1 by (simp add: alloc_global_def)
  next
    case None
    then obtain own1 where ad: "added s own s1 own1 {}" and inv1: "pmm_inv s1 own1"
      using a1 by (auto simp: alloc_all_def added_def)
    obtain r2 s2 where u: "alloc_from_uninit k s1 = Some (r2, s2)"
      "case r2 of None \<Rightarrow> s2 = s1 | Some p \<Rightarrow> \<exists>own'. taken s1 own1 s2 own' k p"
      using alloc_from_uninit_spec [OF inv1] by blast
    show ?thesis
    proof (cases r2)
      case None2: None
      then show ?thesis
        using l(1) None u ad by (auto simp: alloc_global_def alloc_all_def)
    next
      case (Some p)
      let ?f = "\<lambda>c. c\<lparr>alloc_hit_uninit := alloc_hit_uninit c + 1\<rparr>"
      obtain own2 where "taken s1 own1 (bump ?f s2) own2 k p"
        using u(2) Some by auto
      then obtain s3 where "upd_frame p (carve k) (bump ?f s2) = Some s3" "alloc_all k s1 own1 (Some p) s3"
        using taken_carve inv1 by blast
      then show ?thesis
        using l(1) None u(1) Some added_alloc_trans [OF ad] by (simp add: alloc_global_def)
    qed
  qed
qed

subsection \<open>The per-CPU caches and the reserve\<close>

definition can_free :: "LazyBuddyAllocator \<Rightarrow> (nat \<Rightarrow> Loc option) \<Rightarrow> nat \<Rightarrow> nat \<Rightarrow> bool" where
  "can_free s own k p \<longleftrightarrow> block k p \<inter> free_frames s own = {} \<and> 2 ^ k dvd p \<and> p + 2 ^ k \<le> total_frames s
     \<and> k < MAX_ORDER"

lemma can_freeD:
  assumes "can_free s own k p" "pmm_inv s own"
  shows "block k p \<inter> (owned own \<union> region_frames (regions s)) = {}" "2 ^ k dvd p"
    "p + 2 ^ k \<le> total_frames s" "k < MAX_ORDER" "own p = None" "fr s p \<noteq> None"
    "pinv s own (region_frames (regions s))"
proof -
  show d: "block k p \<inter> (owned own \<union> region_frames (regions s)) = {}" and "2 ^ k dvd p"
    "p + 2 ^ k \<le> total_frames s" "k < MAX_ORDER" "pinv s own (region_frames (regions s))"
    using assms by (simp_all add: can_free_def free_frames_def pmm_inv_def)
  show "own p = None"
    by (rule block_disjoint_own [OF d])
  show "fr s p \<noteq> None"
    using assms block_bound [of p k "total_frames s"] by (auto simp: can_free_def pmm_inv_def pinv_def)
qed

lemma free_in_range: "pmm_inv s own \<Longrightarrow> free_frames s own \<subseteq> {..<total_frames s}"
  using owned_bound [of "total_frames s" own "region_frames (regions s)"]
  unfolding pmm_inv_def pinv_def regions_ok_def free_frames_def region_frames_def by blast

lemma taken_can_free:
  assumes "taken s own s' own' k p" "pmm_inv s own" "k < MAX_ORDER"
  shows "can_free s' own' k p"
proof -
  have b: "block k p \<subseteq> {..<total_frames s}"
    using assms free_in_range by (auto simp: taken_def)
  have "p + 2 ^ k - 1 \<in> block k p"
    using zero_less_power [of "2 :: nat" k] unfolding block_def atLeastLessThan_iff by linarith
  then have "p + 2 ^ k \<le> total_frames s"
    using b zero_less_power [of "2 :: nat" k] by (auto simp: subset_iff)
  then show ?thesis
    using assms(1,3) by (auto simp: can_free_def taken_def stable_def)
qed

lemma taken_added:
  assumes "taken s own s1 own1 k p" "added s1 own1 s2 own2 (block k p)"
  shows "added s own s2 own2 {}"
proof -
  have f: "free_frames s1 own1 = free_frames s own - block k p" "block k p \<subseteq> free_frames s own"
    "stable s s1 (free_frames s own)"
    using assms(1) by (simp_all add: taken_def)
  have "free_frames s own - block k p \<union> block k p = free_frames s own"
    using f(2) by blast
  then have "stable s1 s2 (free_frames s own)"
    using assms(2) f(1) by (simp add: added_def)
  then have "stable s s2 (free_frames s own)"
    by (rule stable_trans [OF f(3)]) simp
  then show ?thesis
    using assms(2) f(1,2) by (auto simp: added_def)
qed

lemma added_trans:
  assumes "added s own s1 own1 X" "added s1 own1 s2 own2 Y"
  shows "added s own s2 own2 (X \<union> Y)"
proof -
  have st: "stable s s1 (free_frames s own \<union> X)"
    using assms(1) by (simp add: added_def)
  have "stable s s2 (free_frames s own \<union> (X \<union> Y))"
    using assms by (intro stable_trans [OF st]) (auto simp: added_def)
  then show ?thesis
    using assms by (auto simp: added_def)
qed

lemma free_and_merge_added:
  assumes "pmm_inv s own" "can_free s own k p"
  shows "\<exists>s' own'. free_and_merge p k s = Some s' \<and> added s own s' own' (block k p) \<and> cpu_sub own' own"
  using free_and_merge_gave [OF can_freeD(7,1-4) [OF assms(2,1)]] gave_added [OF assms(1)] by blast

lemma percpu_push_raw_added:
  assumes "pmm_inv s own" "can_free s own k p"
  shows "\<exists>s' own'. percpu_push_raw cpu p k s = Some s' \<and> added s own s' own' (block k p)"
proof (rule percpu_push_raw_links [of s own p k cpu])
  note c = can_freeD [OF assms(2,1)]
  show "links s own" "own p = None" "fr s p \<noteq> None" "k < MAX_ORDER"
    using c pinvD(1) by blast+
  fix s'
  assume a: "percpu_push_raw cpu p k s = Some s'" "links s' (own(p \<mapsto> Cpu (cpu mod MAX_CPUS) k))" "step s s' {p}"
  have "gave s own (region_frames (regions s)) s' (own(p \<mapsto> Cpu (cpu mod MAX_CPUS) k)) (block k p)"
    using gave_insert [OF c(7) a(2,3)] c(1-3) by simp
  then show ?thesis
    using a(1) gave_added [OF assms(1)] by blast
qed

lemma reserve_push_added:
  assumes "pmm_inv s own" "can_free s own ORDER_4K p"
  shows "\<exists>s' own'. reserve_push p s = Some s' \<and> added s own s' own' (block ORDER_4K p)"
proof (rule reserve_push_links [of s own p])
  note c = can_freeD [OF assms(2,1)]
  show "links s own" "own p = None" "fr s p \<noteq> None"
    using c pinvD(1) by blast+
  fix s'
  assume a: "reserve_push p s = Some s'" "links s' (own(p \<mapsto> Res))" "step s s' {p}"
  have "gave s own (region_frames (regions s)) s' (own(p \<mapsto> Res)) (block ORDER_4K p)"
    using gave_insert [OF c(7) a(2,3)] c(1-3) by simp
  then show ?thesis
    using a(1) gave_added [OF assms(1)] by blast
qed

lemma took_alloc_all:
  assumes "pmm_inv s own" "took s own (region_frames (regions s)) s' own' k p"
  shows "alloc_all k s own (Some p) s'"
  using alloc_spec_all [OF assms(1), of k "Some p" s'] assms(2) by (auto simp: alloc_spec_def)

lemma percpu_pop_raw_alloc:
  assumes "pmm_inv s own" "k < MAX_ORDER"
  shows "\<exists>r s'. percpu_pop_raw cpu k s = Some (r, s') \<and> alloc_all k s own r s'"
proof -
  have inv: "pinv s own (region_frames (regions s))"
    using assms(1) by (simp add: pmm_inv_def)
  show ?thesis
  proof (rule percpu_pop_raw_links [OF pinvD(1) [OF inv] assms(2), of cpu])
    assume "percpu_pop_raw cpu k s = Some (None, s)"
    then show ?thesis
      using added_refl [OF assms(1)] by (auto simp: alloc_all_def)
  next
    fix p s' f
    assume a: "percpu_pop_raw cpu k s = Some (Some p, s')" "own p = Some (Cpu (cpu mod MAX_CPUS) k)"
      "links s' (own(p := None))" "step s s' {p}" "fr s' p = Some f" "bf_order f = k"
    then show ?thesis
      using took_remove [OF inv a(2-5)] took_alloc_all [OF assms(1)] by auto
  qed
qed

lemma reserve_pop_alloc:
  assumes "pmm_inv s own"
  shows "\<exists>r s'. reserve_pop s = Some (r, s') \<and> alloc_all ORDER_4K s own r s'"
proof -
  have inv: "pinv s own (region_frames (regions s))"
    using assms(1) by (simp add: pmm_inv_def)
  show ?thesis
  proof (rule reserve_pop_links [OF pinvD(1) [OF inv]])
    assume "reserve_pop s = Some (None, s)"
    then show ?thesis
      using added_refl [OF assms(1)] by (auto simp: alloc_all_def)
  next
    fix p s' f
    assume a: "reserve_pop s = Some (Some p, s')" "own p = Some Res"
      "links s' (own(p := None))" "step s s' {p}" "fr s' p = Some f" "bf_order f = ORDER_4K"
    then show ?thesis
      using took_remove [OF inv a(2-5)] took_alloc_all [OF assms(1)] by auto
  qed
qed

lemma percpu_drain_added:
  assumes "pmm_inv s own" "k < MAX_ORDER"
  shows "\<exists>s' own'. percpu_drain cpu k n s = Some s' \<and> added s own s' own' {}"
  using assms(1)
proof (induction n arbitrary: s own)
  case 0
  then show ?case
    using added_refl by auto
next
  case (Suc n)
  obtain r s1 where p: "percpu_pop_raw cpu k s = Some (r, s1)" "alloc_all k s own r s1"
    using percpu_pop_raw_alloc [OF Suc.prems assms(2)] by blast
  show ?case
  proof (cases r)
    case None
    then show ?thesis
      using p by (auto simp: alloc_all_def)
  next
    case (Some d)
    then obtain own1 where t: "taken s own s1 own1 k d"
      using p(2) by (auto simp: alloc_all_def)
    then have inv1: "pmm_inv s1 own1"
      by (simp add: taken_def)
    obtain s2 own2 where m: "free_and_merge d k s1 = Some s2" "added s1 own1 s2 own2 (block k d)"
      using free_and_merge_added [OF inv1 taken_can_free [OF t Suc.prems assms(2)]] by blast
    have a2: "added s own s2 own2 {}"
      by (rule taken_added [OF t m(2)])
    then have "pmm_inv s2 own2"
      by (simp add: added_def)
    from Suc.IH [OF this] obtain s' own' where "percpu_drain cpu k n s2 = Some s'" "added s2 own2 s' own' {}"
      by blast
    then show ?thesis
      using p(1) Some m(1) added_trans [OF a2, of s' own' "{}"] by auto
  qed
qed

lemma percpu_push_added:
  assumes "pmm_inv s own" "can_free s own k p"
  shows "\<exists>s' own'. percpu_push cpu p k s = Some s' \<and> added s own s' own' (block k p)"
proof -
  obtain s1 own1 where s1: "percpu_push_raw cpu p k s = Some s1" "added s own s1 own1 (block k p)"
    using percpu_push_raw_added [OF assms] by blast
  have "pmm_inv s1 own1" "k < MAX_ORDER"
    using s1(2) assms(2) by (simp_all add: added_def can_free_def)
  note dr = percpu_drain_added [OF this, of cpu]
  let ?n = "unat (if pc_counts s1 (cpu mod MAX_CPUS) k > per_cpu_limit k
     then pc_counts s1 (cpu mod MAX_CPUS) k - per_cpu_limit k else 0)"
  obtain s' own' where "percpu_drain cpu k ?n s1 = Some s'" "added s1 own1 s' own' {}"
    using dr [of ?n] by blast
  then show ?thesis
    using s1(1) added_trans [OF s1(2), of s' own' "{}"] by (auto simp: percpu_push_def Let_def)
qed

text \<open>While the refill loop runs it holds the first block it got.\<close>

lemma refill_loop_held:
  assumes "taken s0 own0 s own k p" "pmm_inv s0 own0" "k < MAX_ORDER" "\<exists>f. fr s p = Some f \<and> bf_order f = k"
  shows "\<exists>s'. refill_loop cpu k n (Some p) s = Some (Some p, s') \<and> alloc_all k s0 own0 (Some p) s'"
  using assms(1,4)
proof (induction n arbitrary: s own)
  case 0
  then show ?case
    by (auto simp: alloc_all_def)
next
  case (Suc n)
  have inv: "pmm_inv s own"
    using Suc.prems(1) by (simp add: taken_def)
  obtain r s1 where g: "alloc_global k cpu s = Some (r, s1)" "alloc_all k s own r s1"
    using alloc_global_spec [OF inv assms(3)] by blast
  have keep: "taken s0 own0 s2 own2 k p \<and> (\<exists>f. fr s2 p = Some f \<and> bf_order f = k)"
    if ad: "added s own s2 own2 {}" for s2 own2
  proof -
    have a: "pmm_inv s2 own2" "free_frames s2 own2 = free_frames s own" "stable s s2 (free_frames s own)"
      using ad by (simp_all add: added_def)
    have t: "stable s0 s (free_frames s0 own0)" "free_frames s own = free_frames s0 own0 - block k p"
      using Suc.prems(1) by (simp_all add: taken_def)
    have "stable s0 s2 (free_frames s0 own0)"
      by (rule stable_trans [OF t(1) a(3)]) (use t(2) in blast)
    then have "taken s0 own0 s2 own2 k p"
      using Suc.prems(1) a by (simp add: taken_def)
    moreover have "p \<notin> free_frames s own"
      using t(2) block_self [of p k] by blast
    then have "map_option strip (fr s2 p) = map_option strip (fr s p)"
      using a(3) by (simp add: stable_def)
    then have "\<exists>f. fr s2 p = Some f \<and> bf_order f = k"
      using Suc.prems(2) by (auto simp: strip_def)
    ultimately show ?thesis
      by blast
  qed
  show ?case
  proof (cases r)
    case None
    then obtain own1 where "added s own s1 own1 {}"
      using g(2) by (auto simp: alloc_all_def)
    then show ?thesis
      using g(1) None keep by (auto simp: alloc_all_def)
  next
    case (Some q)
    then obtain own1 where t1: "taken s own s1 own1 k q"
      using g(2) by (auto simp: alloc_all_def)
    then have inv1: "pmm_inv s1 own1"
      by (simp add: taken_def)
    obtain s2 own2 where s2: "percpu_push_raw cpu q k s1 = Some s2" "added s1 own1 s2 own2 (block k q)"
      using percpu_push_raw_added [OF inv1 taken_can_free [OF t1 inv assms(3)]] by blast
    note k2 = keep [OF taken_added [OF t1 s2(2)]]
    show ?thesis
      using Suc.IH [of s2 own2] k2 g(1) Some s2(1) by auto
  qed
qed

lemma percpu_refill_alloc:
  assumes "pmm_inv s own" "k < MAX_ORDER"
  shows "\<exists>r s'. percpu_refill cpu k s = Some (r, s') \<and> alloc_all k s own r s'"
proof -
  have "\<exists>r s'. refill_loop cpu k n None s = Some (r, s') \<and> alloc_all k s own r s'" for n
  proof (cases n)
    case 0
    then show ?thesis
      using added_refl [OF assms(1)] by (auto simp: alloc_all_def)
  next
    case (Suc m)
    obtain r s1 where g: "alloc_global k cpu s = Some (r, s1)" "alloc_all k s own r s1"
      using alloc_global_spec [OF assms] by blast
    show ?thesis
    proof (cases r)
      case None
      then show ?thesis
        using g Suc by simp
    next
      case (Some p)
      then obtain own1 where "taken s own s1 own1 k p" "\<exists>f. fr s1 p = Some f \<and> bf_order f = k"
        using g(2) by (auto simp: alloc_all_def)
      then show ?thesis
        using refill_loop_held [OF _ assms, of s1 own1 p cpu m] g(1) Some Suc by auto
    qed
  qed
  from this [of "unat (per_cpu_batch k)"] show ?thesis
    by (auto simp: percpu_refill_def)
qed

subsection \<open>Compaction\<close>

lemma finite_cpu: "pmm_inv s own \<Longrightarrow> finite {q. own q = Some (Cpu c k)}"
proof (rule finite_subset)
  assume "pmm_inv s own"
  then show "{q. own q = Some (Cpu c k)} \<subseteq> {..<total_frames s}"
    using free_in_range [of s own] owned_self [of own] by (auto simp: free_frames_def subset_iff)
qed simp

lemma drain_loop_added:
  assumes "pmm_inv s own" "k < MAX_ORDER"
  shows "\<exists>n' s' own'. drain_loop cpu k n s = Some (n', s') \<and> added s own s' own' {}"
  using assms(1)
proof (induction "card {q. own q = Some (Cpu (cpu mod MAX_CPUS) k)}" arbitrary: s own n rule: less_induct)
  case less
  let ?C = "\<lambda>own. {q. own q = Some (Cpu (cpu mod MAX_CPUS) k)}"
  have inv: "pinv s own (region_frames (regions s))"
    using less.prems by (simp add: pmm_inv_def)
  show ?case
  proof (rule percpu_pop_raw_links [OF pinvD(1) [OF inv] assms(2), of cpu])
    assume "percpu_pop_raw cpu k s = Some (None, s)"
    then show ?case
      using added_refl [OF less.prems] by (subst drain_loop.simps) auto
  next
    fix p s1 f
    assume a: "percpu_pop_raw cpu k s = Some (Some p, s1)" "own p = Some (Cpu (cpu mod MAX_CPUS) k)"
      "links s1 (own(p := None))" "step s s1 {p}" "fr s1 p = Some f" "bf_order f = k"
    have t: "taken s own s1 (own(p := None)) k p"
      using took_remove [OF inv a(2-5)] a(6) by (intro took_taken [OF less.prems]) simp
    then have inv1: "pmm_inv s1 (own(p := None))"
      by (simp add: taken_def)
    obtain s2 own2 where m: "free_and_merge p k s1 = Some s2" "added s1 (own(p := None)) s2 own2 (block k p)"
      "cpu_sub own2 (own(p := None))"
      using free_and_merge_added [OF inv1 taken_can_free [OF t less.prems assms(2)]] by blast
    have a2: "added s own s2 own2 {}"
      by (rule taken_added [OF t m(2)])
    have "p \<in> ?C own" "p \<notin> ?C own2" "?C own2 \<subseteq> ?C own"
      using m(3) a(2) by (auto simp: cpu_sub_def split: if_splits)
    then have "?C own2 \<subset> ?C own"
      by blast
    then have "card (?C own2) < card (?C own)"
      by (rule psubset_card_mono [OF finite_cpu [OF less.prems]])
    moreover have "pmm_inv s2 own2"
      using a2 by (simp add: added_def)
    ultimately obtain n' s' own' where "drain_loop cpu k (saturating_add n 1) s2 = Some (n', s')"
      "added s2 own2 s' own' {}"
      using less.hyps [of own2 s2 "saturating_add n 1"] by blast
    then show ?case
      using a(1) m(1) added_trans [OF a2, of s' own' "{}"] by (subst drain_loop.simps) auto
  qed
qed

lemma drain_lists_added:
  assumes "pmm_inv s own" "\<forall>(cpu, k) \<in> set ps. k < MAX_ORDER"
  shows "\<exists>n' s' own'. drain_lists ps n s = Some (n', s') \<and> added s own s' own' {}"
  using assms
proof (induction ps arbitrary: s own n)
  case Nil
  then show ?case
    using added_refl by auto
next
  case (Cons a ps)
  obtain cpu k where a: "a = (cpu, k)" "k < MAX_ORDER"
    using Cons.prems(2) by (cases a) auto
  obtain n1 s1 own1 where d: "drain_loop cpu k n s = Some (n1, s1)" "added s own s1 own1 {}"
    using drain_loop_added [OF Cons.prems(1) a(2)] by blast
  then have "pmm_inv s1 own1"
    by (simp add: added_def)
  from Cons.IH [OF this, of n1] Cons.prems(2) obtain n' s' own' where
    "drain_lists ps n1 s1 = Some (n', s')" "added s1 own1 s' own' {}"
    by auto
  then show ?case
    using a(1) d(1) added_trans [OF d(2), of s' own' "{}"] by auto
qed

lemma walk_list_path:
  assumes "dpath (fr s) pr h xs l None"
  shows "walk_list s h n = Some (n + length xs)"
  using assms
proof (induction xs arbitrary: pr h n)
  case Nil
  then show ?case
    by (subst walk_list.simps) simp
next
  case (Cons x xs)
  then show ?case
    by (subst walk_list.simps) auto
qed

lemma walk_lists_ok:
  assumes "links s own" "\<forall>(k, sh) \<in> set ps. k < MAX_ORDER \<and> sh < SHARD_COUNT"
  shows "\<exists>g. walk_lists s ps f = Some g"
  using assms(2)
proof (induction ps arbitrary: f)
  case (Cons a ps)
  then obtain k sh where a: "a = (k, sh)" "k < MAX_ORDER" "sh < SHARD_COUNT"
    by (cases a) auto
  obtain xs l where "dpath (fr s) None (free_heads s k sh) xs l None"
    using linksD(1) [OF assms(1) a(2,3)] by (auto simp: glist_def)
  then show ?case
    using walk_list_path Cons a(1) by auto
qed simp

lemma max_free_order_ok:
  assumes "pmm_inv s own"
  shows "\<exists>m. max_free_order s = Some m"
proof -
  have "links s own"
    using assms by (simp add: pmm_inv_def pinv_def)
  then have "\<exists>g. walk_lists s (concat (map (\<lambda>order. map (\<lambda>shard. (order, shard)) [0..<SHARD_COUNT])
      [0..<MAX_ORDER])) (\<lambda>_. 0) = Some g"
    by (rule walk_lists_ok) auto
  then show ?thesis
    by (auto simp: max_free_order_def Let_def)
qed

lemma compact_added:
  assumes "pmm_inv s own"
  shows "\<exists>s' own'. compact s = Some s' \<and> added s own s' own' {}"
proof -
  let ?f = "\<lambda>c. c\<lparr>compact_calls := compact_calls c + 1\<rparr>"
  obtain m where m: "max_free_order s = Some m"
    using max_free_order_ok [OF assms] by blast
  have inv1: "pmm_inv (bump ?f s) own"
    using assms by simp
  obtain n s1 own1 where d: "drain_percpu_all (bump ?f s) = Some (n, s1)" "added s own s1 own1 {}"
    using drain_lists_added [OF inv1, of "concat (map (\<lambda>cpu. map (\<lambda>order. (cpu, order)) [0..<MAX_ORDER]) [0..<MAX_CPUS])" 0]
    by (auto simp: drain_percpu_all_def)
  then have "pmm_inv (bump (\<lambda>c. c\<lparr>compact_drained := compact_drained c + n\<rparr>) s1) own1"
    by (simp add: added_def)
  then obtain m2 where "max_free_order (bump (\<lambda>c. c\<lparr>compact_drained := compact_drained c + n\<rparr>) s1) = Some m2"
    using max_free_order_ok by blast
  then show ?thesis
    using m d by (auto simp: compact_def Let_def)
qed

subsection \<open>Allocate and deallocate\<close>

lemma or_else_alloc:
  assumes "pmm_inv s own" "\<exists>r s1. m = Some (r, s1) \<and> alloc_all k s own r s1"
    "\<And>s1 own1. pmm_inv s1 own1 \<Longrightarrow> \<exists>r s2. f s1 = Some (r, s2) \<and> alloc_all k s1 own1 r s2"
  shows "\<exists>r s2. or_else m f = Some (r, s2) \<and> alloc_all k s own r s2"
proof -
  obtain r s1 where m: "m = Some (r, s1)" "alloc_all k s own r s1"
    using assms(2) by blast
  show ?thesis
  proof (cases r)
    case (Some p)
    then show ?thesis
      using m by (simp add: or_else_def)
  next
    case None
    then obtain own1 where ad: "added s own s1 own1 {}"
      using m(2) by (auto simp: alloc_all_def)
    then have "pmm_inv s1 own1"
      by (simp add: added_def)
    from assms(3) [OF this] obtain r2 s2 where "f s1 = Some (r2, s2)" "alloc_all k s1 own1 r2 s2"
      by blast
    then show ?thesis
      using m(1) None added_alloc_trans [OF ad] by (auto simp: or_else_def)
  qed
qed

lemma percpu_pop_alloc:
  assumes "pmm_inv s own" "k < MAX_ORDER"
  shows "\<exists>r s'. percpu_pop cpu k s = Some (r, s') \<and> alloc_all k s own r s'"
  using percpu_pop_raw_alloc [OF assms, of cpu] by (auto simp: percpu_pop_def)

definition alloc_result ::
  "nat \<Rightarrow> LazyBuddyAllocator \<Rightarrow> (nat \<Rightarrow> Loc option) \<Rightarrow> u64 option \<Rightarrow> LazyBuddyAllocator \<Rightarrow> bool" where
  "alloc_result k s own r s' \<longleftrightarrow>
    (case r of
       None \<Rightarrow> alloc_all k s own None s'
     | Some a \<Rightarrow> \<exists>p. a = frame_address p \<and> alloc_all k s own (Some p) s')"

lemma alloc_result_simps:
  "alloc_all k s own (Some p) s' \<Longrightarrow> (case took_block k p s' of (r, s'') \<Rightarrow> alloc_result k s own r s'')"
  "alloc_all k s own None s' \<Longrightarrow> (case alloc_failed k s' of (r, s'') \<Rightarrow> alloc_result k s own r s'')"
  by (auto simp: took_block_def alloc_failed_def alloc_result_def)

lemma compact_alloc:
  assumes "pmm_inv s own" "k < MAX_ORDER"
  shows "\<exists>s1 r s2. compact s = Some s1 \<and> alloc_global k cpu s1 = Some (r, s2) \<and> alloc_all k s own r s2"
proof -
  obtain s1 own1 where c: "compact s = Some s1" "added s own s1 own1 {}"
    using compact_added [OF assms(1)] by blast
  then have "pmm_inv s1 own1"
    by (simp add: added_def)
  from alloc_global_spec [OF this assms(2)] show ?thesis
    using c added_alloc_trans [OF c(2)] by blast
qed

lemma allocate_spec:
  assumes "pmm_inv s own" "k < MAX_ORDER"
  shows "\<exists>r s'. allocate raw k s = Some (r, s') \<and> alloc_result k s own r s'"
proof -
  let ?s = "bump (\<lambda>c. c\<lparr>alloc_calls := alloc_calls c + 1\<rparr>) s" and ?cpu = "current_cpu_id raw"
  have inv: "pmm_inv ?s own"
    using assms(1) by simp
  have "\<exists>r s1. or_else (or_else (or_else (percpu_pop ?cpu k ?s) (percpu_refill ?cpu k)) (alloc_global k ?cpu))
      (\<lambda>s. if k = ORDER_4K then reserve_pop s else Some (None, s)) = Some (r, s1) \<and> alloc_all k ?s own r s1"
  proof (intro or_else_alloc [OF inv])
    show "\<exists>r s1. percpu_pop ?cpu k ?s = Some (r, s1) \<and> alloc_all k ?s own r s1"
      by (rule percpu_pop_alloc [OF inv assms(2)])
    fix s1 own1
    assume i: "pmm_inv s1 own1"
    show "\<exists>r s2. percpu_refill ?cpu k s1 = Some (r, s2) \<and> alloc_all k s1 own1 r s2"
      by (rule percpu_refill_alloc [OF i assms(2)])
    show "\<exists>r s2. alloc_global k ?cpu s1 = Some (r, s2) \<and> alloc_all k s1 own1 r s2"
      by (rule alloc_global_spec [OF i assms(2)])
    show "\<exists>r s2. (if k = ORDER_4K then reserve_pop s1 else Some (None, s1)) = Some (r, s2)
        \<and> alloc_all k s1 own1 r s2"
      using reserve_pop_alloc [OF i] added_refl [OF i] by (auto simp: alloc_all_def)
  qed
  then obtain r s1 where o: "or_else (or_else (or_else (percpu_pop ?cpu k ?s) (percpu_refill ?cpu k))
      (alloc_global k ?cpu)) (\<lambda>s. if k = ORDER_4K then reserve_pop s else Some (None, s)) = Some (r, s1)"
    "alloc_all k s own r s1"
    by auto
  show ?thesis
  proof (cases r)
    case (Some p)
    then show ?thesis
      using o assms(2) alloc_result_simps(1) [of k s own p s1]
      by (auto simp: allocate_def Let_def split: prod.splits)
  next
    case None
    then obtain own1 where ad: "added s own s1 own1 {}"
      using o(2) by (auto simp: alloc_all_def)
    then have inv1: "pmm_inv s1 own1"
      by (simp add: added_def)
    let ?now = "alloc_calls (counters s1)"
    let ?s2 = "bump (\<lambda>c. c\<lparr>compact_last_alloc_call := ?now\<rparr>) s1"
    have inv2: "pmm_inv ?s2 own1"
      using inv1 by simp
    obtain mo where mo: "max_free_order s1 = Some mo"
      using max_free_order_ok [OF inv1] by blast
    obtain s3 r4 s4 where c: "compact ?s2 = Some s3" "alloc_global k ?cpu s3 = Some (r4, s4)"
      "alloc_all k s1 own1 r4 s4"
      using compact_alloc [OF inv2 assms(2), of ?cpu] by auto
    have "alloc_all k s own r4 s4"
      by (rule added_alloc_trans [OF ad c(3)])
    then have "case (case r4 of Some idx \<Rightarrow> took_block k idx s4 | None \<Rightarrow> alloc_failed k s4) of
        (r, s'') \<Rightarrow> alloc_result k s own r s''"
      using alloc_result_simps by (cases r4) auto
    then show ?thesis
      using o None assms(2) mo c(1,2) alloc_result_simps(2) [of k s own s1]
      by (auto simp: allocate_def Let_def split: prod.splits)
  qed
qed

subsection \<open>The free frames as a function of the state\<close>

lemma spath_unique: "spath m h xs \<Longrightarrow> spath m h ys \<Longrightarrow> xs = ys"
proof (induction xs arbitrary: h ys)
  case Nil
  then show ?case
    by (cases ys) auto
next
  case (Cons x xs)
  then show ?case
    by (cases ys) auto
qed

lemma dpath_unique: "dpath m pr h xs l None \<Longrightarrow> dpath m pr h ys l' None \<Longrightarrow> xs = ys"
proof (induction xs arbitrary: pr h ys)
  case Nil
  then show ?case
    by (cases ys) auto
next
  case (Cons x xs)
  then show ?case
    by (cases ys) auto
qed

lemma glist_unique:
  assumes "glist s own k sh" "glist s own' k sh" "shard_for_pfn p = sh"
  shows "own p = Some (Glob k) \<longleftrightarrow> own' p = Some (Glob k)"
proof -
  obtain xs l where x: "dpath (fr s) None (free_heads s k sh) xs l None"
    "set xs = {p. own p = Some (Glob k) \<and> shard_for_pfn p = sh}"
    using assms(1) by (auto simp: glist_def)
  obtain ys l' where y: "dpath (fr s) None (free_heads s k sh) ys l' None"
    "set ys = {p. own' p = Some (Glob k) \<and> shard_for_pfn p = sh}"
    using assms(2) by (auto simp: glist_def)
  have "p \<in> set xs \<longleftrightarrow> p \<in> set ys"
    using dpath_unique [OF x(1) y(1)] by simp
  then show ?thesis
    using assms(3) x(2) y(2) by simp
qed

lemma clist_unique:
  assumes "clist s own c k" "clist s own' c k"
  shows "own p = Some (Cpu c k) \<longleftrightarrow> own' p = Some (Cpu c k)"
proof -
  obtain xs where x: "spath (fr s) (pc_heads s c k) xs" "set xs = {p. own p = Some (Cpu c k)}"
    using assms(1) by (auto simp: clist_def)
  obtain ys where y: "spath (fr s) (pc_heads s c k) ys" "set ys = {p. own' p = Some (Cpu c k)}"
    using assms(2) by (auto simp: clist_def)
  have "p \<in> set xs \<longleftrightarrow> p \<in> set ys"
    using spath_unique [OF x(1) y(1)] by simp
  then show ?thesis
    using x(2) y(2) by simp
qed

lemma rlist_unique:
  assumes "rlist s own" "rlist s own'"
  shows "own p = Some Res \<longleftrightarrow> own' p = Some Res"
proof -
  obtain xs where x: "spath (fr s) (reserve_head s) xs" "set xs = {p. own p = Some Res}"
    using assms(1) by (auto simp: rlist_def)
  obtain ys where y: "spath (fr s) (reserve_head s) ys" "set ys = {p. own' p = Some Res}"
    using assms(2) by (auto simp: rlist_def)
  have "p \<in> set xs \<longleftrightarrow> p \<in> set ys"
    using spath_unique [OF x(1) y(1)] by simp
  then show ?thesis
    using x(2) y(2) by simp
qed

lemma links_lists:
  assumes "links s own"
  shows "k < MAX_ORDER \<Longrightarrow> sh < SHARD_COUNT \<Longrightarrow> glist s own k sh"
    "c < MAX_CPUS \<Longrightarrow> k < MAX_ORDER \<Longrightarrow> clist s own c k" "rlist s own" "own p = Some l \<Longrightarrow> loc_ok l"
  using assms unfolding links_def by blast+

lemma links_half:
  assumes "links s own" "links s own'" "own p = Some l"
  shows "own' p = Some l"
proof -
  have ok: "loc_ok l"
    by (rule links_lists(4) [OF assms(1,3)])
  have sh: "shard_for_pfn p < SHARD_COUNT"
    by (simp add: shard_for_pfn_def SHARD_COUNT_def)
  show ?thesis
  proof (cases l)
    case (Glob k)
    then have "k < MAX_ORDER"
      using ok by simp
    from glist_unique [OF links_lists(1) [OF assms(1) this sh] links_lists(1) [OF assms(2) this sh] refl]
    show ?thesis
      using assms(3) Glob by simp
  next
    case (Cpu c k)
    then have "c < MAX_CPUS" "k < MAX_ORDER"
      using ok by simp_all
    from clist_unique [OF links_lists(2) [OF assms(1) this] links_lists(2) [OF assms(2) this]]
    show ?thesis
      using assms(3) Cpu by simp
  next
    case Res
    then show ?thesis
      using assms(3) rlist_unique [OF links_lists(3) [OF assms(1)] links_lists(3) [OF assms(2)], of p] by simp
  qed
qed

lemma links_unique:
  assumes "links s own" "links s own'"
  shows "own = own'"
proof
  fix p
  show "own p = own' p"
  proof (cases "own p")
    case None
    then show ?thesis
      using links_half [OF assms(2,1), of p "the (own' p)"] by (cases "own' p") simp_all
  next
    case (Some l)
    then show ?thesis
      using links_half [OF assms Some] by simp
  qed
qed

text \<open>The lists determine the owner map, so the free frames are a function of the state. An
  allocator state is valid when its lists and regions describe disjoint aligned blocks of existing
  frames and every frame has an address of 64 bits.\<close>

definition pmm_valid :: "LazyBuddyAllocator \<Rightarrow> bool" where
  "pmm_valid s \<longleftrightarrow> (\<exists>own. pmm_inv s own) \<and> total_frames s \<le> 2 ^ 52"

definition avail :: "LazyBuddyAllocator \<Rightarrow> nat set" where
  "avail s = {x. \<exists>own. pmm_inv s own \<and> x \<in> free_frames s own}"

definition frame_order :: "LazyBuddyAllocator \<Rightarrow> nat \<Rightarrow> nat option" where
  "frame_order s p = map_option bf_order (get_frame p s)"

definition held :: "LazyBuddyAllocator \<Rightarrow> nat \<Rightarrow> nat \<Rightarrow> bool" where
  "held s k p \<longleftrightarrow> frame_order s p = Some k \<and> k < MAX_ORDER \<and> 2 ^ k dvd p \<and> block k p \<inter> avail s = {}
     \<and> p + 2 ^ k \<le> total_frames s"

lemma pmm_links: "pmm_inv s own \<Longrightarrow> links s own"
  by (simp add: pmm_inv_def pinv_def)

lemma avail_eq:
  assumes "pmm_inv s own"
  shows "avail s = free_frames s own"
proof -
  have "own' = own" if "pmm_inv s own'" for own'
    by (rule links_unique [OF pmm_links [OF that] pmm_links [OF assms]])
  then show ?thesis
    using assms unfolding avail_def by blast
qed

lemma frame_order_eq: "frame_order s p = map_option fst (map_option strip (fr s p))"
  by (cases "fr s p") (simp_all add: frame_order_def strip_def)

lemma stable_order:
  assumes "stable s s' F" "q \<notin> F"
  shows "frame_order s' q = frame_order s q"
proof -
  have "map_option strip (fr s' q) = map_option strip (fr s q)"
    using assms by (simp add: stable_def)
  then show ?thesis
    by (simp only: frame_order_eq)
qed

lemma frame_address_inverse:
  assumes "p < 2 ^ 52"
  shows "unat (frame_address p) div 4096 = p"
proof -
  have "p * 4096 < 2 ^ 64"
    using assms by simp
  then have "unat (frame_address p) = p * 4096"
    unfolding frame_address_def by (intro of_nat_inverse) simp_all
  then show ?thesis
    by simp
qed

lemma validE:
  assumes "pmm_valid s"
  obtains own where "pmm_inv s own" "avail s = free_frames s own"
  using assms avail_eq unfolding pmm_valid_def by blast

lemma held_not_avail: "held s k p \<Longrightarrow> p \<notin> avail s"
  using block_self [of p k] unfolding held_def by blast

lemma held_stable:
  assumes "held s j q" "stable s s' F" "q \<notin> F" "block j q \<inter> avail s' = {}"
  shows "held s' j q"
  using assms stable_order [OF assms(2,3)] by (simp add: held_def stable_def)

lemma added_valid:
  assumes "added s own s' own' X" "pmm_inv s own" "total_frames s \<le> 2 ^ 52"
  shows "pmm_valid s'" "avail s' = avail s \<union> X" "total_frames s' = total_frames s"
    "held s j q \<Longrightarrow> block j q \<inter> X = {} \<Longrightarrow> held s' j q"
proof -
  have a: "pmm_inv s' own'" "stable s s' (avail s \<union> X)"
    using assms(1) avail_eq [OF assms(2)] by (simp_all add: added_def)
  show v: "avail s' = avail s \<union> X"
    using assms(1) avail_eq [OF assms(2)] avail_eq [OF a(1)] by (simp add: added_def)
  show t: "total_frames s' = total_frames s"
    using a(2) by (simp add: stable_def)
  show "pmm_valid s'"
    using a(1) assms(3) t by (auto simp: pmm_valid_def)
  assume h: "held s j q" "block j q \<inter> X = {}"
  have "q \<notin> X"
    using h(2) block_self [of q j] by blast
  then show "held s' j q"
    using held_not_avail [OF h(1)] h v by (intro held_stable [OF h(1) a(2)]) (auto simp: held_def)
qed

lemma taken_valid:
  assumes "taken s own s' own' k p" "pmm_inv s own" "total_frames s \<le> 2 ^ 52" "k < MAX_ORDER"
    "fr s' p = Some f" "bf_order f = k"
  shows "pmm_valid s'" "avail s' = avail s - block k p" "block k p \<subseteq> avail s" "held s' k p"
    "total_frames s' = total_frames s" "held s j q \<Longrightarrow> held s' j q"
proof -
  have a: "pmm_inv s' own'" "stable s s' (avail s)"
    using assms(1) avail_eq [OF assms(2)] by (simp_all add: taken_def)
  show v: "avail s' = avail s - block k p" "block k p \<subseteq> avail s"
    using assms(1) avail_eq [OF assms(2)] avail_eq [OF a(1)] by (simp_all add: taken_def)
  show t: "total_frames s' = total_frames s"
    using a(2) by (simp add: stable_def)
  show "pmm_valid s'"
    using a(1) assms(3) t by (auto simp: pmm_valid_def)
  have "can_free s' own' k p"
    by (rule taken_can_free [OF assms(1,2,4)])
  then show "held s' k p"
    using assms(5,6) avail_eq [OF a(1)] by (simp add: held_def can_free_def frame_order_def)
  assume h: "held s j q"
  have "block j q \<inter> avail s' = {}"
    using h v(1) unfolding held_def by blast
  then show "held s' j q"
    by (rule held_stable [OF h a(2) held_not_avail [OF h]])
qed

lemma alloc_result_valid:
  assumes "alloc_result k s own r s'" "pmm_inv s own" "total_frames s \<le> 2 ^ 52" "k < MAX_ORDER"
  shows "pmm_valid s'" "total_frames s' = total_frames s" "held s j q \<Longrightarrow> held s' j q"
    "r = None \<Longrightarrow> avail s' = avail s"
    "r = Some a \<Longrightarrow> \<exists>p. a = frame_address p \<and> held s' k p \<and> block k p \<subseteq> avail s
       \<and> avail s' = avail s - block k p"
proof -
  consider own' where "r = None" "added s own s' own' {}"
    | p own' f where "r = Some (frame_address p)" "taken s own s' own' k p" "fr s' p = Some f" "bf_order f = k"
    using assms(1) by (auto simp: alloc_result_def alloc_all_def split: option.splits)
  then have "pmm_valid s' \<and> total_frames s' = total_frames s \<and> (held s j q \<longrightarrow> held s' j q)
    \<and> (r = None \<longrightarrow> avail s' = avail s)
    \<and> (r = Some a \<longrightarrow> (\<exists>p. a = frame_address p \<and> held s' k p \<and> block k p \<subseteq> avail s
       \<and> avail s' = avail s - block k p))"
  proof cases
    case 1
    then show ?thesis
      using added_valid [OF 1(2) assms(2,3)] by simp
  next
    case 2
    then show ?thesis
      using taken_valid [OF 2(2) assms(2-4) 2(3,4)] by blast
  qed
  then show "pmm_valid s'" "total_frames s' = total_frames s" "held s j q \<Longrightarrow> held s' j q"
    "r = None \<Longrightarrow> avail s' = avail s"
    "r = Some a \<Longrightarrow> \<exists>p. a = frame_address p \<and> held s' k p \<and> block k p \<subseteq> avail s
       \<and> avail s' = avail s - block k p"
    by blast+
qed

lemma held_can_free:
  assumes "held s k p" "pmm_inv s own"
  shows "can_free s own k p" "p < total_frames s"
    "\<exists>f. fr s p = Some f \<and> bf_order f = k \<and> bf_state f = Allocated"
proof -
  show c: "can_free s own k p"
    using assms(1) avail_eq [OF assms(2)] by (simp add: held_def can_free_def)
  show "p < total_frames s"
    using assms(1) block_bound [of p k] by (simp add: held_def)
  obtain f where f: "fr s p = Some f" "bf_order f = k"
    using assms(1) by (auto simp: held_def frame_order_def)
  have "own p = None" "links s own"
    using can_freeD(5) [OF c assms(2)] pmm_links [OF assms(2)] by simp_all
  then have "bf_state f = Allocated"
    using f(1) unfolding links_def fields_ok_def state_of_def by (metis option.case(1))
  then show "\<exists>f. fr s p = Some f \<and> bf_order f = k \<and> bf_state f = Allocated"
    using f by blast
qed

lemma deallocate_spec:
  assumes "pmm_inv s own" "held s k p" "total_frames s \<le> 2 ^ 52"
  shows "\<exists>s' own'. deallocate raw (frame_address p) s = Some s' \<and> added s own s' own' (block k p)"
proof -
  note h = held_can_free [OF assms(2,1)]
  obtain f where f: "fr s p = Some f" "bf_order f = k" "bf_state f = Allocated"
    using h(3) by blast
  have pfn: "unat (frame_address p) div 4096 = p"
    using h(2) assms(3) by (intro frame_address_inverse) simp
  let ?s = "bump (\<lambda>c. c\<lparr>dealloc_calls := dealloc_calls c + 1\<rparr>) s"
  have inv: "pmm_inv ?s own"
    using assms(1) by simp
  have c: "can_free ?s own k p"
    using h(1) by (simp add: can_free_def free_frames_def bump_def)
  have "\<exists>s' own'. (if k = ORDER_4K \<and> reserve_count ?s < 32 then reserve_push p ?s
      else percpu_push (current_cpu_id raw) p k ?s) = Some s' \<and> added ?s own s' own' (block k p)"
    using reserve_push_added [OF inv, of p] percpu_push_added [OF inv c] c by auto
  then obtain s' own' where d: "(if k = ORDER_4K \<and> reserve_count ?s < 32 then reserve_push p ?s
      else percpu_push (current_cpu_id raw) p k ?s) = Some s'" "added s own s' own' (block k p)"
    by auto
  have t: "\<not> total_frames ?s \<le> p" "fr ?s p = Some f"
    using h(2) f(1) by (simp_all add: bump_def)
  have "deallocate raw (frame_address p) s
      = Some (bump (\<lambda>c. c\<lparr>allocated_frames := allocated_frames c - 2 ^ k\<rparr>) s')"
    using d(1) t f(2,3) unfolding deallocate_def Let_def pfn by (auto split: if_splits)
  then show ?thesis
    using d(2) by auto
qed

section \<open>The allocator as a source of frames\<close>

text \<open>What the clients of \<open>frame_allocator\<close> rely on. \<open>avl s\<close> are the frames of the free blocks,
  \<open>hld s k p\<close> says that the block of order \<open>k\<close> at frame \<open>p\<close> is in use and may be given back.\<close>

locale frame_source =
  fixes vld :: "'s \<Rightarrow> bool"
    and tot :: "'s \<Rightarrow> nat"
    and avl :: "'s \<Rightarrow> nat set"
    and hld :: "'s \<Rightarrow> nat \<Rightarrow> nat \<Rightarrow> bool"
    and get :: "nat \<Rightarrow> nat \<Rightarrow> 's \<Rightarrow> (u64 option \<times> 's) option"
    and put :: "nat \<Rightarrow> u64 \<Rightarrow> 's \<Rightarrow> 's option"
  assumes get_ok: "vld s \<Longrightarrow> \<exists>r s'. get cpu k s = Some (r, s') \<and> vld s' \<and> tot s' = tot s \<and> (\<forall>j q. hld s j q \<longrightarrow> hld s' j q)
      \<and> (case r of None \<Rightarrow> avl s' = avl s
         | Some a \<Rightarrow> \<exists>p. a = frame_address p \<and> hld s' k p \<and> block k p \<subseteq> avl s \<and> avl s' = avl s - block k p)"
    and put_ok: "vld s \<Longrightarrow> hld s k p \<Longrightarrow> \<exists>s'. put cpu (frame_address p) s = Some s' \<and> vld s' \<and> tot s' = tot s
      \<and> avl s' = avl s \<union> block k p
      \<and> (\<forall>j q. hld s j q \<longrightarrow> block j q \<inter> block k p = {} \<longrightarrow> hld s' j q)"
    and hld_free: "hld s k p \<Longrightarrow> block k p \<inter> avl s = {}"
begin

text \<open>Two successive requests never hand out overlapping blocks.\<close>

lemma get_get_disjoint:
  assumes "vld s" "get cpu j s = Some (Some a, s1)" "get cpu' k s1 = Some (Some b, s2)"
  shows "\<exists>p q. a = frame_address p \<and> b = frame_address q \<and> block j p \<inter> block k q = {}
    \<and> hld s2 j p \<and> hld s2 k q"
proof -
  obtain p where p: "a = frame_address p" "hld s1 j p" "avl s1 = avl s - block j p" "vld s1"
    using get_ok [OF assms(1), of cpu j] assms(2) by auto
  obtain q where q: "b = frame_address q" "hld s2 k q" "block k q \<subseteq> avl s1" "hld s2 j p"
    using get_ok [OF p(4), of cpu' k] assms(3) p(2) by auto
  show ?thesis
    using p(1,3) q by blast
qed

text \<open>Giving a block back after taking it restores the free frames.\<close>

lemma get_put:
  assumes "vld s" "get cpu k s = Some (Some a, s1)"
  shows "\<exists>s2. put cpu' a s1 = Some s2 \<and> vld s2 \<and> avl s2 = avl s \<and> (\<forall>j q. hld s j q \<longrightarrow> hld s2 j q)"
proof -
  obtain p where p: "a = frame_address p" "hld s1 k p" "block k p \<subseteq> avl s" "avl s1 = avl s - block k p"
    "vld s1" "\<forall>j q. hld s j q \<longrightarrow> hld s1 j q"
    using get_ok [OF assms(1), of cpu k] assms(2) by auto
  obtain s2 where s2: "put cpu' a s1 = Some s2" "vld s2" "avl s2 = avl s1 \<union> block k p"
    "\<forall>j q. hld s1 j q \<longrightarrow> block j q \<inter> block k p = {} \<longrightarrow> hld s2 j q"
    using put_ok [OF p(5,2), of cpu'] p(1) by blast
  have "block j q \<inter> block k p = {}" if "hld s j q" for j q
    using hld_free [OF that] p(3) by blast
  then show ?thesis
    using s2 p(3,4,6) by blast
qed

end

interpretation pmm: frame_source pmm_valid total_frames avail held allocate deallocate
proof
  fix s raw k
  assume v: "pmm_valid s"
  then have t: "total_frames s \<le> 2 ^ 52"
    by (simp add: pmm_valid_def)
  obtain own where own: "pmm_inv s own"
    using validE [OF v] by blast
  show "\<exists>r s'. allocate raw k s = Some (r, s') \<and> pmm_valid s' \<and> total_frames s' = total_frames s
      \<and> (\<forall>j q. held s j q \<longrightarrow> held s' j q)
      \<and> (case r of None \<Rightarrow> avail s' = avail s
         | Some a \<Rightarrow> \<exists>p. a = frame_address p \<and> held s' k p \<and> block k p \<subseteq> avail s
             \<and> avail s' = avail s - block k p)"
  proof (cases "k < MAX_ORDER")
    case True
    obtain r s' where r: "allocate raw k s = Some (r, s')" "alloc_result k s own r s'"
      using allocate_spec [OF own True] by blast
    note a = alloc_result_valid [OF r(2) own t True]
    have "case r of None \<Rightarrow> avail s' = avail s
         | Some a \<Rightarrow> \<exists>p. a = frame_address p \<and> held s' k p \<and> block k p \<subseteq> avail s
             \<and> avail s' = avail s - block k p"
      using a(4,5) by (auto split: option.split)
    then show ?thesis
      using r(1) a(1-3) by blast
  next
    case False
    then show ?thesis
      using v by (simp add: allocate_def)
  qed
  fix p
  assume h: "held s k p"
  obtain s' own' where d: "deallocate raw (frame_address p) s = Some s'" "added s own s' own' (block k p)"
    using deallocate_spec [OF own h t] by blast
  note a = added_valid [OF d(2) own t]
  show "\<exists>s'. deallocate raw (frame_address p) s = Some s' \<and> pmm_valid s'
      \<and> total_frames s' = total_frames s \<and> avail s' = avail s \<union> block k p
      \<and> (\<forall>j q. held s j q \<longrightarrow> block j q \<inter> block k p = {} \<longrightarrow> held s' j q)"
    using d(1) a(1-4) by blast
next
  fix s k p
  assume "held s k p"
  then show "block k p \<inter> avail s = {}"
    by (simp add: held_def)
qed

section \<open>Properties of the physical frame allocator\<close>




text \<open>Two requests in a row, on any CPUs and of any orders, never hand out a common frame.\<close>

theorem allocations_disjoint:
  assumes "pmm_valid s"
  shows "\<exists>r1 s1 r2 s2. allocate raw j s = Some (r1, s1) \<and> allocate raw' k s1 = Some (r2, s2) \<and>
    (\<forall>a b. r1 = Some a \<longrightarrow> r2 = Some b \<longrightarrow>
      (\<exists>p q. a = frame_address p \<and> b = frame_address q \<and> block j p \<inter> block k q = {}))"
proof -
  obtain r1 s1 where 1: "allocate raw j s = Some (r1, s1)" "pmm_valid s1"
    using pmm.get_ok [OF assms] by blast
  obtain r2 s2 where 2: "allocate raw' k s1 = Some (r2, s2)"
    using pmm.get_ok [OF 1(2)] by blast
  show ?thesis
    using 1(1) 2 pmm.get_get_disjoint [OF assms, of raw j _ s1 raw' k _ s2] by blast
qed

text \<open>The state of a machine with 64 frames, the first eight in use and the others not yet on
  any list.\<close>

definition sample_pmm :: LazyBuddyAllocator where
  "sample_pmm = allocator_new\<lparr> total_frames := 64, metadata_map := [0 \<mapsto> (\<lambda>_. buddy_frame_new)],
     frames_per_block := 102, regions := [Some \<lparr>start_pfn = 8, end_pfn = 64\<rparr>, None] \<rparr>"

lemma sample_fr: "p < 64 \<Longrightarrow> fr sample_pmm p = Some buddy_frame_new"
  by (simp add: fr_eq sample_pmm_def allocator_new_def)

lemma sample_fr_all: "fr sample_pmm p = Some f \<Longrightarrow> f = buddy_frame_new"
  by (auto simp: fr_eq sample_pmm_def allocator_new_def split: if_splits)

lemma sample_links: "links sample_pmm (\<lambda>_. None)"
proof -
  have "fields_ok None f" if "fr sample_pmm p = Some f" for p f
    using sample_fr_all [OF that] by (simp add: fields_ok_def state_of_def buddy_frame_new_def)
  moreover have "free_heads sample_pmm = (\<lambda>_ _. None)" "pc_heads sample_pmm = (\<lambda>_ _. None)"
    "reserve_head sample_pmm = None"
    by (simp_all add: sample_pmm_def allocator_new_def)
  ultimately show ?thesis
    by (simp add: links_def glist_def clist_def rlist_def)
qed

lemma sample_inv: "pmm_inv sample_pmm (\<lambda>_. None)"
proof -
  have r: "regions sample_pmm = [Some \<lparr>start_pfn = 8, end_pfn = 64\<rparr>, None]" "total_frames sample_pmm = 64"
    by (simp_all add: sample_pmm_def allocator_new_def)
  have "regions_ok 64 [Some \<lparr>start_pfn = 8, end_pfn = 64\<rparr>, None]"
    by (auto simp: regions_ok_def less_Suc_eq nth_Cons')
  then show ?thesis
    using sample_links sample_fr r by (simp add: pmm_inv_def pinv_def geo_def owned_def)
qed

lemma sample_valid: "pmm_valid sample_pmm"
  using sample_inv by (auto simp: pmm_valid_def sample_pmm_def allocator_new_def)

lemma sample_avail: "avail sample_pmm = {8..<64}"
proof -
  have "regions sample_pmm = [Some \<lparr>start_pfn = 8, end_pfn = 64\<rparr>, None]"
    by (simp add: sample_pmm_def allocator_new_def)
  then show ?thesis
    by (auto simp: avail_eq [OF sample_inv] free_frames_def owned_def region_frames_def less_Suc_eq)
qed

lemma sample_held: "held sample_pmm 0 5"
  by (simp add: held_def sample_avail frame_order_def sample_fr block_def MAX_ORDER_def)
    (simp add: sample_pmm_def allocator_new_def buddy_frame_new_def)




theorem allocations_disjoint_witness:
  "\<exists>r1 s1 r2 s2. allocate 0 0 sample_pmm = Some (r1, s1) \<and> allocate 3 4 s1 = Some (r2, s2) \<and>
    (\<forall>a b. r1 = Some a \<longrightarrow> r2 = Some b \<longrightarrow>
      (\<exists>p q. a = frame_address p \<and> b = frame_address q \<and> block 0 p \<inter> block 4 q = {}))"
  by (rule allocations_disjoint [OF sample_valid])

subsection \<open>A page given back twice\<close>

lemma reserve_push_again:
  assumes "fr s p = Some f"
  shows "\<exists>s' g. reserve_push p s = Some s' \<and> fr s' p = Some g \<and> bf_state g = Allocated \<and> bf_order g = ORDER_4K
    \<and> bf_next g = reserve_head s \<and> reserve_head s' = Some p \<and> reserve_count s' = reserve_count s + 1
    \<and> total_frames s' = total_frames s"
proof -
  let ?g = "\<lambda>f. f\<lparr>bf_order := ORDER_4K, bf_state := Allocated,
             bf_flags := set_flag (bf_flags f) BF_MIGRATABLE True,
             bf_next := reserve_head s, bf_prev := None\<rparr>"
  obtain mm where u: "upd_frame p ?g s = Some (s\<lparr>metadata_map := mm\<rparr>)"
    "fr (s\<lparr>metadata_map := mm\<rparr>) = (fr s)(p \<mapsto> ?g f)"
    using upd_frame_Some [OF assms, of ?g] by blast
  have "fr (s\<lparr>metadata_map := mm, reserve_head := Some p, reserve_count := reserve_count s + 1\<rparr>) p = Some (?g f)"
    using u(2) by (simp add: fr_eq)
  then show ?thesis
    using u(1) by (simp add: reserve_push_def)
qed

lemma reserve_pop_loop:
  assumes "fr s p = Some f" "reserve_head s = Some p"
  shows "\<exists>s' g. reserve_pop s = Some (Some p, s') \<and> reserve_head s' = bf_next f \<and> fr s' p = Some g"
proof -
  have "fr (s\<lparr>reserve_head := bf_next f\<rparr>) p = Some f"
    using assms(1) by (simp add: fr_eq)
  from upd_frame_Some [OF this, of mark_allocated] obtain mm where
    u: "upd_frame p mark_allocated (s\<lparr>reserve_head := bf_next f\<rparr>) = Some (s\<lparr>reserve_head := bf_next f, metadata_map := mm\<rparr>)"
    "fr (s\<lparr>reserve_head := bf_next f, metadata_map := mm\<rparr>) p = Some (mark_allocated f)"
    by auto
  then show ?thesis
    using assms by (auto simp: reserve_pop_def fr_eq)
qed

lemma deallocate_reserve:
  assumes "fr s p = Some f" "bf_state f = Allocated" "bf_order f = ORDER_4K" "reserve_count s < 32"
    "p < total_frames s" "total_frames s \<le> 2 ^ 52"
  shows "\<exists>s' g. deallocate raw (frame_address p) s = Some s' \<and> fr s' p = Some g \<and> bf_state g = Allocated
    \<and> bf_order g = ORDER_4K \<and> bf_next g = reserve_head s \<and> reserve_head s' = Some p
    \<and> reserve_count s' = reserve_count s + 1 \<and> total_frames s' = total_frames s"
proof -
  have pfn: "unat (frame_address p) div 4096 = p"
    using assms(5,6) by (intro frame_address_inverse) simp
  let ?s = "bump (\<lambda>c. c\<lparr>dealloc_calls := dealloc_calls c + 1\<rparr>) s"
  have f: "fr ?s p = Some f" "\<not> total_frames ?s \<le> p" "reserve_count ?s < 32"
    using assms by (simp_all add: bump_def)
  from reserve_push_again [OF f(1)] obtain s' g where "reserve_push p ?s = Some s'" "fr s' p = Some g"
    "bf_state g = Allocated" "bf_order g = ORDER_4K" "bf_next g = reserve_head s" "reserve_head s' = Some p"
    "reserve_count s' = reserve_count s + 1" "total_frames s' = total_frames s"
    by auto
  then show ?thesis
    using f assms(2,3) unfolding deallocate_def Let_def pfn by simp
qed

text \<open>C4: A page in the emergency reserve still has the state \<open>Allocated\<close>, so \<open>deallocate\<close> does not
  notice that it is given back a second time: the page is linked to itself and two requests served
  from the reserve return the same page.\<close>

theorem reserve_double_free:
  assumes "pmm_valid s" "held s ORDER_4K p" "reserve_count s < 31"
  shows "\<exists>s1 s2 s3 s4. deallocate raw (frame_address p) s = Some s1
    \<and> deallocate raw' (frame_address p) s1 = Some s2
    \<and> reserve_pop s2 = Some (Some p, s3) \<and> reserve_pop s3 = Some (Some p, s4)"
proof -
  obtain own where "pmm_inv s own"
    using validE [OF assms(1)] by blast
  note h = held_can_free [OF assms(2) this]
  have t: "total_frames s \<le> 2 ^ 52"
    using assms(1) by (simp add: pmm_valid_def)
  have r: "reserve_count s < 32" "reserve_count s + 1 < 32"
    using assms(3) by (simp_all add: word_less_nat_alt unat_plus_if_size word_size)
  obtain s1 f where s1: "deallocate raw (frame_address p) s = Some s1" "fr s1 p = Some f"
    "bf_state f = Allocated" "bf_order f = ORDER_4K" "reserve_head s1 = Some p"
    "reserve_count s1 < 32" "total_frames s1 = total_frames s"
    using h(3) deallocate_reserve [OF _ _ _ r(1) h(2) t, of _ raw] r(2) by (metis (no_types))
  obtain s2 g where s2: "deallocate raw' (frame_address p) s1 = Some s2" "fr s2 p = Some g"
    "bf_next g = Some p" "reserve_head s2 = Some p"
    using deallocate_reserve [OF s1(2,3,4,6), of raw'] s1(5,7) h(2) t by (metis (no_types))
  obtain s3 g3 where s3: "reserve_pop s2 = Some (Some p, s3)" "reserve_head s3 = Some p" "fr s3 p = Some g3"
    using reserve_pop_loop [OF s2(2,4)] s2(3) by auto
  obtain s4 where "reserve_pop s3 = Some (Some p, s4)"
    using reserve_pop_loop [OF s3(3,2)] by blast
  then show ?thesis
    using s1(1) s2(1) s3(1) by blast
qed

theorem reserve_double_free_witness:
  "\<exists>s1 s2 s3 s4. deallocate 0 (frame_address 5) sample_pmm = Some s1
    \<and> deallocate 0 (frame_address 5) s1 = Some s2
    \<and> reserve_pop s2 = Some (Some 5, s3) \<and> reserve_pop s3 = Some (Some 5, s4)"
  by (rule reserve_double_free [OF sample_valid]) (use sample_held in \<open>simp_all add: sample_pmm_def allocator_new_def ORDER_4K_def\<close>)

end
