(* ===== verification/FrameInit.thy ===== *)
theory FrameInit
  imports FrameAllocator
begin

text \<open>
  The construction of the frame allocator at boot (\<open>find_metadata_storage\<close>, \<open>init\<close> and
  \<open>process_range\<close> of \<open>mm/src/frame_allocator/allocator_core.rs\<close>).

  The memory map is what the boot loader hands over: a list of entries, of which only the base,
  the length and whether the type is \<open>Usable\<close> are read. Physical addresses are natural numbers
  (the architecture has 52 address bits, so sums of an address and a length do not wrap). A panic
  is \<open>None\<close>. The metadata blocks are pages of a pool that are handed out one after the other, so two
  slots of \<open>metadata_map\<close> never share one; the model keeps the number of pages handed out.
\<close>

section \<open>Placement of the metadata\<close>

record MemmapEntry =
  me_base :: nat
  me_len :: nat
  me_usable :: bool

definition PADDING_REGIONS :: nat where "PADDING_REGIONS = 16"
definition MIN_METADATA_BASE :: nat where "MIN_METADATA_BASE = 0x100000"

definition align4k :: "nat \<Rightarrow> nat" where
  "align4k v = (v + 4095) div 4096 * 4096"

definition entry_avail :: "MemmapEntry \<Rightarrow> nat" where
  "entry_avail e = me_len e - (align4k (me_base e) - me_base e)"

text \<open>\<open>if avail >= need { if best.map_or(true, |b| avail > b.1) { best = Some((base, avail)); } }\<close>\<close>

definition keep_best :: "nat \<Rightarrow> MemmapEntry \<Rightarrow> (nat \<times> nat) option \<Rightarrow> (nat \<times> nat) option" where
  "keep_best need e best =
    (if entry_avail e \<ge> need \<and> (case best of None \<Rightarrow> True | Some b \<Rightarrow> entry_avail e > snd b)
     then Some (me_base e, entry_avail e) else best)"

fun scan_regions :: "nat \<Rightarrow> nat \<Rightarrow> nat \<Rightarrow> MemmapEntry list \<Rightarrow> (nat \<times> nat) option \<times> (nat \<times> nat) option \<times> (nat \<times> nat) option
    \<Rightarrow> (nat \<times> nat) option \<times> (nat \<times> nat) option \<times> (nat \<times> nat) option" where
  "scan_regions nt np nm [] b = b"
| "scan_regions nt np nm (e # es) (bt, bp, bm) =
    (if \<not> me_usable e \<or> me_base e < MIN_METADATA_BASE then scan_regions nt np nm es (bt, bp, bm)
     else scan_regions nt np nm es (keep_best nt e bt, keep_best np e bp, keep_best nm e bm))"

fun scan_alt :: "nat \<Rightarrow> nat \<Rightarrow> MemmapEntry list \<Rightarrow> (nat \<times> nat) option \<Rightarrow> (nat \<times> nat) option" where
  "scan_alt pool_base need [] b = b"
| "scan_alt pool_base need (e # es) b =
    (if \<not> me_usable e \<or> me_base e = pool_base then scan_alt pool_base need es b
     else scan_alt pool_base need es (keep_best need e b))"

definition find_metadata_storage ::
  "MemmapEntry list \<Rightarrow> nat \<Rightarrow> nat \<Rightarrow> nat \<Rightarrow> nat \<Rightarrow> (nat \<times> nat \<times> nat \<times> nat) option" where
  "find_metadata_storage mmap metadata_map_size uninit_regions_size metadata_pool_size counts_size =
    (let total_size = align4k metadata_map_size + align4k uninit_regions_size + align4k counts_size
           + align4k metadata_pool_size;
         map_uninit_size = align4k metadata_map_size + align4k uninit_regions_size + align4k counts_size;
         (best_total, best_pool, best_map) =
           scan_regions total_size metadata_pool_size map_uninit_size mmap (None, None, None)
     in case best_total of
          Some (base, avl) \<Rightarrow>
            let map_paddr = align4k base;
                uninit_paddr = align4k (map_paddr + metadata_map_size);
                counts_paddr = align4k (uninit_paddr + uninit_regions_size);
                pool_paddr = align4k (counts_paddr + counts_size);
                end = pool_paddr + metadata_pool_size
            in if end > base + avl then None
               else Some (map_paddr, uninit_paddr, pool_paddr, counts_paddr)
        | None \<Rightarrow>
            do {
              (pool_base, pool_len) \<leftarrow> best_pool;
              bm \<leftarrow> best_map;
              (map_base, map_avail) \<leftarrow>
                (if fst bm = pool_base then scan_alt pool_base map_uninit_size mmap None else Some bm);
              let map_paddr = align4k map_base;
              let uninit_paddr = align4k (map_paddr + metadata_map_size);
              let counts_paddr = align4k (uninit_paddr + uninit_regions_size);
              let map_end = counts_paddr + counts_size;
              if map_end > map_base + map_avail then None
              else Some (map_paddr, uninit_paddr, align4k pool_base, counts_paddr)
            })"

section \<open>Recording the usable ranges\<close>

text \<open>The locals of \<open>init\<close> that \<open>process_range\<close> updates.\<close>

record RangeState =
  ra_map :: "nat \<Rightarrow> (nat \<Rightarrow> BuddyFrame) option"
  ra_blocks_allocated :: nat
  ra_region_idx :: nat
  ra_regions :: "UninitRegion option list"
  ra_pool_next :: nat

text \<open>The loop over the metadata blocks; \<open>len\<close> is both the length of the map and the number of
  pages of the pool.\<close>

fun ensure_blocks :: "nat \<Rightarrow> nat list \<Rightarrow> RangeState \<Rightarrow> RangeState option" where
  "ensure_blocks len [] r = Some r"
| "ensure_blocks len (block_idx # bs) r =
    (if block_idx \<ge> len then Some r
     else case ra_map r block_idx of
       Some _ \<Rightarrow> ensure_blocks len bs r
     | None \<Rightarrow>
         if ra_pool_next r \<ge> len then None
         else ensure_blocks len bs
                (r\<lparr>ra_map := (ra_map r)(block_idx \<mapsto> (\<lambda>_. buddy_frame_new)),
                   ra_pool_next := ra_pool_next r + 1,
                   ra_blocks_allocated := ra_blocks_allocated r + 1\<rparr>))"

definition process_range :: "nat \<Rightarrow> nat \<Rightarrow> nat \<Rightarrow> nat \<Rightarrow> RangeState \<Rightarrow> RangeState option" where
  "process_range per_block len start end r =
    (let current = align4k start; block_size = per_block * 4096
     in if current \<ge> end then Some r
        else do {
          r \<leftarrow> ensure_blocks len [current div block_size..<Suc ((end - 1) div block_size)] r;
          let start_pfn = current div 4096;
          let end_pfn = end div 4096;
          Some (if start_pfn < end_pfn \<and> ra_region_idx r < length (ra_regions r)
                then r\<lparr>ra_regions := (ra_regions r)[ra_region_idx r :=
                         Some \<lparr>start_pfn = start_pfn, end_pfn = end_pfn\<rparr>],
                       ra_region_idx := ra_region_idx r + 1\<rparr>
                else r)
        })"

fun around_reserved :: "nat \<Rightarrow> nat \<Rightarrow> nat \<Rightarrow> (nat \<times> nat) list \<Rightarrow> nat \<Rightarrow> RangeState \<Rightarrow> (nat \<times> RangeState) option" where
  "around_reserved per_block len region_end [] current r = Some (current, r)"
| "around_reserved per_block len region_end ((r_start, r_end) # rs) current r =
    (if current < r_end \<and> region_end > r_start then
       do {
         r \<leftarrow> (if r_start > current then process_range per_block len current r_start r else Some r);
         around_reserved per_block len region_end rs (align4k (max current r_end)) r
       }
     else around_reserved per_block len region_end rs current r)"

fun process_entries :: "nat \<Rightarrow> nat \<Rightarrow> (nat \<times> nat) list \<Rightarrow> MemmapEntry list \<Rightarrow> RangeState \<Rightarrow> RangeState option" where
  "process_entries per_block len reserved [] r = Some r"
| "process_entries per_block len reserved (e # es) r =
    (if me_usable e then
       do {
         let region_end = me_base e + me_len e;
         (current, r) \<leftarrow> around_reserved per_block len region_end reserved (me_base e) r;
         r \<leftarrow> (if current < region_end then process_range per_block len current region_end r else Some r);
         process_entries per_block len reserved es r
       }
     else process_entries per_block len reserved es r)"

section \<open>Initialisation\<close>

text \<open>\<open>size_of::<BuddyFrame>()\<close> and \<open>size_of::<Option<UninitRegion>>()\<close>.\<close>

definition BUDDY_FRAME_SIZE :: nat where "BUDDY_FRAME_SIZE = 40"
definition UNINIT_REGION_SIZE :: nat where "UNINIT_REGION_SIZE = 24"

fun phys_bounds :: "MemmapEntry list \<Rightarrow> nat \<times> nat \<Rightarrow> nat \<times> nat" where
  "phys_bounds [] b = b"
| "phys_bounds (e # es) (max_phys_addr, usable_regions_count) =
    (if me_usable e then
       phys_bounds es (if me_base e + me_len e > max_phys_addr then me_base e + me_len e else max_phys_addr,
         usable_regions_count + 1)
     else phys_bounds es (max_phys_addr, usable_regions_count))"

text \<open>The sizes computed at the start of \<open>init\<close>, and the four ranges that hold metadata.\<close>

definition boot_total :: "MemmapEntry list \<Rightarrow> nat" where
  "boot_total mmap = (fst (phys_bounds mmap (0, 0)) + 4095) div 4096"

definition frames_in_block :: nat where
  "frames_in_block = 4096 div BUDDY_FRAME_SIZE"

definition boot_map_len :: "MemmapEntry list \<Rightarrow> nat" where
  "boot_map_len mmap = (boot_total mmap + frames_in_block - 1) div frames_in_block"

definition max_uninit_regions :: "MemmapEntry list \<Rightarrow> nat" where
  "max_uninit_regions mmap = snd (phys_bounds mmap (0, 0)) * 2 + PADDING_REGIONS"

definition metadata_areas :: "MemmapEntry list \<Rightarrow> (nat \<times> nat) list option" where
  "metadata_areas mmap =
    (let metadata_map_size = boot_map_len mmap * 8;
         uninit_regions_size = max_uninit_regions mmap * UNINIT_REGION_SIZE;
         metadata_pool_size = boot_map_len mmap * 4096;
         counts_size = boot_total mmap * 2
     in do {
       (map_paddr, uninit_paddr, pool_paddr, counts_paddr) \<leftarrow>
         find_metadata_storage mmap metadata_map_size uninit_regions_size metadata_pool_size counts_size;
       Some [(map_paddr, map_paddr + metadata_map_size), (uninit_paddr, uninit_paddr + uninit_regions_size),
            (counts_paddr, counts_paddr + counts_size), (pool_paddr, pool_paddr + metadata_pool_size)]
     })"

text \<open>\<open>LazyBuddyAllocator::init\<close>. \<open>offset_set\<close> is whether \<open>PHYS_OFFSET\<close> has been set; without it
  the allocator is left unconfigured.\<close>

definition init :: "bool \<Rightarrow> MemmapEntry list \<Rightarrow> LazyBuddyAllocator \<Rightarrow> LazyBuddyAllocator option" where
  "init offset_set mmap s =
    do {
      areas \<leftarrow> metadata_areas mmap;
      if fst (hd areas) = 0 then None
      else if \<not> offset_set then Some s
      else do {
        let reserved = sort_key fst areas;
        r \<leftarrow> process_entries frames_in_block (boot_map_len mmap) reserved mmap
          \<lparr>ra_map = (\<lambda>_. None), ra_blocks_allocated = 0, ra_region_idx = 0,
           ra_regions = replicate (max_uninit_regions mmap) None, ra_pool_next = 0\<rparr>;
        init_reserve 32 (s\<lparr>total_frames := boot_total mmap, metadata_map := ra_map r,
          frames_per_block := frames_in_block, regions := ra_regions r, last_uninit_idx := 0\<rparr>)
      }
    }"

section \<open>Rounding to pages\<close>

lemma align4k_bounds: "v \<le> align4k v" "align4k v < v + 4096" "4096 dvd align4k v"
  using round_up_bounds [of 4096 v] by (simp_all add: align4k_def)

lemma align4k_id [simp]: "4096 dvd v \<Longrightarrow> align4k v = v"
  by (auto simp: align4k_def elim!: dvdE)

lemma align4k_least:
  assumes "v \<le> w" "4096 dvd w"
  shows "align4k v \<le> w"
proof -
  have "(v + 4095) div 4096 \<le> (w + 4095) div 4096"
    using assms(1) by (intro div_le_mono) simp
  then have "align4k v \<le> align4k w"
    by (simp add: align4k_def)
  then show ?thesis
    using assms(2) by simp
qed

section \<open>The placement is sound\<close>

definition candidate :: "MemmapEntry list \<Rightarrow> nat \<Rightarrow> nat \<times> nat \<Rightarrow> bool" where
  "candidate mmap need b \<longleftrightarrow> (\<exists>e\<in>set mmap. me_usable e \<and> b = (me_base e, entry_avail e) \<and> need \<le> entry_avail e)"

lemma candidate_mono: "candidate es need b \<Longrightarrow> set es \<subseteq> set es' \<Longrightarrow> candidate es' need b"
  by (auto simp: candidate_def)

lemma keep_best_candidate:
  assumes "\<And>b. best = Some b \<Longrightarrow> candidate mmap need b" "e \<in> set mmap" "me_usable e"
    "keep_best need e best = Some b"
  shows "candidate mmap need b"
  using assms by (auto simp: keep_best_def candidate_def split: if_splits)

lemma scan_regions_candidate:
  assumes "scan_regions nt np nm es (bt, bp, bm) = (bt', bp', bm')" "set es \<subseteq> set mmap"
    "\<And>b. bt = Some b \<Longrightarrow> candidate mmap nt b" "\<And>b. bp = Some b \<Longrightarrow> candidate mmap np b"
    "\<And>b. bm = Some b \<Longrightarrow> candidate mmap nm b"
  shows "(\<forall>b. bt' = Some b \<longrightarrow> candidate mmap nt b) \<and> (\<forall>b. bp' = Some b \<longrightarrow> candidate mmap np b)
    \<and> (\<forall>b. bm' = Some b \<longrightarrow> candidate mmap nm b)"
  using assms
proof (induction es arbitrary: bt bp bm)
  case Nil
  then show ?case
    by simp
next
  case (Cons e es)
  show ?case
  proof (cases "\<not> me_usable e \<or> me_base e < MIN_METADATA_BASE")
    case True
    show ?thesis
      by (rule Cons.IH [OF _ _ Cons.prems(3-5)]) (use Cons.prems(1,2) True in simp_all)
  next
    case False
    have e: "e \<in> set mmap" "me_usable e" "set es \<subseteq> set mmap"
      using Cons.prems(2) False by auto
    show ?thesis
    proof (rule Cons.IH)
      show "scan_regions nt np nm es (keep_best nt e bt, keep_best np e bp, keep_best nm e bm) = (bt', bp', bm')"
        using Cons.prems(1) False by simp
      show "set es \<subseteq> set mmap"
        by (rule e(3))
      show "candidate mmap nt b" if "keep_best nt e bt = Some b" for b
        by (rule keep_best_candidate [OF Cons.prems(3) e(1,2) that])
      show "candidate mmap np b" if "keep_best np e bp = Some b" for b
        by (rule keep_best_candidate [OF Cons.prems(4) e(1,2) that])
      show "candidate mmap nm b" if "keep_best nm e bm = Some b" for b
        by (rule keep_best_candidate [OF Cons.prems(5) e(1,2) that])
    qed
  qed
qed

lemma scan_alt_candidate:
  assumes "scan_alt pb need es b0 = Some b" "set es \<subseteq> set mmap"
    "\<And>b. b0 = Some b \<Longrightarrow> candidate mmap need b \<and> fst b \<noteq> pb"
  shows "candidate mmap need b \<and> fst b \<noteq> pb"
  using assms
proof (induction es arbitrary: b0)
  case Nil
  then show ?case
    by simp
next
  case (Cons e es)
  show ?case
  proof (cases "\<not> me_usable e \<or> me_base e = pb")
    case True
    show ?thesis
      by (rule Cons.IH [OF _ _ Cons.prems(3)]) (use Cons.prems(1,2) True in simp_all)
  next
    case False
    show ?thesis
    proof (rule Cons.IH)
      show "scan_alt pb need es (keep_best need e b0) = Some b"
        using Cons.prems(1) False by simp
      fix b'
      assume k: "keep_best need e b0 = Some b'"
      have "candidate mmap need b'"
        using keep_best_candidate [OF _ _ _ k, of mmap] Cons.prems(2,3) False by auto
      then show "candidate mmap need b' \<and> fst b' \<noteq> pb"
        using k False Cons.prems(3) by (auto simp: keep_best_def split: if_splits)
    qed (use Cons.prems(2) in simp)
  qed
qed

text \<open>\<open>inside mmap a n\<close>: the bytes \<open>a .. a + n\<close> lie in one usable entry.\<close>

definition inside :: "MemmapEntry list \<Rightarrow> nat \<Rightarrow> nat \<Rightarrow> bool" where
  "inside mmap a n \<longleftrightarrow> (\<exists>e\<in>set mmap. me_usable e \<and> me_base e \<le> a \<and> a + n \<le> me_base e + me_len e)"

definition bytes_of :: "MemmapEntry \<Rightarrow> nat set" where
  "bytes_of e = {me_base e..<me_base e + me_len e}"

fun entries_disjoint :: "MemmapEntry list \<Rightarrow> bool" where
  "entries_disjoint [] \<longleftrightarrow> True"
| "entries_disjoint (e # es) \<longleftrightarrow> (\<forall>e'\<in>set es. me_usable e \<longrightarrow> me_usable e' \<longrightarrow> bytes_of e \<inter> bytes_of e' = {})
     \<and> entries_disjoint es"

lemma entries_disjointD:
  assumes "entries_disjoint mmap" "e \<in> set mmap" "e' \<in> set mmap" "me_usable e" "me_usable e'" "e \<noteq> e'"
  shows "bytes_of e \<inter> bytes_of e' = {}"
  using assms by (induction mmap) auto

lemma candidate_inside:
  assumes "candidate mmap need (base, avl)" "base \<le> a" "a + n \<le> base + avl"
  shows "inside mmap a n"
  using assms by (auto simp: candidate_def inside_def entry_avail_def)

lemma candidate_pool:
  assumes "candidate mmap need (base, avl)" "0 < need"
  shows "inside mmap (align4k base) need"
    "\<exists>e\<in>set mmap. me_usable e \<and> me_base e = base \<and> {align4k base..<align4k base + need} \<subseteq> bytes_of e"
proof -
  obtain e where e: "e \<in> set mmap" "me_usable e" "base = me_base e" "need \<le> me_len e - (align4k base - base)"
    using assms(1) by (auto simp: candidate_def entry_avail_def)
  then have "base \<le> align4k base" "align4k base + need \<le> base + me_len e"
    using align4k_bounds(1) [of base] assms(2) by simp_all
  then show "inside mmap (align4k base) need"
    "\<exists>e\<in>set mmap. me_usable e \<and> me_base e = base \<and> {align4k base..<align4k base + need} \<subseteq> bytes_of e"
    using e by (auto simp: inside_def bytes_of_def intro!: bexI [of _ e])
qed

lemma candidate_bytes:
  assumes "candidate mmap need (base, avl)"
  shows "\<exists>e\<in>set mmap. me_usable e \<and> me_base e = base \<and> {base..<base + avl} \<subseteq> bytes_of e"
  using assms by (auto simp: candidate_def entry_avail_def bytes_of_def)

lemma keep_areas:
  assumes "m = align4k base" "u = align4k (m + ms)" "c = align4k (u + us)"
  shows "4096 dvd m" "4096 dvd u" "4096 dvd c" "base \<le> m" "m + ms \<le> u" "u + us \<le> c"
  using align4k_bounds assms by simp_all

lemma storage_sound:
  assumes "find_metadata_storage mmap ms us ps cs = Some (m, u, p, c)" "entries_disjoint mmap" "0 < ps"
  shows "4096 dvd m \<and> 4096 dvd u \<and> 4096 dvd p \<and> 4096 dvd c
    \<and> inside mmap m ms \<and> inside mmap u us \<and> inside mmap p ps \<and> inside mmap c cs
    \<and> m + ms \<le> u \<and> u + us \<le> c \<and> {m..<c + cs} \<inter> {p..<p + ps} = {}"
proof -
  let ?nm = "align4k ms + align4k us + align4k cs"
  let ?nt = "?nm + align4k ps"
  obtain bt bp bm where scan: "scan_regions ?nt ps ?nm mmap (None, None, None) = (bt, bp, bm)"
    by (metis prod_cases3)
  note cand = scan_regions_candidate [OF scan subset_refl]
  show ?thesis
  proof (cases bt)
    case (Some b)
    obtain base avl where b: "b = (base, avl)"
      by (cases b)
    have bt: "candidate mmap ?nt (base, avl)"
      using cand Some b by simp
    have v: "m = align4k base" "u = align4k (m + ms)" "c = align4k (u + us)" "p = align4k (c + cs)"
      "p + ps \<le> base + avl"
      using assms(1) scan Some b by (auto simp: find_metadata_storage_def Let_def split: if_splits)
    note k = keep_areas [OF v(1-3)]
    have p: "4096 dvd p" "c + cs \<le> p"
      using align4k_bounds v(4) by simp_all
    show ?thesis
      using k p v(5) candidate_inside [OF bt] by simp
  next
    case None
    then obtain pb pl b where bp: "bp = Some (pb, pl)" and bm: "bm = Some b"
      using assms(1) scan by (auto simp: find_metadata_storage_def Let_def bind_eq_Some_conv)
    obtain mb ma where alt: "(if fst b = pb then scan_alt pb ?nm mmap None else Some b) = Some (mb, ma)"
      and v: "m = align4k mb" "u = align4k (m + ms)" "c = align4k (u + us)" "c + cs \<le> mb + ma" "p = align4k pb"
      using assms(1) scan None bp bm
      by (auto simp: find_metadata_storage_def Let_def bind_eq_Some_conv split: if_splits)
    have cp: "candidate mmap ps (pb, pl)" and cb: "candidate mmap ?nm b"
      using cand bp bm by simp_all
    have cm: "candidate mmap ?nm (mb, ma)" "mb \<noteq> pb"
      using alt cb scan_alt_candidate [of pb ?nm mmap None "(mb, ma)" mmap] by (auto split: if_splits)
    note k = keep_areas [OF v(1-3)]
    have i: "inside mmap p ps" "inside mmap m ms" "inside mmap u us" "inside mmap c cs"
      using k v(4,5) candidate_inside [OF cm(1)] candidate_pool(1) [OF cp assms(3)] by simp_all
    obtain e e' where e: "e \<in> set mmap" "me_usable e" "me_base e = mb" "{mb..<mb + ma} \<subseteq> bytes_of e"
      "e' \<in> set mmap" "me_usable e'" "me_base e' = pb" "{p..<p + ps} \<subseteq> bytes_of e'"
      using candidate_bytes [OF cm(1)] candidate_pool(2) [OF cp assms(3)] v(5) by blast
    then have "bytes_of e \<inter> bytes_of e' = {}"
      using entries_disjointD [OF assms(2)] cm(2) by blast
    moreover have "{m..<c + cs} \<subseteq> bytes_of e"
      using e(4) k(4) v(4) by auto
    ultimately have "{m..<c + cs} \<inter> {p..<p + ps} = {}"
      using e(8) by blast
    then show ?thesis
      using i k align4k_bounds(3) v(5) by simp
  qed
qed

section \<open>The recorded regions\<close>

definition frames_of :: "MemmapEntry \<Rightarrow> nat set" where
  "frames_of e = {me_base e div 4096..<(me_base e + me_len e) div 4096}"

text \<open>\<open>clear x (a, b)\<close>: frame \<open>x\<close> has no byte in the area from \<open>a\<close> to \<open>b\<close>.\<close>

definition clear :: "nat \<Rightarrow> nat \<times> nat \<Rightarrow> bool" where
  "clear x ab \<longleftrightarrow> snd ab \<le> x * 4096 \<or> (x + 1) * 4096 \<le> fst ab"

definition boot_frames :: "MemmapEntry list \<Rightarrow> (nat \<times> nat) list \<Rightarrow> nat set" where
  "boot_frames mmap areas = {x. (\<exists>e\<in>set mmap. me_usable e \<and> x \<in> frames_of e) \<and> (\<forall>ab\<in>set areas. clear x ab)}"

definition pages :: "nat \<Rightarrow> nat \<Rightarrow> nat set" where
  "pages a b = {a div 4096..<b div 4096}"

text \<open>The state between two calls of \<open>process_range\<close>: the pool has handed out one page per slot in
  use, every block is initialised, the regions are disjoint and the slots from the index on are
  free.\<close>

definition range_inv :: "nat \<Rightarrow> nat \<Rightarrow> RangeState \<Rightarrow> bool" where
  "range_inv n_frames len r \<longleftrightarrow>
     ra_pool_next r = card {b. b < len \<and> ra_map r b \<noteq> None}
   \<and> (\<forall>b blk. ra_map r b = Some blk \<longrightarrow> b < len \<and> blk = (\<lambda>_. buddy_frame_new))
   \<and> regions_ok n_frames (ra_regions r)
   \<and> (\<forall>i. ra_region_idx r \<le> i \<longrightarrow> i < length (ra_regions r) \<longrightarrow> ra_regions r ! i = None)"

lemma ensure_blocks_ok:
  assumes "range_inv T len r" "sorted bs"
  shows "\<exists>r'. ensure_blocks len bs r = Some r' \<and> range_inv T len r' \<and> ra_regions r' = ra_regions r
    \<and> ra_region_idx r' = ra_region_idx r \<and> (\<forall>b. ra_map r b \<noteq> None \<longrightarrow> ra_map r' b \<noteq> None)
    \<and> (\<forall>b\<in>set bs. b < len \<longrightarrow> ra_map r' b \<noteq> None)"
  using assms
proof (induction bs arbitrary: r)
  case Nil
  then show ?case
    by simp
next
  case (Cons b bs)
  have sorted: "sorted bs" "\<forall>x\<in>set bs. b \<le> x"
    using Cons.prems(2) by simp_all
  consider "len \<le> b" | blk where "b < len" "ra_map r b = Some blk" | "b < len" "ra_map r b = None"
    by (cases "ra_map r b") (auto simp: not_less [symmetric])
  then show ?case
  proof cases
    case 1
    then show ?thesis
      using Cons.prems(1) sorted(2) by force
  next
    case 2
    then show ?thesis
      using Cons.IH [OF Cons.prems(1) sorted(1)] by auto
  next
    case 3
    let ?D = "{x. x < len \<and> ra_map r x \<noteq> None}"
    let ?r = "r\<lparr>ra_map := (ra_map r)(b \<mapsto> (\<lambda>_. buddy_frame_new)), ra_pool_next := ra_pool_next r + 1,
      ra_blocks_allocated := ra_blocks_allocated r + 1\<rparr>"
    have "?D \<subseteq> {..<len} - {b}" "card ({..<len} - {b}) = len - 1"
      using 3 by (auto simp: card_Diff_singleton)
    then have "card ?D \<le> len - 1"
      using card_mono [of "{..<len} - {b}" ?D] by simp
    then have next_ok: "ra_pool_next r < len"
      using Cons.prems(1) 3(1) by (simp add: range_inv_def)
    have "{x. x < len \<and> ra_map ?r x \<noteq> None} = insert b ?D" "finite ?D" "b \<notin> ?D"
      using 3 by auto
    then have "range_inv T len ?r"
      using Cons.prems(1) 3(1) by (auto simp: range_inv_def)
    from Cons.IH [OF this sorted(1)] show ?thesis
      using 3 next_ok by (auto split: if_splits)
  qed
qed

lemma region_add:
  assumes "regions_ok T rs" "i < length rs" "rs ! i = None" "rset r \<subseteq> {..<T}" "rset r \<inter> region_frames rs = {}"
  shows "regions_ok T (rs[i := r])" "region_frames (rs[i := r]) = region_frames rs \<union> rset r"
proof -
  have upd: "rset (rs[i := r] ! j) = (if j = i then rset r else rset (rs ! j))" if "j < length rs" for j
    using assms(2) that by (simp add: nth_list_update)
  have dj: "rset (rs ! j) \<inter> rset r = {}" if "j < length rs" for j
    using assms(5) that unfolding region_frames_def by blast
  show "regions_ok T (rs[i := r])"
    using assms(1,4) upd dj unfolding regions_ok_def length_list_update by (simp add: Int_commute)
  show "region_frames (rs[i := r]) = region_frames rs \<union> rset r"
    using assms(2,3) upd unfolding region_frames_def length_list_update
    by (auto split: if_splits)
qed

lemma block_index:
  assumes "x \<in> pages start end" "4096 dvd start" "0 < n"
  shows "x div n \<in> set [start div (n * 4096)..<Suc ((end - 1) div (n * 4096))]"
proof -
  have x: "start div 4096 \<le> x" "(x + 1) * 4096 \<le> end"
    using assms(1) by (auto simp: pages_def less_eq_div_iff_mult_less_eq Suc_le_eq [symmetric])
  have "start div (n * 4096) = start div 4096 div n"
    by (metis div_mult2_eq mult.commute)
  also have "\<dots> \<le> x div n"
    using x(1) by (rule div_le_mono)
  finally have "start div (n * 4096) \<le> x div n" .
  moreover have "x div n \<le> (end - 1) div 4096 div n"
    using x(2) by (intro div_le_mono) (simp add: less_eq_div_iff_mult_less_eq)
  then have "x div n \<le> (end - 1) div (n * 4096)"
    by (metis div_mult2_eq mult.commute)
  ultimately show ?thesis
    by (simp add: less_Suc_eq_le del: upt_Suc)
qed

lemma index_bound:
  assumes "(x :: nat) < T" "0 < n"
  shows "x div n < (T + n - 1) div n"
proof -
  have "T \<le> (T + n - 1) div n * n"
    by (rule round_up_bounds(1) [OF assms(2)])
  then show ?thesis
    using assms by (simp add: div_less_iff_less_mult)
qed

lemma pages_bound: "end \<le> T * 4096 \<Longrightarrow> pages start end \<subseteq> {..<T}"
proof
  fix x
  assume "end \<le> T * 4096" "x \<in> pages start end"
  then have "x < end div 4096" "end div 4096 \<le> T"
    by (auto simp: pages_def div_le_mono [of "end" "T * 4096" 4096, simplified])
  then show "x \<in> {..<T}"
    by simp
qed

lemma process_range_ok:
  assumes "range_inv T len r" "4096 dvd start" "0 < n" "len = (T + n - 1) div n" "end \<le> T * 4096"
    "region_frames (ra_regions r) \<inter> pages start end = {}"
  shows "\<exists>r'. process_range n len start end r = Some r' \<and> range_inv T len r'
    \<and> region_frames (ra_regions r') \<subseteq> region_frames (ra_regions r) \<union> pages start end
    \<and> (\<forall>b. ra_map r b \<noteq> None \<longrightarrow> ra_map r' b \<noteq> None)
    \<and> (\<forall>x\<in>pages start end. ra_map r' (x div n) \<noteq> None)"
proof (cases "end \<le> start")
  case True
  then have "pages start end = {}"
    by (auto simp: pages_def dest: div_le_mono [of "end" start 4096])
  then show ?thesis
    using assms(1,2) True by (simp add: process_range_def)
next
  case False
  let ?bs = "[start div (n * 4096)..<Suc ((end - 1) div (n * 4096))]"
  obtain r1 where r1: "ensure_blocks len ?bs r = Some r1" "range_inv T len r1" "ra_regions r1 = ra_regions r"
    "ra_region_idx r1 = ra_region_idx r" "\<forall>b. ra_map r b \<noteq> None \<longrightarrow> ra_map r1 b \<noteq> None"
    "\<forall>b\<in>set ?bs. b < len \<longrightarrow> ra_map r1 b \<noteq> None"
    using ensure_blocks_ok [OF assms(1) sorted_upt, of "start div (n * 4096)" "Suc ((end - 1) div (n * 4096))"]
    by blast
  have m: "\<forall>x\<in>pages start end. ra_map r1 (x div n) \<noteq> None"
    using r1(6) block_index [OF _ assms(2,3), of _ "end"] index_bound [OF _ assms(3), of _ T]
      pages_bound [OF assms(5)] assms(4) by (metis lessThan_iff subsetD)
  let ?reg = "Some \<lparr>start_pfn = start div 4096, end_pfn = end div 4096\<rparr>"
  let ?add = "start div 4096 < end div 4096 \<and> ra_region_idx r1 < length (ra_regions r1)"
  let ?r2 = "r1\<lparr>ra_regions := (ra_regions r1)[ra_region_idx r1 := ?reg], ra_region_idx := ra_region_idx r1 + 1\<rparr>"
  have eq: "process_range n len start end r = Some (if ?add then ?r2 else r1)"
    using False assms(2) r1(1) by (simp add: process_range_def Let_def del: upt_Suc)
  show ?thesis
  proof (cases ?add)
    case True
    have reg: "regions_ok T (ra_regions r1)" "ra_regions r1 ! ra_region_idx r1 = None" "rset ?reg = pages start end"
      "rset ?reg \<subseteq> {..<T}" "rset ?reg \<inter> region_frames (ra_regions r1) = {}"
      using r1(2,3) True pages_bound [OF assms(5)] assms(6) by (auto simp: range_inv_def pages_def)
    note add = region_add [OF reg(1) _ reg(2,4,5)]
    have "range_inv T len ?r2"
      using r1(2) True add(1) by (simp add: range_inv_def)
    then show ?thesis
      using eq True m r1(3,5) add(2) reg(3) by auto
  next
    case False
    then show ?thesis
      using eq r1(2,3,5) m by auto
  qed
qed

text \<open>What one usable entry contributes: \<open>ranged T len n r r' X\<close> says that \<open>r'\<close> extends \<open>r\<close> by
  regions among the frames \<open>X\<close> and that every frame of \<open>X\<close> has a metadata block.\<close>

definition ranged :: "nat \<Rightarrow> nat \<Rightarrow> nat \<Rightarrow> RangeState \<Rightarrow> RangeState \<Rightarrow> nat set \<Rightarrow> bool" where
  "ranged T len n r r' X \<longleftrightarrow> range_inv T len r'
     \<and> region_frames (ra_regions r') \<subseteq> region_frames (ra_regions r) \<union> X
     \<and> (\<forall>b. ra_map r b \<noteq> None \<longrightarrow> ra_map r' b \<noteq> None)
     \<and> (\<forall>x\<in>X. ra_map r' (x div n) \<noteq> None)"

lemma ranged_refl: "range_inv T len r \<Longrightarrow> ranged T len n r r {}"
  by (simp add: ranged_def)

lemma ranged_trans: "ranged T len n r r1 X \<Longrightarrow> ranged T len n r1 r2 Y \<Longrightarrow> ranged T len n r r2 (X \<union> Y)"
  unfolding ranged_def by blast

lemma ranged_inv: "ranged T len n r r' X \<Longrightarrow> range_inv T len r'"
  by (simp add: ranged_def)

lemma ranged_frames: "ranged T len n r r' X \<Longrightarrow> region_frames (ra_regions r') \<subseteq> region_frames (ra_regions r) \<union> X"
  by (simp add: ranged_def)

lemma pages_iff: "4096 dvd a \<Longrightarrow> x \<in> pages a b \<longleftrightarrow> a \<le> x * 4096 \<and> (x + 1) * 4096 \<le> b"
  by (auto simp: pages_def less_eq_div_iff_mult_less_eq Suc_le_eq [symmetric] elim!: dvdE)

definition clear_pages :: "nat \<Rightarrow> nat \<Rightarrow> (nat \<times> nat) list \<Rightarrow> nat set" where
  "clear_pages a b rs = {x \<in> pages a b. \<forall>ab\<in>set rs. clear x ab}"

lemma gap_and_rest:
  assumes "4096 dvd cur" "a \<le> b" "a \<le> e" "\<forall>ab\<in>set rs. a \<le> fst ab"
  shows "pages cur a \<union> clear_pages (align4k (max cur b)) e rs = clear_pages cur e ((a, b) # rs)"
proof -
  let ?c = "align4k (max cur b)"
  have c: "cur \<le> ?c" "b \<le> ?c" "4096 dvd ?c"
    using align4k_bounds [of "max cur b"] by auto
  have "x \<in> pages cur a \<union> clear_pages ?c e rs \<longleftrightarrow> x \<in> clear_pages cur e ((a, b) # rs)" for x
  proof (cases "(x + 1) * 4096 \<le> a")
    case True
    then have "clear x ab" if "ab \<in> set rs" for ab
      using assms(4) that by (force simp: clear_def)
    then show ?thesis
      using True assms(1-3) c by (auto simp: clear_pages_def pages_iff clear_def)
  next
    case False
    have "?c \<le> x * 4096 \<longleftrightarrow> cur \<le> x * 4096 \<and> b \<le> x * 4096"
      using c align4k_least [of "max cur b" "x * 4096"] by auto
    then show ?thesis
      using False assms(1) c(3) by (auto simp: clear_pages_def pages_iff clear_def)
  qed
  then show ?thesis
    by blast
qed

lemma around_reserved_ok:
  assumes "range_inv T len r" "4096 dvd cur" "0 < n" "len = (T + n - 1) div n" "re \<le> T * 4096"
    "region_frames (ra_regions r) \<inter> pages cur re = {}" "\<forall>ab\<in>set rs. 4096 dvd fst ab \<and> fst ab \<le> snd ab" "sorted (map fst rs)"
  shows "\<exists>cur' r'. around_reserved n len re rs cur r = Some (cur', r') \<and> 4096 dvd cur' \<and> cur \<le> cur'
    \<and> ranged T len n r r' (clear_pages cur (min cur' re) rs)
    \<and> (\<forall>ab\<in>set rs. snd ab \<le> cur' \<or> re \<le> fst ab)"
  using assms(1,2,6-8)
proof (induction rs arbitrary: cur r)
  case Nil
  have "clear_pages cur (min cur re) [] = {}"
    using Nil.prems(2) by (auto simp: clear_pages_def pages_iff)
  then show ?case
    using Nil by (simp add: ranged_refl)
next
  case (Cons ab rs)
  obtain a b where ab: "ab = (a, b)"
    by (cases ab)
  have tl: "\<forall>ab\<in>set rs. 4096 dvd fst ab \<and> fst ab \<le> snd ab" "sorted (map fst rs)" "4096 dvd a" "a \<le> b"
    "\<forall>ab\<in>set rs. a \<le> fst ab"
    using Cons.prems(4,5) ab by auto
  show ?case
  proof (cases "cur < b \<and> re > a")
    case False
    have "clear x (a, b)" if "x \<in> pages cur re" for x
      using that False Cons.prems(2) by (auto simp: pages_iff clear_def)
    then have "clear_pages cur (min c re) (ab # rs) = clear_pages cur (min c re) rs" for c
      using Cons.prems(2) ab by (auto simp: clear_pages_def pages_iff)
    then show ?thesis
      using Cons.IH [OF Cons.prems(1-3) tl(1,2)] False ab by auto
  next
    case True
    let ?c = "align4k (max cur b)"
    have c: "cur \<le> ?c" "b \<le> ?c" "4096 dvd ?c"
      using align4k_bounds [of "max cur b"] by auto
    obtain r1 where r1: "(if a > cur then process_range n len cur a r else Some r) = Some r1"
      "ranged T len n r r1 (pages cur a)"
    proof (cases "a > cur")
      case gap: True
      have "region_frames (ra_regions r) \<inter> pages cur a = {}"
        using Cons.prems(2,3) True by (auto simp: pages_iff)
      from process_range_ok [OF Cons.prems(1,2) assms(3,4) _ this] True assms(5) gap that show ?thesis
        unfolding ranged_def by auto
    next
      case False
      then have "pages cur a = {}"
        using Cons.prems(2) by (auto simp: pages_iff)
      then show ?thesis
        using that [of r] False ranged_refl [OF Cons.prems(1)] by simp
    qed
    have "pages cur a \<inter> pages ?c re = {}" "pages ?c re \<subseteq> pages cur re"
      using c Cons.prems(2) True tl(4) by (auto simp: pages_iff)
    then have "region_frames (ra_regions r1) \<inter> pages ?c re = {}"
      using ranged_frames [OF r1(2)] Cons.prems(3) by blast
    from Cons.IH [OF ranged_inv [OF r1(2)] c(3) this tl(1,2)] obtain cur' r' where
      i: "around_reserved n len re rs ?c r1 = Some (cur', r')" "4096 dvd cur'" "?c \<le> cur'"
      "ranged T len n r1 r' (clear_pages ?c (min cur' re) rs)" "\<forall>ab\<in>set rs. snd ab \<le> cur' \<or> re \<le> fst ab"
      by blast
    have X: "pages cur a \<union> clear_pages ?c (min cur' re) rs = clear_pages cur (min cur' re) (ab # rs)"
      using gap_and_rest [of cur a b "min cur' re" rs] Cons.prems(2) tl(4,5) c(2) i(3) True ab by simp
    have "snd ab \<le> cur'"
      using c(2) i(3) ab by simp
    then show ?thesis
      using True ab r1(1) i c(1) ranged_trans [OF r1(2) i(4)] X by auto
  qed
qed

lemma frames_of_pages: "frames_of e = pages (me_base e) (me_base e + me_len e)"
  by (simp add: frames_of_def pages_def)

definition entries_aligned :: "MemmapEntry list \<Rightarrow> bool" where
  "entries_aligned mmap \<longleftrightarrow> (\<forall>e\<in>set mmap. me_usable e \<longrightarrow> 4096 dvd me_base e \<and> 4096 dvd me_len e)"

lemma entry_ok:
  assumes "range_inv T len r" "4096 dvd base" "0 < n" "len = (T + n - 1) div n" "re \<le> T * 4096"
    "region_frames (ra_regions r) \<inter> pages base re = {}"
    "\<forall>ab\<in>set rs. 4096 dvd fst ab \<and> fst ab \<le> snd ab" "sorted (map fst rs)"
  shows "\<exists>cur r1 r2. around_reserved n len re rs base r = Some (cur, r1)
    \<and> (if cur < re then process_range n len cur re r1 else Some r1) = Some r2
    \<and> ranged T len n r r2 (clear_pages base re rs)"
proof -
  obtain cur r1 where r1: "around_reserved n len re rs base r = Some (cur, r1)" "4096 dvd cur" "base \<le> cur"
    "ranged T len n r r1 (clear_pages base (min cur re) rs)" "\<forall>ab\<in>set rs. snd ab \<le> cur \<or> re \<le> fst ab"
    using around_reserved_ok [OF assms] by blast
  show ?thesis
  proof (cases "cur < re")
    case True
    have clr: "clear x ab" if "x \<in> pages cur re" "ab \<in> set rs" for x ab
    proof -
      have "cur \<le> x * 4096" "(x + 1) * 4096 \<le> re"
        using that(1) r1(2) by (simp_all add: pages_iff)
      then show ?thesis
        using r1(5) that(2) by (force simp: clear_def)
    qed
    have dvd: "x * 4096 < cur \<longleftrightarrow> (x + 1) * 4096 \<le> cur" for x
      using r1(2) by (auto elim!: dvdE)
    have X: "clear_pages base (min cur re) rs \<union> pages cur re = clear_pages base re rs"
      using True clr r1(2,3) assms(2) dvd by (auto simp: clear_pages_def pages_iff not_less [symmetric])
    have "clear_pages base (min cur re) rs \<inter> pages cur re = {}" "pages cur re \<subseteq> pages base re"
      using r1(2,3) assms(2) by (auto simp: clear_pages_def pages_iff)
    then have "region_frames (ra_regions r1) \<inter> pages cur re = {}"
      using ranged_frames [OF r1(4)] assms(6) by blast
    from process_range_ok [OF ranged_inv [OF r1(4)] r1(2) assms(3-5) this] obtain r2 where
      r2: "process_range n len cur re r1 = Some r2" "ranged T len n r1 r2 (pages cur re)"
      unfolding ranged_def by auto
    then show ?thesis
      using r1(1) True ranged_trans [OF r1(4) r2(2)] X by auto
  next
    case False
    then show ?thesis
      using r1(1,4) by (auto simp: min_def split: if_splits)
  qed
qed

lemma boot_frames_Cons:
  "me_usable e \<Longrightarrow> boot_frames (e # es) rs = clear_pages (me_base e) (me_base e + me_len e) rs \<union> boot_frames es rs"
  "\<not> me_usable e \<Longrightarrow> boot_frames (e # es) rs = boot_frames es rs"
  by (auto simp: boot_frames_def clear_pages_def frames_of_pages)

lemma frames_disjoint:
  assumes "bytes_of e \<inter> bytes_of e' = {}" "4096 dvd me_base e" "4096 dvd me_base e'"
  shows "frames_of e \<inter> frames_of e' = {}"
proof (rule ccontr)
  assume "frames_of e \<inter> frames_of e' \<noteq> {}"
  then obtain x where "x \<in> frames_of e" "x \<in> frames_of e'"
    by blast
  then have "x * 4096 \<in> bytes_of e \<inter> bytes_of e'"
    using assms(2,3) by (auto simp: frames_of_pages pages_iff bytes_of_def)
  then show False
    using assms(1) by blast
qed

lemma process_entries_ok:
  assumes "range_inv T len r" "0 < n" "len = (T + n - 1) div n"
    "\<forall>ab\<in>set rs. 4096 dvd fst ab \<and> fst ab \<le> snd ab" "sorted (map fst rs)"
    "entries_aligned es" "entries_disjoint es"
    "\<forall>e\<in>set es. me_usable e \<longrightarrow> me_base e + me_len e \<le> T * 4096 \<and> region_frames (ra_regions r) \<inter> frames_of e = {}"
  shows "\<exists>r'. process_entries n len rs es r = Some r' \<and> ranged T len n r r' (boot_frames es rs)"
  using assms(1,6-8)
proof (induction es arbitrary: r)
  case Nil
  then show ?case
    by (simp add: boot_frames_def ranged_refl)
next
  case (Cons e es)
  have tl: "entries_aligned es" "entries_disjoint es"
    using Cons.prems(2,3) by (simp_all add: entries_aligned_def)
  show ?case
  proof (cases "me_usable e")
    case False
    then show ?thesis
      using Cons.IH [OF Cons.prems(1) tl] Cons.prems(4) by (simp add: boot_frames_Cons)
  next
    case True
    let ?re = "me_base e + me_len e"
    have e: "4096 dvd me_base e" "?re \<le> T * 4096" "region_frames (ra_regions r) \<inter> pages (me_base e) ?re = {}"
      using Cons.prems(2,4) True by (auto simp: entries_aligned_def frames_of_pages)
    obtain cur r1 r2 where r: "around_reserved n len ?re rs (me_base e) r = Some (cur, r1)"
      "(if cur < ?re then process_range n len cur ?re r1 else Some r1) = Some r2"
      "ranged T len n r r2 (clear_pages (me_base e) ?re rs)"
      using entry_ok [OF Cons.prems(1) e(1) assms(2,3) e(2,3) assms(4,5)] by blast
    have sub: "clear_pages (me_base e) ?re rs \<subseteq> frames_of e"
      by (auto simp: clear_pages_def frames_of_pages)
    have "region_frames (ra_regions r2) \<inter> frames_of e' = {}" if "e' \<in> set es" "me_usable e'" for e'
    proof -
      have "frames_of e \<inter> frames_of e' = {}" "region_frames (ra_regions r) \<inter> frames_of e' = {}"
        using frames_disjoint [of e e'] that True Cons.prems(2,3,4) by (simp_all add: entries_aligned_def)
      then show ?thesis
        using ranged_frames [OF r(3)] sub by blast
    qed
    then obtain r3 where r3: "process_entries n len rs es r2 = Some r3" "ranged T len n r2 r3 (boot_frames es rs)"
      using Cons.IH [OF ranged_inv [OF r(3)] tl] Cons.prems(4) by auto
    then show ?thesis
      using True r(1,2) ranged_trans [OF r(3) r3(2)] by (simp add: boot_frames_Cons Let_def)
  qed
qed

section \<open>The allocator after boot\<close>

lemma phys_bounds_max:
  "snd (phys_bounds es (m, c)) \<ge> c \<and> m \<le> fst (phys_bounds es (m, c))
   \<and> (\<forall>e\<in>set es. me_usable e \<longrightarrow> me_base e + me_len e \<le> fst (phys_bounds es (m, c)))"
proof (induction es arbitrary: m c)
  case Nil
  then show ?case
    by simp
next
  case (Cons e es)
  show ?case
    using Cons.IH [of "c + 1" "if me_base e + me_len e > m then me_base e + me_len e else m"] Cons.IH [of c m]
    by (auto split: if_splits)
qed

lemma boot_total_bound:
  assumes "e \<in> set mmap" "me_usable e"
  shows "me_base e + me_len e \<le> boot_total mmap * 4096"
  using phys_bounds_max [of 0 mmap 0] assms round_up_bounds(1) [of 4096 "fst (phys_bounds mmap (0, 0))"]
  by (force simp: boot_total_def)

lemma init_reserve_added:
  assumes "pmm_inv s own"
  shows "\<exists>s' own'. init_reserve n s = Some s' \<and> added s own s' own' {}"
  using assms
proof (induction n arbitrary: s own)
  case 0
  then show ?case
    using added_refl by auto
next
  case (Suc n)
  have k: "ORDER_4K < MAX_ORDER"
    by (simp add: ORDER_4K_def MAX_ORDER_def)
  obtain r s1 where a: "alloc_global ORDER_4K 0 s = Some (r, s1)" "alloc_all ORDER_4K s own r s1"
    using alloc_global_spec [OF Suc.prems k] by blast
  show ?case
  proof (cases r)
    case None
    then show ?thesis
      using a by (auto simp: alloc_all_def)
  next
    case (Some p)
    then obtain own1 where t: "taken s own s1 own1 ORDER_4K p"
      using a(2) by (auto simp: alloc_all_def)
    then have "pmm_inv s1 own1"
      by (simp add: taken_def)
    then obtain s2 own2 where p: "reserve_push p s1 = Some s2" "added s1 own1 s2 own2 (block ORDER_4K p)"
      using reserve_push_added [OF _ taken_can_free [OF t Suc.prems k]] by blast
    have ad: "added s own s2 own2 {}"
      by (rule taken_added [OF t p(2)])
    then have "pmm_inv s2 own2"
      by (simp add: added_def)
    then show ?thesis
      using Suc.IH [of s2 own2] a(1) Some p(1) added_trans [OF ad] by fastforce
  qed
qed

lemma fresh_inv:
  assumes "range_inv (boot_total mmap) (boot_map_len mmap) r" "\<forall>p<boot_total mmap. ra_map r (p div frames_in_block) \<noteq> None"
  shows "pmm_inv (allocator_new\<lparr>total_frames := boot_total mmap, metadata_map := ra_map r,
    frames_per_block := frames_in_block, regions := ra_regions r, last_uninit_idx := 0\<rparr>) (\<lambda>_. None)"
    (is "pmm_inv ?s _")
proof -
  have fr: "fr ?s p = map_option (\<lambda>_. buddy_frame_new) (ra_map r (p div frames_in_block))" for p
    using assms(1) by (cases "ra_map r (p div frames_in_block)") (auto simp: fr_eq range_inv_def)
  have "links ?s (\<lambda>_. None)"
    using fr by (auto simp: links_def glist_def clist_def rlist_def allocator_new_def fields_ok_def state_of_def
        buddy_frame_new_def)
  then show ?thesis
    using assms fr by (auto simp: pmm_inv_def pinv_def geo_def owned_def range_inv_def)
qed

lemma areas_ok:
  assumes "metadata_areas mmap = Some areas" "entries_disjoint mmap" "0 < boot_total mmap"
  shows "\<forall>ab\<in>set areas. 4096 dvd fst ab \<and> fst ab \<le> snd ab"
proof -
  have "0 < boot_map_len mmap"
    using index_bound [of 0 "boot_total mmap" frames_in_block] assms(3)
    by (simp add: boot_map_len_def frames_in_block_def BUDDY_FRAME_SIZE_def)
  then have "0 < boot_map_len mmap * 4096"
    by simp
  from storage_sound [OF _ assms(2) this] show ?thesis
    using assms(1) by (auto simp: metadata_areas_def Let_def bind_eq_Some_conv)
qed

lemma init_boot:
  assumes "entries_aligned mmap" "entries_disjoint mmap" "metadata_areas mmap = Some areas"
    "fst (hd areas) \<noteq> 0" "0 < boot_total mmap" "boot_total mmap \<le> 2 ^ 52"
    "\<forall>p<boot_total mmap. \<exists>x\<in>boot_frames mmap areas. x div frames_in_block = p div frames_in_block"
  shows "\<exists>s. init True mmap allocator_new = Some s \<and> pmm_valid s \<and> total_frames s = boot_total mmap
    \<and> avail s \<subseteq> boot_frames mmap areas"
proof -
  let ?n = frames_in_block and ?T = "boot_total mmap" and ?len = "boot_map_len mmap" and ?rs = "sort_key fst areas"
  let ?r0 = "\<lparr>ra_map = (\<lambda>_. None), ra_blocks_allocated = 0, ra_region_idx = 0,
    ra_regions = replicate (max_uninit_regions mmap) None, ra_pool_next = 0\<rparr>"
  have none: "region_frames (replicate k None) = {}" for k
    by (simp add: region_frames_def)
  have r0: "range_inv ?T ?len ?r0"
    by (simp add: range_inv_def regions_ok_def)
  have rs: "\<forall>ab\<in>set ?rs. 4096 dvd fst ab \<and> fst ab \<le> snd ab" "sorted (map fst ?rs)"
    using areas_ok [OF assms(3,2,5)] by simp_all
  have n: "0 < ?n" "?len = (?T + ?n - 1) div ?n"
    by (simp_all add: frames_in_block_def BUDDY_FRAME_SIZE_def boot_map_len_def)
  obtain r where r: "process_entries ?n ?len ?rs mmap ?r0 = Some r" "ranged ?T ?len ?n ?r0 r (boot_frames mmap ?rs)"
    using process_entries_ok [OF r0 n rs assms(1,2)] boot_total_bound none by auto
  have bf: "boot_frames mmap ?rs = boot_frames mmap areas"
    by (simp add: boot_frames_def)
  have meta: "\<forall>p<?T. ra_map r (p div ?n) \<noteq> None"
    using assms(7) r(2) bf unfolding ranged_def by metis
  let ?s = "allocator_new\<lparr>total_frames := ?T, metadata_map := ra_map r, frames_per_block := ?n,
    regions := ra_regions r, last_uninit_idx := 0\<rparr>"
  have inv: "pmm_inv ?s (\<lambda>_. None)"
    by (rule fresh_inv [OF ranged_inv [OF r(2)] meta])
  obtain s own where s: "init_reserve 32 ?s = Some s" "added ?s (\<lambda>_. None) s own {}"
    using init_reserve_added [OF inv] by blast
  have "avail ?s = region_frames (ra_regions r)"
    using avail_eq [OF inv] by (simp add: free_frames_def owned_def)
  then have "avail ?s \<subseteq> boot_frames mmap areas"
    using ranged_frames [OF r(2)] none bf by simp
  moreover have "init True mmap allocator_new = Some s"
    using assms(3,4) r(1) s(1) by (simp add: init_def Let_def)
  ultimately show ?thesis
    using added_valid [OF s(2) inv] assms(6) by simp
qed

section \<open>Properties of the initialisation\<close>

text \<open>C6: When \<open>find_metadata_storage\<close> returns, the four areas it places (map, uninit regions, table
  counts and pool) start at page boundaries, lie in usable memory and do not overlap.\<close>

theorem metadata_storage_sound:
  assumes "find_metadata_storage mmap ms us ps cs = Some (m, u, p, c)" "entries_disjoint mmap" "0 < ps"
  shows "4096 dvd m \<and> 4096 dvd u \<and> 4096 dvd p \<and> 4096 dvd c
    \<and> inside mmap m ms \<and> inside mmap u us \<and> inside mmap p ps \<and> inside mmap c cs
    \<and> m + ms \<le> u \<and> u + us \<le> c \<and> {m..<c + cs} \<inter> {p..<p + ps} = {}"
  by (rule storage_sound [OF assms])


definition sample_mmap :: "MemmapEntry list" where
  "sample_mmap = [\<lparr>me_base = 0, me_len = 0x100000, me_usable = True\<rparr>,
     \<lparr>me_base = 0xF0000, me_len = 0x1000, me_usable = False\<rparr>,
     \<lparr>me_base = 0x100000, me_len = 0x100000, me_usable = True\<rparr>]"

definition sample_areas :: "(nat \<times> nat) list" where
  "sample_areas = [(0x100000, 0x100030), (0x101000, 0x1011E0), (0x102000, 0x102400), (0x103000, 0x109000)]"

lemma sample_mmap_ok: "entries_aligned sample_mmap" "entries_disjoint sample_mmap"
  by (auto simp: sample_mmap_def entries_aligned_def bytes_of_def)

lemma sample_total: "boot_total sample_mmap = 512"
  by (simp add: boot_total_def sample_mmap_def)

lemma sample_storage: "find_metadata_storage sample_mmap 48 480 24576 1024 = Some (0x100000, 0x101000, 0x103000, 0x102000)"
  by (simp add: find_metadata_storage_def sample_mmap_def keep_best_def entry_avail_def align4k_def MIN_METADATA_BASE_def)

lemma sample_metadata_areas: "metadata_areas sample_mmap = Some sample_areas"
proof -
  have "boot_map_len sample_mmap = 6"
    by (simp add: boot_map_len_def sample_total frames_in_block_def BUDDY_FRAME_SIZE_def)
  moreover have "max_uninit_regions sample_mmap = 20"
    by (simp add: max_uninit_regions_def sample_mmap_def PADDING_REGIONS_def)
  ultimately show ?thesis
    by (simp add: metadata_areas_def sample_total UNINIT_REGION_SIZE_def sample_storage sample_areas_def)
qed

lemma sample_covered:
  assumes "p < 512"
  shows "\<exists>x\<in>boot_frames sample_mmap sample_areas. x div frames_in_block = p div frames_in_block"
proof -
  have n: "frames_in_block = 102"
    by (simp add: frames_in_block_def BUDDY_FRAME_SIZE_def)
  have "p div 102 * 102 \<in> boot_frames sample_mmap sample_areas"
  proof -
    have "p div 102 < 6"
      using assms by (simp add: div_less_iff_less_mult)
    then have "p div 102 \<in> {0, 1, 2, 3, 4, 5}"
      by auto
    then show ?thesis
      by (auto simp: boot_frames_def sample_mmap_def sample_areas_def frames_of_def clear_def)
  qed
  then show ?thesis
    using n by (intro bexI [of _ "p div 102 * 102"]) simp_all
qed

theorem metadata_storage_sound_witness:
  "inside sample_mmap 0x103000 24576 \<and> {0x100000..<0x102400} \<inter> {0x103000..<0x109000::nat} = {}"
  using metadata_storage_sound [OF sample_storage sample_mmap_ok(2)] by simp


end
