(* ===== verification/FrameStats.thy ===== *)
theory FrameStats
  imports FrameAllocator
begin

text \<open>
  The statistics of the frame allocator (\<open>mm/src/frame_allocator/stats.rs\<close>): the snapshot of the
  counters, the fragmentation report that walks every free list, and the reset.
\<close>

record FrameAllocatorStats =
  fs_counters :: Counters
  fs_reserve_count :: usize

record PmmFragStats =
  pf_max_order :: nat
  pf_free_global_by_order :: "nat \<Rightarrow> nat"
  pf_free_percpu_by_order :: "nat \<Rightarrow> nat"
  pf_uninit_frames :: nat

text \<open>The snapshot reports every counter but \<open>compact_last_alloc_call\<close>.\<close>

definition stats :: "LazyBuddyAllocator \<Rightarrow> FrameAllocatorStats" where
  "stats s = \<lparr>fs_counters = counters s, fs_reserve_count = reserve_count s\<rparr>"

text \<open>\<open>uninit_frames.saturating_add(region.end_pfn - region.start_pfn)\<close> over the regions in use.\<close>

fun sum_uninit :: "UninitRegion option list \<Rightarrow> nat \<Rightarrow> nat" where
  "sum_uninit [] n = n"
| "sum_uninit (None # rs) n = sum_uninit rs n"
| "sum_uninit (Some r # rs) n = sum_uninit rs (min (2 ^ 64 - 1) (n + (2 ^ 64 + end_pfn r - start_pfn r) mod 2 ^ 64))"

definition all_lists :: "(nat \<times> nat) list" where
  "all_lists = concat (map (\<lambda>order. map (\<lambda>shard. (order, shard)) [0..<SHARD_COUNT]) [0..<MAX_ORDER])"

definition frag_stats :: "LazyBuddyAllocator \<Rightarrow> PmmFragStats option" where
  "frag_stats s =
    do {
      free_global \<leftarrow> walk_lists s all_lists (\<lambda>_. 0);
      let free_percpu = (\<lambda>order. sum_list (map (\<lambda>cpu. unat (pc_counts s cpu order)) [0..<MAX_CPUS]));
      Some \<lparr>pf_max_order = first_nonzero (\<lambda>order. free_global order + free_percpu order) (rev [0..<MAX_ORDER]),
            pf_free_global_by_order = free_global, pf_free_percpu_by_order = free_percpu,
            pf_uninit_frames = sum_uninit (regions s) 0\<rparr>
    }"

definition reset_stats :: "LazyBuddyAllocator \<Rightarrow> LazyBuddyAllocator" where
  "reset_stats s = bump (\<lambda>c. c\<lparr>alloc_calls := 0, alloc_hit_percpu := 0, alloc_refill := 0,
     alloc_hit_global := 0, alloc_hit_uninit := 0, alloc_fail := 0, alloc_fail_by_order := (\<lambda>_. 0),
     dealloc_calls := 0, global_list_ops := 0\<rparr>) s"

definition compact_now :: "LazyBuddyAllocator \<Rightarrow> LazyBuddyAllocator option" where
  "compact_now s = compact s"

section \<open>The report counts the blocks of the global lists\<close>

definition global_blocks :: "(nat \<Rightarrow> Loc option) \<Rightarrow> nat \<Rightarrow> nat \<Rightarrow> nat set" where
  "global_blocks own k sh = {p. own p = Some (Glob k) \<and> shard_for_pfn p = sh}"

lemma walk_global:
  assumes "links s own" "k < MAX_ORDER" "sh < SHARD_COUNT"
  shows "walk_list s (free_heads s k sh) n = Some (n + card (global_blocks own k sh))" "finite (global_blocks own k sh)"
proof -
  obtain xs l where x: "dpath (fr s) None (free_heads s k sh) xs l None" "distinct xs"
    "set xs = global_blocks own k sh"
    using links_lists(1) [OF assms] by (auto simp: glist_def global_blocks_def)
  have "card (global_blocks own k sh) = length xs"
    using distinct_card [OF x(2)] x(3) by simp
  then show "walk_list s (free_heads s k sh) n = Some (n + card (global_blocks own k sh))"
    using walk_list_path [OF x(1), of n] by simp
  show "finite (global_blocks own k sh)"
    using x(3) finite_set [of xs] by simp
qed

lemma walk_lists_count:
  assumes "links s own" "\<forall>(k, sh)\<in>set ps. k < MAX_ORDER \<and> sh < SHARD_COUNT"
  shows "walk_lists s ps f = Some (\<lambda>k. f k + (\<Sum>(j, sh)\<leftarrow>ps. if j = k then card (global_blocks own j sh) else 0))"
  using assms(2)
proof (induction ps arbitrary: f)
  case Nil
  then show ?case
    by simp
next
  case (Cons p ps)
  obtain k sh where p: "p = (k, sh)" "k < MAX_ORDER" "sh < SHARD_COUNT"
    using Cons.prems by (cases p) auto
  let ?c = "card (global_blocks own k sh)" and ?S = "\<lambda>i. \<Sum>(j, sh)\<leftarrow>ps. if j = i then card (global_blocks own j sh) else 0"
  have "walk_lists s (p # ps) f = Some (\<lambda>i. (f(k := f k + ?c)) i + ?S i)"
    using Cons.IH [of "f(k := f k + ?c)"] Cons.prems walk_global(1) [OF assms(1) p(2,3), of "f k"] p(1)
    by (simp del: fun_upd_apply)
  moreover have "(f(k := f k + ?c)) i + ?S i = f i + (\<Sum>(j, sh)\<leftarrow>p # ps. if j = i then card (global_blocks own j sh) else 0)" for i
    using p(1) by simp
  ultimately show ?case
    by (simp only:)
qed

lemma all_lists_sum:
  assumes "k < MAX_ORDER"
  shows "(\<Sum>(j, sh)\<leftarrow>all_lists. if j = k then c j sh else 0) = (\<Sum>sh<SHARD_COUNT. c k sh :: nat)"
proof -
  have nested: "(\<Sum>(j, sh)\<leftarrow>concat (map (\<lambda>order. map (\<lambda>shard. (order, shard)) shs) js). g j sh)
    = (\<Sum>j\<leftarrow>js. \<Sum>sh\<leftarrow>shs. g j sh)" for js shs and g :: "nat \<Rightarrow> nat \<Rightarrow> nat"
    by (induction js) (simp_all add: comp_def)
  have inner: "(\<Sum>sh\<leftarrow>[0..<SHARD_COUNT]. if j = k then c j sh else 0)
    = (if j = k then (\<Sum>sh<SHARD_COUNT. c k sh) else 0)" for j
    by (simp add: interv_sum_list_conv_sum_set_nat atLeast0LessThan)
  have "(\<Sum>(j, sh)\<leftarrow>all_lists. if j = k then c j sh else 0)
    = (\<Sum>j\<leftarrow>[0..<MAX_ORDER]. if j = k then (\<Sum>sh<SHARD_COUNT. c k sh) else 0)"
    unfolding all_lists_def nested inner ..
  also have "\<dots> = (\<Sum>sh<SHARD_COUNT. c k sh)"
    using assms by (simp add: interv_sum_list_conv_sum_set_nat)
  finally show ?thesis .
qed

lemma shards_card:
  assumes "links s own" "k < MAX_ORDER"
  shows "(\<Sum>sh<SHARD_COUNT. card (global_blocks own k sh)) = card {p. own p = Some (Glob k)}"
proof -
  have "{p. own p = Some (Glob k)} = (\<Union>sh<SHARD_COUNT. global_blocks own k sh)"
    by (auto simp: global_blocks_def)
  moreover have "card (\<Union>sh<SHARD_COUNT. global_blocks own k sh) = (\<Sum>sh<SHARD_COUNT. card (global_blocks own k sh))"
    by (rule card_UN_disjoint) (simp_all add: walk_global(2) [OF assms], auto simp: global_blocks_def)
  ultimately show ?thesis
    by simp
qed

text \<open>The fragmentation report always returns on a valid allocator, and its entry for an order is
  the number of blocks of that order on the global lists.\<close>

theorem frag_stats_counts:
  assumes "pmm_inv s own"
  shows "\<exists>st. frag_stats s = Some st
    \<and> (\<forall>k<MAX_ORDER. pf_free_global_by_order st k = card {p. own p = Some (Glob k)})"
proof -
  have l: "links s own"
    by (rule pmm_links [OF assms])
  have "\<forall>(k, sh)\<in>set all_lists. k < MAX_ORDER \<and> sh < SHARD_COUNT"
    by (auto simp: all_lists_def)
  from walk_lists_count [OF l this] show ?thesis
    using all_lists_sum shards_card [OF l] by (simp add: frag_stats_def)
qed

theorem frag_stats_counts_witness:
  "\<exists>st. frag_stats sample_pmm = Some st \<and> (\<forall>k<MAX_ORDER. pf_free_global_by_order st k = 0)"
  using frag_stats_counts [OF sample_inv] by simp

end
