(* ===== verification/Rmap.thy ===== *)
theory Rmap
  imports Addr
begin

text \<open>
  The reverse map (\<open>mm/src/rmap.rs\<close>): for every user page frame the places where it is mapped.
  The \<open>BTreeMap\<close> is a list of bindings in ascending key order; the counters are the module's
  statics. The locks are not modelled: each operation is one step.
\<close>

record RmapEntry =
  re_p4_phys :: PhysAddr
  re_vaddr :: VirtAddr
  re_flags :: PageTableFlags

record RmapState =
  rmap :: "(u64 \<times> RmapEntry list) list"
  rmap_adds :: usize
  rmap_removes :: usize
  rmap_lookups :: usize
  mig_read :: usize
  mig_write :: usize

section \<open>Ordered maps\<close>

fun bt_insert :: "'k::linorder \<Rightarrow> 'v \<Rightarrow> ('k \<times> 'v) list \<Rightarrow> ('k \<times> 'v) list" where
  "bt_insert k v [] = [(k, v)]"
| "bt_insert k v ((k', v') # m) =
    (if k < k' then (k, v) # (k', v') # m
     else if k = k' then (k, v) # m
     else (k', v') # bt_insert k v m)"

definition bt_remove :: "'k \<Rightarrow> ('k \<times> 'v) list \<Rightarrow> ('k \<times> 'v) list" where
  "bt_remove k m = filter (\<lambda>b. fst b \<noteq> k) m"

abbreviation bt_sorted :: "('k::linorder \<times> 'v) list \<Rightarrow> bool" where
  "bt_sorted m \<equiv> sorted_wrt (<) (map fst m)"

lemma bt_insert_keys: "set (map fst (bt_insert k v m)) = insert k (set (map fst m))"
  by (induction k v m rule: bt_insert.induct) (simp_all add: insert_commute)

lemma bt_insert_sorted: "bt_sorted m \<Longrightarrow> bt_sorted (bt_insert k v m)"
proof (induction m)
  case (Cons b m)
  then show ?case
    using bt_insert_keys [of k v m] by (cases b) force
qed simp

lemma map_of_bt_insert: "bt_sorted m \<Longrightarrow> map_of (bt_insert k v m) = (map_of m)(k \<mapsto> v)"
proof (induction m)
  case (Cons b m)
  obtain k' v' where b: "b = (k', v')"
    by (cases b)
  have "k \<notin> fst ` set m" if "k \<le> k'"
    using Cons.prems b that by force
  then show ?case
    using Cons b by (auto simp: fun_eq_iff)
qed simp

lemma bt_remove_sorted: "bt_sorted m \<Longrightarrow> bt_sorted (bt_remove k m)"
  unfolding bt_remove_def by (induction m) auto

lemma map_of_bt_remove: "map_of (bt_remove k m) = (map_of m)(k := None)"
  unfolding bt_remove_def by (induction m) (auto simp: fun_eq_iff)

lemma map_of_sorted: "bt_sorted m \<Longrightarrow> (k, v) \<in> set m \<longleftrightarrow> map_of m k = Some v"
  by (simp add: map_of_eq_Some_iff strict_sorted_iff)

section \<open>The operations\<close>

definition migration_read_lock :: "RmapState \<Rightarrow> RmapState" where
  "migration_read_lock r = r\<lparr>mig_read := mig_read r + 1\<rparr>"

definition migration_write_lock :: "RmapState \<Rightarrow> RmapState" where
  "migration_write_lock r = r\<lparr>mig_write := mig_write r + 1\<rparr>"

definition rmap_add :: "PhysAddr \<Rightarrow> PhysAddr \<Rightarrow> VirtAddr \<Rightarrow> PageTableFlags \<Rightarrow> RmapState \<Rightarrow> RmapState" where
  "rmap_add phys p4_phys vaddr flags r =
    (let entry = \<lparr>re_p4_phys = p4_phys, re_vaddr = vaddr, re_flags = flags\<rparr>;
         vec = (case map_of (rmap r) phys of Some vec \<Rightarrow> vec | None \<Rightarrow> [])
     in r\<lparr>rmap_adds := rmap_adds r + 1, rmap := bt_insert phys (vec @ [entry]) (rmap r)\<rparr>)"

definition rmap_remove :: "PhysAddr \<Rightarrow> PhysAddr \<Rightarrow> VirtAddr \<Rightarrow> RmapState \<Rightarrow> RmapState" where
  "rmap_remove phys p4_phys vaddr r =
    (let r = r\<lparr>rmap_removes := rmap_removes r + 1\<rparr>
     in case map_of (rmap r) phys of
          None \<Rightarrow> r
        | Some vec \<Rightarrow>
            let vec = filter (\<lambda>e. \<not> (re_p4_phys e = p4_phys \<and> re_vaddr e = vaddr)) vec
            in if vec = [] then r\<lparr>rmap := bt_remove phys (rmap r)\<rparr>
               else r\<lparr>rmap := bt_insert phys vec (rmap r)\<rparr>)"

definition rmap_lookup :: "PhysAddr \<Rightarrow> RmapState \<Rightarrow> RmapEntry list \<times> RmapState" where
  "rmap_lookup phys r =
    ((case map_of (rmap r) phys of Some vec \<Rightarrow> vec | None \<Rightarrow> []), r\<lparr>rmap_lookups := rmap_lookups r + 1\<rparr>)"

definition rmap_any :: "RmapState \<Rightarrow> (PhysAddr \<times> RmapEntry) option" where
  "rmap_any r =
    (case rmap r of
       [] \<Rightarrow> None
     | (key, vec) # _ \<Rightarrow> (case vec of [] \<Rightarrow> None | entry # _ \<Rightarrow> Some (key, entry)))"

definition rmap_count :: "RmapState \<Rightarrow> nat" where
  "rmap_count r = sum_list (map (\<lambda>(_, v). length v) (rmap r))"

definition reset_rmap_stats :: "RmapState \<Rightarrow> RmapState" where
  "reset_rmap_stats r = r\<lparr>rmap_adds := 0, rmap_removes := 0, rmap_lookups := 0, mig_read := 0, mig_write := 0\<rparr>"

definition rmap_new :: RmapState where
  "rmap_new = \<lparr>rmap = [], rmap_adds = 0, rmap_removes = 0, rmap_lookups = 0, mig_read = 0, mig_write = 0\<rparr>"

section \<open>The invariant and the meaning of the map\<close>

definition rmap_wf :: "RmapState \<Rightarrow> bool" where
  "rmap_wf r \<longleftrightarrow> bt_sorted (rmap r) \<and> (\<forall>(k, v) \<in> set (rmap r). v \<noteq> [])"

definition users :: "RmapState \<Rightarrow> PhysAddr \<Rightarrow> RmapEntry list" where
  "users r phys = (case map_of (rmap r) phys of Some vec \<Rightarrow> vec | None \<Rightarrow> [])"

lemma rmap_wfD: "rmap_wf r \<Longrightarrow> map_of (rmap r) k = Some v \<Longrightarrow> v \<noteq> []"
  using map_of_sorted [of "rmap r" k v] by (auto simp: rmap_wf_def)

lemma rmap_wf_insert:
  assumes "rmap_wf r" "v \<noteq> []"
  shows "rmap_wf (r\<lparr>rmap := bt_insert k v (rmap r)\<rparr>)"
proof -
  have s: "bt_sorted (bt_insert k v (rmap r))"
    using assms(1) by (simp add: rmap_wf_def bt_insert_sorted)
  have "v' \<noteq> []" if "(k', v') \<in> set (bt_insert k v (rmap r))" for k' v'
  proof -
    have "map_of (bt_insert k v (rmap r)) k' = Some v'"
      using map_of_sorted [OF s] that by simp
    then show ?thesis
      using assms rmap_wfD [OF assms(1), of k' v']
      by (auto simp: map_of_bt_insert rmap_wf_def split: if_splits)
  qed
  then show ?thesis
    using s by (auto simp: rmap_wf_def)
qed

lemma rmap_wf_remove: "rmap_wf r \<Longrightarrow> rmap_wf (r\<lparr>rmap := bt_remove k (rmap r)\<rparr>)"
  by (auto simp: rmap_wf_def bt_remove_sorted) (auto simp: bt_remove_def)

lemma rmap_wf_counters [simp]:
  "rmap_wf (r\<lparr>rmap_adds := a\<rparr>) = rmap_wf r" "rmap_wf (r\<lparr>rmap_removes := a\<rparr>) = rmap_wf r"
  "rmap_wf (r\<lparr>rmap_lookups := a\<rparr>) = rmap_wf r" "rmap_wf (r\<lparr>mig_read := a\<rparr>) = rmap_wf r"
  "rmap_wf (r\<lparr>mig_write := a\<rparr>) = rmap_wf r"
  by (simp_all add: rmap_wf_def)

lemma rmap_add_wf: "rmap_wf r \<Longrightarrow> rmap_wf (rmap_add phys p4 v fl r)"
  using rmap_wf_insert [of "r\<lparr>rmap_adds := rmap_adds r + 1\<rparr>"] by (simp add: rmap_add_def Let_def)

lemma rmap_remove_wf: "rmap_wf r \<Longrightarrow> rmap_wf (rmap_remove phys p4 v r)"
  using rmap_wf_insert [of "r\<lparr>rmap_removes := rmap_removes r + 1\<rparr>"]
    rmap_wf_remove [of "r\<lparr>rmap_removes := rmap_removes r + 1\<rparr>"]
  by (simp add: rmap_remove_def Let_def split: option.split)

lemma users_add:
  assumes "rmap_wf r"
  shows "users (rmap_add phys p4 v fl r) q =
    (if q = phys then users r q @ [\<lparr>re_p4_phys = p4, re_vaddr = v, re_flags = fl\<rparr>] else users r q)"
  using assms by (simp add: users_def rmap_add_def Let_def map_of_bt_insert rmap_wf_def split: option.split)

lemma users_remove:
  assumes "rmap_wf r"
  shows "users (rmap_remove phys p4 v r) q =
    (if q = phys then filter (\<lambda>e. \<not> (re_p4_phys e = p4 \<and> re_vaddr e = v)) (users r q) else users r q)"
  using assms by (auto simp: users_def rmap_remove_def Let_def map_of_bt_insert map_of_bt_remove rmap_wf_def
      filter_empty_conv split: option.split)

lemma users_any:
  assumes "rmap_wf r"
  shows "rmap_any r = None \<longleftrightarrow> (\<forall>q. users r q = [])"
    "rmap_any r = Some (k, e) \<Longrightarrow> users r k \<noteq> [] \<and> e = hd (users r k) \<and> (\<forall>q. users r q \<noteq> [] \<longrightarrow> k \<le> q)"
proof -
  have "rmap_any r = None \<longleftrightarrow> rmap r = []"
    using assms by (auto simp: rmap_any_def rmap_wf_def split: list.split)
  moreover have "rmap r = [] \<longleftrightarrow> (\<forall>q. users r q = [])"
  proof (cases "rmap r")
    case (Cons b m)
    then have "users r (fst b) \<noteq> []"
      using assms by (cases b) (auto simp: users_def rmap_wf_def)
    then show ?thesis
      using Cons by auto
  qed (simp add: users_def)
  ultimately show "rmap_any r = None \<longleftrightarrow> (\<forall>q. users r q = [])"
    by simp
  assume a: "rmap_any r = Some (k, e)"
  then obtain es m where m: "rmap r = (k, e # es) # m"
    by (auto simp: rmap_any_def split: list.splits)
  have "k \<le> q" if "users r q \<noteq> []" for q
  proof -
    have "q \<in> fst ` set (rmap r)"
      using that by (auto simp: users_def split: option.splits dest: map_of_SomeD intro: rev_image_eqI)
    then show ?thesis
      using assms m by (force simp: rmap_wf_def)
  qed
  then show "users r k \<noteq> [] \<and> e = hd (users r k) \<and> (\<forall>q. users r q \<noteq> [] \<longrightarrow> k \<le> q)"
    using m by (simp add: users_def)
qed

text \<open>Adding a mapping to the reverse map and removing it again leaves the users of every frame as
  they were, provided that the page was not yet recorded for the frame; in between, exactly one
  user has been appended, and both states are well formed (ordered, no frame without users).\<close>

theorem rmap_add_remove:
  assumes "rmap_wf r" "\<forall>e\<in>set (users r phys). \<not> (re_p4_phys e = p4 \<and> re_vaddr e = v)"
  shows "rmap_wf (rmap_add phys p4 v fl r)
    \<and> users (rmap_add phys p4 v fl r) phys = users r phys @ [\<lparr>re_p4_phys = p4, re_vaddr = v, re_flags = fl\<rparr>]
    \<and> rmap_wf (rmap_remove phys p4 v (rmap_add phys p4 v fl r))
    \<and> users (rmap_remove phys p4 v (rmap_add phys p4 v fl r)) = users r"
proof -
  have f: "filter (\<lambda>e. \<not> (re_p4_phys e = p4 \<and> re_vaddr e = v)) (users r phys) = users r phys"
    using assms(2) by (simp add: filter_id_conv)
  note wf = rmap_add_wf [OF assms(1)]
  show ?thesis
    using assms(1) f by (auto simp: wf rmap_remove_wf users_add users_remove fun_eq_iff)
qed

theorem rmap_add_remove_witness:
  "users (rmap_remove 0x5000 0x1000 0x400000 (rmap_add 0x5000 0x1000 0x400000 7 rmap_new)) = users rmap_new"
  using rmap_add_remove [of rmap_new "0x5000" "0x1000" "0x400000" 7]
  by (simp add: rmap_wf_def rmap_new_def users_def)

end
