(* ===== verification/Mapper.thy ===== *)
theory Mapper
  imports Rmap FrameAllocator "HOL-Library.Sublist"
begin

text \<open>
  The page tables and the mapper that edits them (\<open>mm/src/mapper.rs\<close> and the table counts of
  \<open>mm/src/page_table.rs\<close>).

  Physical memory is reached through a direct map, so a table is identified by the physical
  address of its frame: \<open>mm_pt st a i\<close> is entry \<open>i\<close> of the table at \<open>a\<close>, and
  \<open>table_phys (phys_to_virt a) = a\<close>. The state also holds the side table of entry counts, the frame
  allocator, the reverse map, the id of the running CPU and the list of pages for which a flush
  was requested. \<open>None\<close> is a panic or a null metadata pointer in the allocator; errors are \<open>Err\<close>.
\<close>

section \<open>State\<close>

record MmState =
  mm_pt :: "PhysAddr \<Rightarrow> nat \<Rightarrow> PageTableEntry"
  mm_counts :: "((nat \<Rightarrow> u16) \<times> nat) option"
  mm_pmm :: LazyBuddyAllocator
  mm_rmap :: RmapState
  mm_cpu :: nat
  mm_flushed :: "VirtAddr list"

definition ENTRY_COUNT :: nat where "ENTRY_COUNT = 512"

section \<open>The counts of used entries\<close>

definition init_page_table_counts :: "(nat \<Rightarrow> u16) \<Rightarrow> nat \<Rightarrow> MmState \<Rightarrow> MmState" where
  "init_page_table_counts base len st =
    (case mm_counts st of None \<Rightarrow> st\<lparr>mm_counts := Some (base, len)\<rparr> | Some _ \<Rightarrow> st)"

definition pfn_of_table :: "PhysAddr \<Rightarrow> nat" where
  "pfn_of_table phys = unat phys div 4096"

definition inc_table_count :: "PhysAddr \<Rightarrow> MmState \<Rightarrow> MmState" where
  "inc_table_count phys st =
    (case mm_counts st of
       None \<Rightarrow> st
     | Some (base, len) \<Rightarrow>
         let idx = pfn_of_table phys
         in if idx < len then st\<lparr>mm_counts := Some (base(idx := base idx + 1), len)\<rparr> else st)"

definition dec_table_count :: "PhysAddr \<Rightarrow> MmState \<Rightarrow> MmState" where
  "dec_table_count phys st =
    (case mm_counts st of
       None \<Rightarrow> st
     | Some (base, len) \<Rightarrow>
         let idx = pfn_of_table phys
         in if idx < len then st\<lparr>mm_counts := Some (base(idx := base idx - 1), len)\<rparr> else st)"

definition table_count :: "PhysAddr \<Rightarrow> MmState \<Rightarrow> u16 option" where
  "table_count phys st =
    (case mm_counts st of
       None \<Rightarrow> None
     | Some (base, len) \<Rightarrow> let idx = pfn_of_table phys in if idx < len then Some (base idx) else None)"

definition zero_table :: "PhysAddr \<Rightarrow> MmState \<Rightarrow> MmState" where
  "zero_table t st = st\<lparr>mm_pt := (mm_pt st)(t := (\<lambda>_. set_unused 0))\<rparr>"

definition used_count :: "PhysAddr \<Rightarrow> MmState \<Rightarrow> u16" where
  "used_count t st = of_nat (length (filter (\<lambda>i. contains (entry_flags (mm_pt st t i)) PRESENT) [0..<ENTRY_COUNT]))"

section \<open>Walking and extending the tables\<close>

definition write_entry :: "PhysAddr \<Rightarrow> nat \<Rightarrow> PageTableEntry \<Rightarrow> MmState \<Rightarrow> MmState" where
  "write_entry t i e st = st\<lparr>mm_pt := (mm_pt st)(t := (mm_pt st t)(i := e))\<rparr>"

definition flush_page :: "bool \<Rightarrow> VirtAddr \<Rightarrow> MmState \<Rightarrow> MmState" where
  "flush_page flush page st = (if flush then st\<lparr>mm_flushed := page # mm_flushed st\<rparr> else st)"

text \<open>In the branch that creates a table the name \<open>table\<close> is rebound to the new table before
  \<open>table_phys(table)\<close> is taken, so the count of the new table is raised, not that of its parent.\<close>

definition get_next_table_by_index :: "PhysAddr \<Rightarrow> nat \<Rightarrow> MmState \<Rightarrow> ((PhysAddr, MapError) result \<times> MmState) option" where
  "get_next_table_by_index table index st =
    (let entry = mm_pt st table index
     in if contains (entry_flags entry) PRESENT then
          (if contains (entry_flags entry) HUGE_PAGE then Some (Err ParentEntryHugePage, st)
           else Some (Ok (entry_addr entry), st))
        else do {
          (frame, pmm) \<leftarrow> allocate_frame (mm_cpu st) (mm_pmm st);
          let st = st\<lparr>mm_pmm := pmm\<rparr>;
          (case frame of
             None \<Rightarrow> Some (Err MapFrameAllocationFailed, st)
           | Some phys \<Rightarrow>
               if phys = 0 then None
               else do {
                 let st = zero_table phys st;
                 entry \<leftarrow> set_addr phys (PRESENT OR WRITABLE OR USER_ACCESSIBLE);
                 let st = write_entry table index entry st;
                 Some (Ok phys, inc_table_count phys st)
               })
        })"

definition table_empty :: "PhysAddr \<Rightarrow> MmState \<Rightarrow> bool" where
  "table_empty t st = (case table_count t st of Some c \<Rightarrow> c = 0 | None \<Rightarrow> used_count t st = 0)"

text \<open>Setting a leaf entry: \<open>set_addr\<close> and the count of its table.\<close>

definition set_leaf :: "PhysAddr \<Rightarrow> nat \<Rightarrow> PhysAddr \<Rightarrow> PageTableFlags \<Rightarrow> MmState \<Rightarrow> MmState option" where
  "set_leaf t i frame flags st =
    do {
      e \<leftarrow> set_addr frame flags;
      Some (inc_table_count t (write_entry t i e st))
    }"

definition map_1g ::
  "PhysAddr \<Rightarrow> VirtAddr \<Rightarrow> PhysAddr \<Rightarrow> PageTableFlags \<Rightarrow> bool \<Rightarrow> MmState \<Rightarrow> ((unit, MapError) result \<times> MmState) option" where
  "map_1g p3 page frame flags flush st =
    (if \<not> is_unused (mm_pt st p3 (p3_index page)) then Some (Err PageAlreadyMapped, st)
     else do {
       st \<leftarrow> set_leaf p3 (p3_index page) frame (flags OR PRESENT OR HUGE_PAGE) st;
       Some (Ok (), flush_page flush page st)
     })"

definition map_2m ::
  "PhysAddr \<Rightarrow> VirtAddr \<Rightarrow> PhysAddr \<Rightarrow> PageTableFlags \<Rightarrow> bool \<Rightarrow> MmState \<Rightarrow> ((unit, MapError) result \<times> MmState) option" where
  "map_2m p2 page frame flags flush st =
    (if \<not> is_unused (mm_pt st p2 (p2_index page)) then Some (Err PageAlreadyMapped, st)
     else if \<not> is_aligned page 0x200000 \<or> \<not> is_aligned frame 0x200000 then Some (Err HugePageNotAligned, st)
     else do {
       st \<leftarrow> set_leaf p2 (p2_index page) frame (flags OR PRESENT OR HUGE_PAGE) st;
       Some (Ok (), flush_page flush page st)
     })"

definition map_4k ::
  "PhysAddr \<Rightarrow> PhysAddr \<Rightarrow> VirtAddr \<Rightarrow> PhysAddr \<Rightarrow> PageTableFlags \<Rightarrow> bool \<Rightarrow> MmState \<Rightarrow> ((unit, MapError) result \<times> MmState) option" where
  "map_4k p4 p1 page frame flags flush st =
    (if \<not> is_unused (mm_pt st p1 (p1_index page)) then Some (Err PageAlreadyMapped, st)
     else do {
       st \<leftarrow> set_leaf p1 (p1_index page) frame (flags OR PRESENT) st;
       let st = (if contains flags USER_ACCESSIBLE
                 then st\<lparr>mm_rmap := rmap_add frame p4 page flags (mm_rmap st)\<rparr> else st);
       Some (Ok (), flush_page flush page st)
     })"

definition map_page_inner ::
  "PhysAddr \<Rightarrow> VirtAddr \<Rightarrow> PhysAddr \<Rightarrow> PageTableFlags \<Rightarrow> bool \<Rightarrow> MmState \<Rightarrow> ((unit, MapError) result \<times> MmState) option" where
  "map_page_inner p4 page frame flags flush st =
    ebind (get_next_table_by_index p4 (p4_index page) st) (\<lambda>p3 st.
      if contains flags HUGE_PAGE \<and> is_aligned page 0x40000000 \<and> is_aligned frame 0x40000000 then
        map_1g p3 page frame flags flush st
      else
        ebind (get_next_table_by_index p3 (p3_index page) st) (\<lambda>p2 st.
          if contains flags HUGE_PAGE then map_2m p2 page frame flags flush st
          else
            ebind (get_next_table_by_index p2 (p2_index page) st) (\<lambda>p1 st.
              map_4k p4 p1 page frame flags flush st)))"

definition map_page :: "PhysAddr \<Rightarrow> VirtAddr \<Rightarrow> PhysAddr \<Rightarrow> PageTableFlags \<Rightarrow> MmState \<Rightarrow> ((unit, MapError) result \<times> MmState) option" where
  "map_page p4 page frame flags st =
    map_page_inner p4 page frame flags True (st\<lparr>mm_rmap := migration_read_lock (mm_rmap st)\<rparr>)"

definition map_page_noflush :: "PhysAddr \<Rightarrow> VirtAddr \<Rightarrow> PhysAddr \<Rightarrow> PageTableFlags \<Rightarrow> MmState \<Rightarrow> ((unit, MapError) result \<times> MmState) option" where
  "map_page_noflush p4 page frame flags st =
    map_page_inner p4 page frame flags False (st\<lparr>mm_rmap := migration_read_lock (mm_rmap st)\<rparr>)"

definition translate :: "PhysAddr \<Rightarrow> VirtAddr \<Rightarrow> MmState \<Rightarrow> PhysAddr option" where
  "translate p4 addr st =
    (let p4_entry = mm_pt st p4 (p4_index addr)
     in if \<not> contains (entry_flags p4_entry) PRESENT then None
        else let p3_entry = mm_pt st (entry_addr p4_entry) (p3_index addr)
        in if \<not> contains (entry_flags p3_entry) PRESENT then None
        else if contains (entry_flags p3_entry) HUGE_PAGE then Some (entry_addr p3_entry + (addr AND 0x3fffffff))
        else let p2_entry = mm_pt st (entry_addr p3_entry) (p2_index addr)
        in if \<not> contains (entry_flags p2_entry) PRESENT then None
        else if contains (entry_flags p2_entry) HUGE_PAGE then Some (entry_addr p2_entry + (addr AND 0x1fffff))
        else let p1_entry = mm_pt st (entry_addr p2_entry) (p1_index addr)
        in if \<not> contains (entry_flags p1_entry) PRESENT then None
        else Some (entry_addr p1_entry + (addr AND 0xfff)))"

section \<open>Unmapping\<close>

text \<open>Clearing a leaf entry and lowering the count of its table.\<close>

definition clear_leaf :: "PhysAddr \<Rightarrow> nat \<Rightarrow> MmState \<Rightarrow> MmState" where
  "clear_leaf t i st = dec_table_count t (write_entry t i (set_unused (mm_pt st t i)) st)"

text \<open>Giving back an empty table: the frame named by the parent's entry is deallocated, the entry
  cleared and the parent's count lowered.\<close>

definition free_table :: "PhysAddr \<Rightarrow> nat \<Rightarrow> MmState \<Rightarrow> MmState option" where
  "free_table parent i st =
    do {
      pmm \<leftarrow> deallocate_frame (mm_cpu st) (entry_addr (mm_pt st parent i)) (mm_pmm st);
      Some (clear_leaf parent i (st\<lparr>mm_pmm := pmm\<rparr>))
    }"

definition prune_p3 :: "PhysAddr \<Rightarrow> nat \<Rightarrow> PhysAddr \<Rightarrow> MmState \<Rightarrow> MmState option" where
  "prune_p3 p4 i4 p3 st = (if table_empty p3 st then free_table p4 i4 st else Some st)"

definition prune_p2 :: "PhysAddr \<Rightarrow> nat \<Rightarrow> PhysAddr \<Rightarrow> nat \<Rightarrow> PhysAddr \<Rightarrow> MmState \<Rightarrow> MmState option" where
  "prune_p2 p4 i4 p3 i3 p2 st =
    (if table_empty p2 st then do { st \<leftarrow> free_table p3 i3 st; prune_p3 p4 i4 p3 st } else Some st)"

definition prune_p1 ::
  "PhysAddr \<Rightarrow> nat \<Rightarrow> PhysAddr \<Rightarrow> nat \<Rightarrow> PhysAddr \<Rightarrow> nat \<Rightarrow> PhysAddr \<Rightarrow> MmState \<Rightarrow> MmState option" where
  "prune_p1 p4 i4 p3 i3 p2 i2 p1 st =
    (if table_empty p1 st then do { st \<leftarrow> free_table p2 i2 st; prune_p2 p4 i4 p3 i3 p2 st } else Some st)"

definition unmap_page_inner :: "PhysAddr \<Rightarrow> VirtAddr \<Rightarrow> bool \<Rightarrow> MmState \<Rightarrow> ((PhysAddr, MapError) result \<times> MmState) option" where
  "unmap_page_inner p4 page flush st =
    (let i4 = p4_index page; i3 = p3_index page; i2 = p2_index page; i1 = p1_index page;
         p4_entry = mm_pt st p4 i4
     in if \<not> contains (entry_flags p4_entry) PRESENT then Some (Err PageNotMapped, st)
     else let p3 = entry_addr p4_entry; p3_entry = mm_pt st p3 i3
     in if \<not> contains (entry_flags p3_entry) PRESENT then Some (Err PageNotMapped, st)
     else if contains (entry_flags p3_entry) HUGE_PAGE then
       do {
         st \<leftarrow> prune_p3 p4 i4 p3 (flush_page flush page (clear_leaf p3 i3 st));
         Some (Ok (entry_frame p3_entry), st)
       }
     else let p2 = entry_addr p3_entry; p2_entry = mm_pt st p2 i2
     in if \<not> contains (entry_flags p2_entry) PRESENT then Some (Err PageNotMapped, st)
     else if contains (entry_flags p2_entry) HUGE_PAGE then
       do {
         st \<leftarrow> prune_p2 p4 i4 p3 i3 p2 (flush_page flush page (clear_leaf p2 i2 st));
         Some (Ok (entry_frame p2_entry), st)
       }
     else let p1 = entry_addr p2_entry; p1_entry = mm_pt st p1 i1
     in if \<not> contains (entry_flags p1_entry) PRESENT then Some (Err PageNotMapped, st)
     else do {
         let frame = entry_frame p1_entry;
         let st = clear_leaf p1 i1 st;
         let st = (if contains (entry_flags p1_entry) USER_ACCESSIBLE
                   then st\<lparr>mm_rmap := rmap_remove frame p4 page (mm_rmap st)\<rparr> else st);
         st \<leftarrow> prune_p1 p4 i4 p3 i3 p2 i2 p1 (flush_page flush page st);
         Some (Ok frame, st)
       })"

definition unmap_page :: "PhysAddr \<Rightarrow> VirtAddr \<Rightarrow> MmState \<Rightarrow> ((PhysAddr, MapError) result \<times> MmState) option" where
  "unmap_page p4 page st = unmap_page_inner p4 page True (st\<lparr>mm_rmap := migration_read_lock (mm_rmap st)\<rparr>)"

definition unmap_page_noflush :: "PhysAddr \<Rightarrow> VirtAddr \<Rightarrow> MmState \<Rightarrow> ((PhysAddr, MapError) result \<times> MmState) option" where
  "unmap_page_noflush p4 page st = unmap_page_inner p4 page False (st\<lparr>mm_rmap := migration_read_lock (mm_rmap st)\<rparr>)"

definition migrate_page_nolock ::
  "PhysAddr \<Rightarrow> VirtAddr \<Rightarrow> PhysAddr \<Rightarrow> PageTableFlags \<Rightarrow> MmState \<Rightarrow> ((PhysAddr, MapError) result \<times> MmState) option" where
  "migrate_page_nolock p4 page new_frame flags st =
    ebind (unmap_page_inner p4 page False st) (\<lambda>old st.
      do {
        (r, st) \<leftarrow> map_page_inner p4 page new_frame flags True st;
        (case r of
           Ok _ \<Rightarrow> Some (Ok old, st)
         | Err e \<Rightarrow> do { (_, st) \<leftarrow> map_page_inner p4 page old flags True st; Some (Err e, st) })
      })"

section \<open>Walks\<close>

abbreviation present :: "PageTableEntry \<Rightarrow> bool" where
  "present e \<equiv> contains (entry_flags e) PRESENT"

abbreviation huge :: "PageTableEntry \<Rightarrow> bool" where
  "huge e \<equiv> contains (entry_flags e) HUGE_PAGE"

text \<open>\<open>child pt t i\<close> is the table that entry \<open>i\<close> of table \<open>t\<close> leads to, \<open>reach\<close> follows a list of
  indices, and \<open>walk\<close> finds the leaf entry for a list of indices, with the number of indices that
  are left over.\<close>

type_synonym tables = "PhysAddr \<Rightarrow> nat \<Rightarrow> PageTableEntry"

definition child :: "tables \<Rightarrow> PhysAddr \<Rightarrow> nat \<Rightarrow> PhysAddr option" where
  "child pt t i = (if present (pt t i) \<and> \<not> huge (pt t i) then Some (entry_addr (pt t i)) else None)"

fun reach :: "tables \<Rightarrow> PhysAddr \<Rightarrow> nat list \<Rightarrow> PhysAddr option" where
  "reach pt t [] = Some t"
| "reach pt t (i # is) = Option.bind (child pt t i) (\<lambda>t'. reach pt t' is)"

fun walk :: "tables \<Rightarrow> PhysAddr \<Rightarrow> nat list \<Rightarrow> (nat \<times> PageTableEntry) option" where
  "walk pt t [] = None"
| "walk pt t (i # is) =
    (if \<not> present (pt t i) then None
     else if is = [] \<or> huge (pt t i) then Some (length is, pt t i)
     else walk pt (entry_addr (pt t i)) is)"

definition indices :: "VirtAddr \<Rightarrow> nat list" where
  "indices a = [p4_index a, p3_index a, p2_index a, p1_index a]"

text \<open>The tables below a root form a tree: \<open>lv\<close> gives the level of each table of it (4 for the
  root only), entries lead one level down, and no table is reached from two entries. Entries of
  the root are not leaves.\<close>

definition tree :: "tables \<Rightarrow> PhysAddr \<Rightarrow> (PhysAddr \<Rightarrow> nat option) \<Rightarrow> bool" where
  "tree pt root lv \<longleftrightarrow>
     (\<forall>t. lv t = Some 4 \<longleftrightarrow> t = root) \<and> (\<forall>t l. lv t = Some l \<longrightarrow> 1 \<le> l \<and> l \<le> 4)
   \<and> (\<forall>t l i t'. lv t = Some l \<longrightarrow> 2 \<le> l \<longrightarrow> i < 512 \<longrightarrow> child pt t i = Some t' \<longrightarrow> lv t' = Some (l - 1))
   \<and> (\<forall>t l i u m j t'. lv t = Some l \<longrightarrow> 2 \<le> l \<longrightarrow> i < 512 \<longrightarrow> lv u = Some m \<longrightarrow> 2 \<le> m \<longrightarrow> j < 512 \<longrightarrow>
        child pt t i = Some t' \<longrightarrow> child pt u j = Some t' \<longrightarrow> t = u \<and> i = j)
   \<and> (\<forall>i<512. \<not> huge (pt root i))"

lemma treeD:
  assumes "tree pt root lv"
  shows "lv t = Some 4 \<longleftrightarrow> t = root" "lv t = Some l \<Longrightarrow> 1 \<le> l \<and> l \<le> 4"
    "lv t = Some l \<Longrightarrow> 2 \<le> l \<Longrightarrow> i < 512 \<Longrightarrow> child pt t i = Some t' \<Longrightarrow> lv t' = Some (l - 1)"
    "lv t = Some l \<Longrightarrow> 2 \<le> l \<Longrightarrow> i < 512 \<Longrightarrow> lv u = Some m \<Longrightarrow> 2 \<le> m \<Longrightarrow> j < 512 \<Longrightarrow>
       child pt t i = Some t' \<Longrightarrow> child pt u j = Some t' \<Longrightarrow> t = u \<and> i = j"
    "i < 512 \<Longrightarrow> \<not> huge (pt root i)"
  using assms unfolding tree_def by blast+

lemma reach_append: "reach pt t (is @ js) = Option.bind (reach pt t is) (\<lambda>u. reach pt u js)"
proof (induction "is" arbitrary: t)
  case (Cons i "is")
  then show ?case
    by (cases "child pt t i") simp_all
qed simp

lemma reach_snoc: "reach pt t (is @ [i]) = Option.bind (reach pt t is) (\<lambda>u. child pt u i)"
  by (simp add: reach_append)

lemma reach_level:
  assumes "tree pt root lv" "lv t = Some l" "reach pt t is = Some u" "length is < l" "\<forall>i\<in>set is. i < 512"
  shows "lv u = Some (l - length is)"
  using assms(2-5)
proof (induction "is" arbitrary: t l)
  case (Cons i "is")
  then obtain t' where t': "child pt t i = Some t'" "reach pt t' is = Some u"
    by (cases "child pt t i") auto
  have "lv t' = Some (l - 1)"
    using treeD(3) [OF assms(1) Cons.prems(1) _ _ t'(1)] Cons.prems(3,4) by simp
  then show ?case
    using Cons.IH [OF _ t'(2)] Cons.prems(3,4) by simp
qed simp

text \<open>A table is reached along one path only.\<close>

lemma reach_unique:
  assumes "tree pt root lv" "reach pt root is = Some t" "reach pt root js = Some t"
    "length is < 4" "length js < 4" "\<forall>i\<in>set is. i < 512" "\<forall>i\<in>set js. i < 512"
  shows "is = js"
  using assms(2-7)
proof (induction "is" arbitrary: js t rule: rev_induct)
  case Nil
  have "lv root = Some 4"
    using treeD(1) [OF assms(1)] by blast
  then show ?case
    using reach_level [OF assms(1), of root 4 js t] Nil by (cases js) auto
next
  case (snoc i "is")
  have r4: "lv root = Some 4"
    using treeD(1) [OF assms(1)] by blast
  have l1: "lv t = Some (4 - length (is @ [i]))" "lv t = Some (4 - length js)"
    using reach_level [OF assms(1) r4 snoc.prems(1)] reach_level [OF assms(1) r4 snoc.prems(2)] snoc.prems(3-6)
    by simp_all
  then have "js \<noteq> []"
    using snoc.prems(3,4) by auto
  then obtain js' j where js: "js = js' @ [j]"
    by (meson rev_exhaust)
  obtain u where u: "reach pt root is = Some u" "child pt u i = Some t"
    using snoc.prems(1) by (auto simp: reach_snoc bind_eq_Some_conv)
  obtain v where v: "reach pt root js' = Some v" "child pt v j = Some t"
    using snoc.prems(2) js by (auto simp: reach_snoc bind_eq_Some_conv)
  have "lv u = Some (4 - length is)" "lv v = Some (4 - length js')"
    using reach_level [OF assms(1) r4 u(1)] reach_level [OF assms(1) r4 v(1)] snoc.prems(3-6) js by simp_all
  then have "u = v" "i = j"
    using treeD(4) [OF assms(1) _ _ _ _ _ _ u(2) v(2)] snoc.prems(3-6) js by auto
  then show ?case
    using snoc.IH [OF u(1)] v(1) js snoc.prems(3-6) by simp
qed

text \<open>Where a walk of the indices passes a table, it continues from there.\<close>

lemma walk_reach:
  assumes "reach pt t pre = Some u" "rest \<noteq> []"
  shows "walk pt t (pre @ rest) = walk pt u rest"
  using assms
proof (induction pre arbitrary: t)
  case (Cons i pre)
  then show ?case
    by (auto simp: child_def split: if_splits)
qed simp

text \<open>A change of tables outside the tree is not seen by a walk, and a change of one entry is seen
  only by the walks that pass it.\<close>

lemma walk_same:
  assumes "tree pt root lv" "lv t = Some (length is)" "\<forall>i\<in>set is. i < 512" "reach pt root pre = Some t"
    "length pre + length is = 4" "\<forall>i\<in>set pre. i < 512"
    "\<And>u j js. reach pt root js = Some u \<Longrightarrow> length js < 4 \<Longrightarrow> prefix (js @ [j]) (pre @ is) \<Longrightarrow> pt' u j = pt u j"
  shows "walk pt' t is = walk pt t is"
  using assms(2-7)
proof (induction "is" arbitrary: t pre)
  case (Cons i "is")
  have e: "pt' t i = pt t i"
    by (rule Cons.prems(6) [OF Cons.prems(3)]) (use Cons.prems(4) in simp_all)
  show ?case
  proof (cases "present (pt t i) \<and> \<not> huge (pt t i) \<and> is \<noteq> []")
    case True
    let ?t = "entry_addr (pt t i)"
    have c: "child pt t i = Some ?t"
      using True by (simp add: child_def)
    have r: "reach pt root (pre @ [i]) = Some ?t"
      using Cons.prems(3) c by (simp add: reach_snoc)
    have "lv ?t = Some (length is)"
      using treeD(3) [OF assms(1) Cons.prems(1) _ _ c] Cons.prems(2) True by (cases "is") auto
    then have "walk pt' ?t is = walk pt ?t is"
      using Cons.IH [of ?t "pre @ [i]"] r Cons.prems(2,4,5,6) by simp
    then show ?thesis
      using e True by simp
  next
    case False
    then show ?thesis
      using e by auto
  qed
qed simp

lemma walk_root_same:
  assumes "tree pt root lv" "length is = 4" "\<forall>i\<in>set is. i < 512"
    "\<And>u j js. reach pt root js = Some u \<Longrightarrow> length js < 4 \<Longrightarrow> prefix (js @ [j]) is \<Longrightarrow> pt' u j = pt u j"
  shows "walk pt' root is = walk pt root is"
proof -
  have "lv root = Some (length is)"
    using treeD(1) [OF assms(1)] assms(2) by simp
  from walk_same [OF assms(1) this assms(3), of "[]" pt'] show ?thesis
    using assms(2,4) by simp
qed

lemma reach_in_tree:
  assumes "tree pt root lv" "reach pt root js = Some u" "length js < 4" "\<forall>i\<in>set js. i < 512"
  shows "lv u = Some (4 - length js)"
  using reach_level [OF assms(1) _ assms(2-4)] treeD(1) [OF assms(1)] by blast

lemma walk_outside:
  assumes "tree pt root lv" "lv u = None" "length is = 4" "\<forall>i\<in>set is. i < 512"
  shows "walk (pt(u := f)) root is = walk pt root is"
proof (rule walk_root_same [OF assms(1,3,4)])
  fix v j js
  assume a: "reach pt root js = Some v" "length js < 4" "prefix (js @ [j]) is"
  then have "\<forall>i\<in>set js. i < 512"
    using assms(4) set_mono_prefix by fastforce
  then have "lv v \<noteq> None"
    using reach_in_tree [OF assms(1) a(1,2)] by simp
  then show "(pt(u := f)) v j = pt v j"
    using assms(2) by auto
qed

lemma walk_write:
  assumes "tree pt root lv" "reach pt root pre = Some t" "length pre < 4" "\<forall>i\<in>set pre. i < 512"
    "length is = 4" "\<forall>i\<in>set is. i < 512" "\<not> prefix (pre @ [i]) is"
  shows "walk (pt(t := (pt t)(i := e))) root is = walk pt root is"
proof (rule walk_root_same [OF assms(1,5,6)])
  fix v j js
  assume a: "reach pt root js = Some v" "length js < 4" "prefix (js @ [j]) is"
  then have b: "\<forall>i\<in>set js. i < 512"
    using assms(6) set_mono_prefix by fastforce
  have "js = pre" if "v = t"
    using reach_unique [OF assms(1) a(1) _ a(2) assms(3) b assms(4)] assms(2) that by simp
  then show "(pt(t := (pt t)(i := e))) v j = pt v j"
    using assms(7) a(3) by auto
qed

abbreviation upd_entry :: "tables \<Rightarrow> PhysAddr \<Rightarrow> nat \<Rightarrow> PageTableEntry \<Rightarrow> tables" where
  "upd_entry pt t i e \<equiv> pt(t := (pt t)(i := e))"

lemma child_upd:
  "child (upd_entry pt t i e) u j =
    (if u = t \<and> j = i then if present e \<and> \<not> huge e then Some (entry_addr e) else None else child pt u j)"
  by (simp add: child_def)

lemma reach_upd:
  assumes "tree pt root lv" "reach pt root pre = Some t" "length pre < 4" "\<forall>i\<in>set pre. i < 512"
  shows "reach (upd_entry pt t i e) root pre = Some t"
proof -
  have "reach (upd_entry pt t i e) root js = reach pt root js" if "prefix js pre" for js
    using that
  proof (induction js rule: rev_induct)
    case (snoc j js)
    have js: "prefix js pre" "length js < length pre"
      using snoc.prems by (auto simp: prefix_def)
    then obtain u where u: "reach pt root js = Some u"
      using assms(2) by (auto simp: prefix_def reach_append bind_eq_Some_conv)
    have "lv u = Some (4 - length js)"
      using reach_in_tree [OF assms(1) u] js assms(3,4) set_mono_prefix [OF js(1)] by auto
    moreover have "lv t = Some (4 - length pre)"
      by (rule reach_in_tree [OF assms(1-4)])
    ultimately have "u \<noteq> t"
      using js(2) assms(3) by auto
    then show ?case
      using snoc.IH [OF js(1)] u by (simp add: reach_snoc child_upd del: fun_upd_apply)
  qed simp
  then show ?thesis
    using assms(2) by simp
qed

lemma walk_upd_leaf:
  assumes "tree pt root lv" "reach pt root pre = Some t" "length pre < 4" "\<forall>i\<in>set pre. i < 512"
    "\<not> present e \<or> rest = [] \<or> huge e"
  shows "walk (upd_entry pt t i e) root (pre @ i # rest) = (if present e then Some (length rest, e) else None)"
  using walk_reach [OF reach_upd [OF assms(1-4)], of "i # rest" i e] assms(5) by auto

lemma tree_cong:
  assumes "tree pt root lv" "\<And>u j l. lv u = Some l \<Longrightarrow> 2 \<le> l \<Longrightarrow> child pt' u j = child pt u j" "pt' root = pt root"
  shows "tree pt' root lv"
  unfolding tree_def
proof (intro conjI allI impI)
  fix t l i t'
  assume "lv t = Some l" "2 \<le> l" "i < 512" "child pt' t i = Some t'"
  then show "lv t' = Some (l - 1)"
    using treeD(3) [OF assms(1)] assms(2) by metis
next
  fix t l i u m j t'
  assume a: "lv t = Some l" "2 \<le> l" "i < 512" "lv u = Some m" "2 \<le> m" "j < 512"
    "child pt' t i = Some t'" "child pt' u j = Some t'"
  then show "t = u" "i = j"
    using treeD(4) [OF assms(1) a(1-6)] assms(2) by metis+
qed (use treeD(1,2,5) [OF assms(1)] assms(3) in auto)

lemma tree_leaf:
  assumes "tree pt root lv" "lv t = Some l" "l \<le> 3" "l = 1 \<or> child pt t i = None \<and> \<not> (present e \<and> \<not> huge e)"
  shows "tree (upd_entry pt t i e) root lv"
proof (rule tree_cong [OF assms(1)])
  fix u j m
  assume "lv u = Some m" "2 \<le> m"
  then show "child (upd_entry pt t i e) u j = child pt u j"
    using assms(2,4) by (auto simp: child_upd)
next
  have "t \<noteq> root"
    using treeD(1) [OF assms(1), of t] assms(2,3) by auto
  then show "(upd_entry pt t i e) root = pt root"
    by simp
qed

lemma child_new:
  assumes "child (upd_entry (pt(n := f)) t i e) u j = Some t'" "n \<noteq> t" "\<forall>j. \<not> present (f j)"
    "present e" "\<not> huge e" "entry_addr e = n"
  shows "u \<noteq> n" "(u = t \<and> j = i \<and> t' = n) \<or> child pt u j = Some t'"
  using assms by (auto simp: child_def split: if_splits)

lemma tree_link:
  assumes "tree pt root lv" "lv t = Some l" "2 \<le> l" "child pt t i = None" "lv n = None"
    "\<forall>j. \<not> present (f j)" "present e" "\<not> huge e" "entry_addr e = n"
  shows "tree (upd_entry (pt(n := f)) t i e) root (lv(n \<mapsto> l - 1))"
proof -
  let ?pt = "upd_entry (pt(n := f)) t i e" and ?lv = "lv(n \<mapsto> l - 1)"
  have nt: "n \<noteq> t" "n \<noteq> root"
    using assms(2,5) treeD(1) [OF assms(1), of root] by auto
  have l4: "l \<le> 4"
    using treeD(2) [OF assms(1,2)] by simp
  note cn = child_new [OF _ nt(1) assms(6-9)]
  have no: "child pt u j \<noteq> Some n" if "lv u = Some m" "2 \<le> m" "j < 512" for u m j
    using treeD(3) [OF assms(1) that, of n] assms(5) by auto
  show ?thesis
    unfolding tree_def
  proof (intro conjI allI impI)
    fix u
    show "(?lv u = Some 4) = (u = root)"
      using treeD(1) [OF assms(1), of u] nt l4 assms(3) by (cases "u = n") auto
  next
    fix u m
    assume "?lv u = Some m"
    then show "1 \<le> m" "m \<le> 4"
      using treeD(2) [OF assms(1), of u] assms(3) l4 by (auto split: if_splits)
  next
    fix u m j t'
    assume a: "?lv u = Some m" "2 \<le> m" "j < 512" "child ?pt u j = Some t'"
    have u: "lv u = Some m"
      using a(1) cn(1) [OF a(4)] by simp
    show "?lv t' = Some (m - 1)"
      using cn(2) [OF a(4)]
    proof
      assume "u = t \<and> j = i \<and> t' = n"
      then show ?thesis
        using u assms(2) by simp
    next
      assume c: "child pt u j = Some t'"
      then show ?thesis
        using treeD(3) [OF assms(1) u a(2,3) c] no [OF u a(2,3)] by auto
    qed
  next
    fix u m j v m' j' t'
    assume a: "?lv u = Some m" "2 \<le> m" "j < 512" "?lv v = Some m'" "2 \<le> m'" "j' < 512"
      "child ?pt u j = Some t'" "child ?pt v j' = Some t'"
    have lv: "lv u = Some m" "lv v = Some m'"
      using a(1,4) cn(1) [OF a(7)] cn(1) [OF a(8)] by auto
    show "u = v" "j = j'"
      using cn(2) [OF a(7)] cn(2) [OF a(8)] no [OF lv(1) a(2,3)] no [OF lv(2) a(5,6)]
        treeD(4) [OF assms(1) lv(1) a(2,3) lv(2) a(5,6), of t'] by blast+
  next
    fix j :: nat
    assume "j < 512"
    then show "\<not> huge (?pt root j)"
      using treeD(5) [OF assms(1), of j] nt assms(8) by (cases "t = root") auto
  qed
qed

lemma tree_outside:
  assumes "tree pt root lv" "lv n = None"
  shows "tree (pt(n := f)) root lv"
proof (rule tree_cong [OF assms(1)])
  show "child (pt(n := f)) u j = child pt u j" if "lv u = Some l" for u j l
    using that assms(2) by (auto simp: child_def)
  have "lv root = Some 4"
    using treeD(1) [OF assms(1), of root] by simp
  then show "(pt(n := f)) root = pt root"
    using assms(2) by auto
qed

lemma reach_outside:
  assumes "tree pt root lv" "reach pt root pre = Some t" "length pre < 4" "\<forall>i\<in>set pre. i < 512" "lv n = None"
  shows "reach (pt(n := f)) root pre = Some t"
proof -
  have "reach (pt(n := f)) root js = reach pt root js" if "prefix js pre" for js
    using that
  proof (induction js rule: rev_induct)
    case (snoc j js)
    have js: "prefix js pre" "length js < length pre"
      using snoc.prems by (auto simp: prefix_def)
    then obtain u where u: "reach pt root js = Some u"
      using assms(2) by (auto simp: prefix_def reach_append bind_eq_Some_conv)
    have "lv u = Some (4 - length js)"
      using reach_in_tree [OF assms(1) u] js assms(3,4) set_mono_prefix [OF js(1)] by auto
    then have "u \<noteq> n"
      using assms(5) by auto
    then show ?case
      using snoc.IH [OF js(1)] u by (simp add: reach_snoc child_def del: fun_upd_apply) (simp add: child_def)
  qed simp
  then show ?thesis
    using assms(2) by simp
qed

lemma walk_link:
  assumes "tree pt root lv" "reach pt root pre = Some t" "length pre < 3" "\<forall>i\<in>set pre. i < 512"
    "\<not> present (pt t i)" "lv n = None" "\<forall>j. \<not> present (f j)" "present e" "\<not> huge e" "entry_addr e = n"
    "length is = 4" "\<forall>i\<in>set is. i < 512"
  shows "walk (upd_entry (pt(n := f)) t i e) root is = walk pt root is"
proof -
  let ?pt1 = "pt(n := f)"
  have tr: "tree ?pt1 root lv" and re: "reach ?pt1 root pre = Some t"
    using tree_outside [OF assms(1,6)] reach_outside [OF assms(1,2) _ assms(4,6)] assms(3) by auto
  have "lv t \<noteq> None"
    using reach_in_tree [OF assms(1,2) _ assms(4)] assms(3) by simp
  then have tn: "t \<noteq> n"
    using assms(6) by auto
  have w: "walk ?pt1 root is = walk pt root is"
    by (rule walk_outside [OF assms(1,6,11,12)])
  show ?thesis
  proof (cases "prefix (pre @ [i]) is")
    case False
    then show ?thesis
      using walk_write [OF tr re _ assms(4,11,12)] assms(3) w by simp
  next
    case True
    then obtain rest where "is": "is = pre @ i # rest"
      by (auto simp: prefix_def)
    then obtain r rs where rest: "rest = r # rs"
      using assms(3,11) by (cases rest) auto
    have "walk ?pt1 root is = None"
      using walk_reach [OF re, of "i # rest"] "is" assms(5) tn by simp
    moreover have "walk (upd_entry ?pt1 t i e) root is = None"
      using walk_reach [OF reach_upd [OF tr re _ assms(4)], of "i # rest" i e] assms(3,7-10) "is" rest tn by simp
    ultimately show ?thesis
      using w by simp
  qed
qed

section \<open>The invariant of the mapper\<close>

text \<open>The count of a table below the root is above the number of its leaves: one for its creation
  and one for each leaf.\<close>

definition leaves :: "tables \<Rightarrow> nat \<Rightarrow> PhysAddr \<Rightarrow> nat set" where
  "leaves pt l t = {i. i < 512 \<and> present (pt t i) \<and> (l = 1 \<or> huge (pt t i))}"

definition counted :: "MmState \<Rightarrow> (PhysAddr \<Rightarrow> nat option) \<Rightarrow> bool" where
  "counted st lv \<longleftrightarrow> (\<forall>t l. lv t = Some l \<longrightarrow> l \<le> 3 \<longrightarrow>
     (\<exists>c. table_count t st = Some c \<and> card (leaves (mm_pt st) l t) < unat c))"

definition pmm_fits :: "MmState \<Rightarrow> bool" where
  "pmm_fits st \<longleftrightarrow> pmm_valid (mm_pmm st) \<and> total_frames (mm_pmm st) \<le> 2 ^ 40 \<and> 0 \<notin> avail (mm_pmm st)
     \<and> (\<exists>c. mm_counts st = Some (c, total_frames (mm_pmm st)))"

definition in_use :: "MmState \<Rightarrow> (PhysAddr \<Rightarrow> nat option) \<Rightarrow> bool" where
  "in_use st lv \<longleftrightarrow> (\<forall>t l. lv t = Some l \<longrightarrow>
     (\<exists>p. t = frame_address p \<and> p < total_frames (mm_pmm st) \<and> p \<notin> avail (mm_pmm st)))"

definition mapper_wf :: "MmState \<Rightarrow> PhysAddr \<Rightarrow> (PhysAddr \<Rightarrow> nat option) \<Rightarrow> bool" where
  "mapper_wf st root lv \<longleftrightarrow> tree (mm_pt st) root lv \<and> counted st lv \<and> pmm_fits st \<and> in_use st lv"

definition mapper_inv :: "MmState \<Rightarrow> PhysAddr \<Rightarrow> bool" where
  "mapper_inv st root \<longleftrightarrow> (\<exists>lv. mapper_wf st root lv)"

text \<open>No count is within \<open>n\<close> of the largest \<open>u16\<close>.\<close>

definition room :: "nat \<Rightarrow> MmState \<Rightarrow> bool" where
  "room n st \<longleftrightarrow> (\<forall>c len p. mm_counts st = Some (c, len) \<longrightarrow> p < len \<longrightarrow> unat (c p) + n < 2 ^ 16)"

definition same_walks :: "MmState \<Rightarrow> MmState \<Rightarrow> PhysAddr \<Rightarrow> bool" where
  "same_walks st st' root \<longleftrightarrow>
     (\<forall>is. length is = 4 \<longrightarrow> (\<forall>i\<in>set is. i < 512) \<longrightarrow> walk (mm_pt st') root is = walk (mm_pt st) root is)"

lemma same_walks_refl [simp]: "same_walks st st root"
  by (simp add: same_walks_def)

lemma same_walks_trans: "same_walks st st1 root \<Longrightarrow> same_walks st1 st2 root \<Longrightarrow> same_walks st st2 root"
  by (simp add: same_walks_def)

lemma room_mono: "room n st \<Longrightarrow> m \<le> n \<Longrightarrow> room m st"
  by (fastforce simp: room_def)

section \<open>Addresses of frames\<close>

lemma unat_frame_address: "p < 2 ^ 52 \<Longrightarrow> unat (frame_address p) = p * 4096"
  unfolding frame_address_def by (intro of_nat_inverse) simp_all

lemma pfn_frame_address: "p < 2 ^ 52 \<Longrightarrow> pfn_of_table (frame_address p) = p"
  by (simp add: pfn_of_table_def unat_frame_address)

lemma frame_address_aligned: "p < 2 ^ 52 \<Longrightarrow> is_aligned (frame_address p) 4096"
  by (simp add: is_aligned_unat unat_frame_address)

lemma frame_address_eq: "p < 2 ^ 52 \<Longrightarrow> q < 2 ^ 52 \<Longrightarrow> frame_address p = frame_address q \<longleftrightarrow> p = q"
  using pfn_frame_address by metis

section \<open>Entries and counts\<close>

abbreviation flags_ok :: "PageTableFlags \<Rightarrow> bool" where
  "flags_ok flags \<equiv> flags AND NOT all_flags = 0"

lemma entry_split:
  assumes "unat addr < 2 ^ 52" "is_aligned addr 4096" "flags_ok flags"
  shows "entry_addr (addr OR flags) = addr" "entry_flags (addr OR flags) = flags"
proof -
  have "12 \<le> n \<and> n < 52" if "bit addr n" for n
    using aligned_page_bit [OF assms(2) that] bit_unat_bound [OF that] assms(1)
    by (metis le_less_trans nat_power_less_imp_less zero_less_numeral)
  then show "entry_addr (addr OR flags) = addr" "entry_flags (addr OR flags) = flags"
    using addr_flags_split [of addr flags] bit_sub_all_flags [OF assms(3)] by blast+
qed

lemma contains_or [simp]: "contains (a OR b) b" "contains a c \<Longrightarrow> contains (a OR b) c" "contains b c \<Longrightarrow> contains (a OR b) c"
proof -
  show "contains (a OR b) b"
    unfolding contains_def by (rule bit_eqI) (auto simp: bit_simps)
  show "contains (a OR b) c" if "contains a c"
    using that unfolding contains_def bit_eq_iff by (auto simp: bit_simps)
  show "contains (a OR b) c" if "contains b c"
    using that unfolding contains_def bit_eq_iff by (auto simp: bit_simps)
qed

lemma contains_self [simp]: "contains a a"
  by (simp add: contains_def)

lemma flags_ok_or: "flags_ok a \<Longrightarrow> flags_ok b \<Longrightarrow> flags_ok (a OR b)"
  by (simp add: bit.conj_disj_distrib2)

lemma flags_ok_const [simp]: "flags_ok PRESENT" "flags_ok HUGE_PAGE" "flags_ok WRITABLE" "flags_ok USER_ACCESSIBLE"
  by (simp_all add: PRESENT_def HUGE_PAGE_def WRITABLE_def USER_ACCESSIBLE_def all_flags_value)

lemma not_present_0 [simp]: "\<not> present 0" "\<not> huge 0"
  by (simp_all add: contains_def entry_flags_def PRESENT_def HUGE_PAGE_def)

lemma link_entry:
  assumes "p < 2 ^ 40" "e = frame_address p OR (PRESENT OR WRITABLE OR USER_ACCESSIBLE)"
  shows "set_addr (frame_address p) (PRESENT OR WRITABLE OR USER_ACCESSIBLE) = Some e"
    "present e" "\<not> huge e" "entry_addr e = frame_address p"
proof -
  have p: "p < 2 ^ 52" "unat (frame_address p) < 2 ^ 52"
    using assms(1) by (simp_all add: unat_frame_address)
  have fl: "flags_ok (PRESENT OR WRITABLE OR USER_ACCESSIBLE)"
    by (intro flags_ok_or) simp_all
  note e = entry_split [OF p(2) frame_address_aligned [OF p(1)] fl]
  show "set_addr (frame_address p) (PRESENT OR WRITABLE OR USER_ACCESSIBLE) = Some e"
    using frame_address_aligned [OF p(1)] assms(2) by (simp add: set_addr_def)
  show "present e" "\<not> huge e" "entry_addr e = frame_address p"
    using e assms(2) by (simp_all add: contains_def PRESENT_def WRITABLE_def USER_ACCESSIBLE_def HUGE_PAGE_def)
qed

lemma inc_simps [simp]:
  "mm_pt (inc_table_count t st) = mm_pt st" "mm_pmm (inc_table_count t st) = mm_pmm st"
  "mm_rmap (inc_table_count t st) = mm_rmap st" "mm_cpu (inc_table_count t st) = mm_cpu st"
  "mm_flushed (inc_table_count t st) = mm_flushed st"
  "mm_pt (dec_table_count t st) = mm_pt st" "mm_pmm (dec_table_count t st) = mm_pmm st"
  "mm_rmap (dec_table_count t st) = mm_rmap st" "mm_cpu (dec_table_count t st) = mm_cpu st"
  "mm_flushed (dec_table_count t st) = mm_flushed st"
  by (simp_all add: inc_table_count_def dec_table_count_def Let_def split: option.split)

lemma write_simps [simp]:
  "mm_pt (write_entry t i e st) = upd_entry (mm_pt st) t i e" "mm_counts (write_entry t i e st) = mm_counts st"
  "mm_pmm (write_entry t i e st) = mm_pmm st" "mm_rmap (write_entry t i e st) = mm_rmap st"
  "mm_cpu (write_entry t i e st) = mm_cpu st" "mm_flushed (write_entry t i e st) = mm_flushed st"
  "mm_pt (zero_table t st) = (mm_pt st)(t := (\<lambda>_. 0))" "mm_counts (zero_table t st) = mm_counts st"
  "mm_pmm (zero_table t st) = mm_pmm st" "mm_rmap (zero_table t st) = mm_rmap st"
  "mm_cpu (zero_table t st) = mm_cpu st" "mm_flushed (zero_table t st) = mm_flushed st"
  "mm_pt (flush_page b v st) = mm_pt st" "mm_counts (flush_page b v st) = mm_counts st"
  "mm_pmm (flush_page b v st) = mm_pmm st" "mm_rmap (flush_page b v st) = mm_rmap st"
  "mm_cpu (flush_page b v st) = mm_cpu st"
  by (simp_all add: write_entry_def zero_table_def flush_page_def set_unused_def)

lemma table_count_cong: "mm_counts st = mm_counts st' \<Longrightarrow> table_count t st = table_count t st'"
  by (simp add: table_count_def)

text \<open>The effect of the counters on a table whose frame is below the end of memory.\<close>

lemma count_inc:
  assumes "mm_counts st = Some (c, len)" "p < len" "p < 2 ^ 52" "q < 2 ^ 52"
  shows "table_count (frame_address q) (inc_table_count (frame_address p) st) =
    (if q = p then Some (c p + 1) else table_count (frame_address q) st)"
    "mm_counts (inc_table_count (frame_address p) st) = Some (c(p := c p + 1), len)"
  using assms by (auto simp: table_count_def inc_table_count_def pfn_frame_address)

lemma count_dec:
  assumes "mm_counts st = Some (c, len)" "p < len" "p < 2 ^ 52" "q < 2 ^ 52"
  shows "table_count (frame_address q) (dec_table_count (frame_address p) st) =
    (if q = p then Some (c p - 1) else table_count (frame_address q) st)"
    "mm_counts (dec_table_count (frame_address p) st) = Some (c(p := c p - 1), len)"
  using assms by (auto simp: table_count_def dec_table_count_def pfn_frame_address)

lemma room_inc:
  assumes "room (Suc n) st"
  shows "room n (inc_table_count t st)"
proof -
  have "unat ((c(i := c i + 1)) p) + n < 2 ^ 16" if "mm_counts st = Some (c, len)" "p < len" for c len p i
  proof -
    have "unat (c p) + Suc n < 2 ^ 16"
      using assms that unfolding room_def by blast
    then show ?thesis
      by (auto simp: unat_word_ariths)
  qed
  moreover have "room n st"
    using assms by (rule room_mono) simp
  ultimately show ?thesis
    unfolding room_def inc_table_count_def by (auto simp: Let_def split: option.splits if_splits)
qed

section \<open>Extending the tree\<close>

lemma wf_pmm:
  assumes "mapper_wf st root lv" "pmm_valid pmm" "total_frames pmm = total_frames (mm_pmm st)"
    "avail pmm \<subseteq> avail (mm_pmm st)"
  shows "mapper_wf (st\<lparr>mm_pmm := pmm\<rparr>) root lv"
  using assms unfolding mapper_wf_def counted_def pmm_fits_def in_use_def table_count_def
  by (auto simp: subset_iff) blast+

lemma wf_frame:
  assumes "mapper_wf st root lv" "lv t = Some l"
  shows "\<exists>p. t = frame_address p \<and> p < total_frames (mm_pmm st) \<and> p < 2 ^ 40 \<and> p < 2 ^ 52 \<and> p \<notin> avail (mm_pmm st)"
proof -
  obtain p where p: "t = frame_address p" "p < total_frames (mm_pmm st)" "p \<notin> avail (mm_pmm st)"
    using assms unfolding mapper_wf_def in_use_def by blast
  have "total_frames (mm_pmm st) \<le> 2 ^ 40"
    using assms(1) by (simp add: mapper_wf_def pmm_fits_def)
  then show ?thesis
    using p by auto
qed

lemma wf_link:
  assumes "mapper_wf st root lv" "lv t = Some l" "2 \<le> l" "\<not> present (mm_pt st t i)" "p \<in> avail (mm_pmm st)"
    "p < total_frames (mm_pmm st)" "room 1 st" "e = frame_address p OR (PRESENT OR WRITABLE OR USER_ACCESSIBLE)"
    "pmm_valid pmm" "total_frames pmm = total_frames (mm_pmm st)" "avail pmm = avail (mm_pmm st) - {p}"
  shows "lv (frame_address p) = None"
    "mapper_wf (inc_table_count (frame_address p) (write_entry t i e (zero_table (frame_address p) (st\<lparr>mm_pmm := pmm\<rparr>))))
      root (lv(frame_address p \<mapsto> l - 1))" (is "mapper_wf ?st root ?lv")
proof -
  let ?n = "frame_address p"
  have tot: "total_frames (mm_pmm st) \<le> 2 ^ 40"
    using assms(1) by (simp add: mapper_wf_def pmm_fits_def)
  then have p: "p < 2 ^ 40" "p < 2 ^ 52"
    using assms(6) by simp_all
  show n: "lv ?n = None"
  proof (cases "lv ?n")
    case (Some m)
    from wf_frame [OF assms(1) Some] show ?thesis
      using frame_address_eq p(2) assms(5) by auto
  qed simp
  have nt: "?n \<noteq> t"
    using n assms(2) by auto
  note le = link_entry [OF p(1) assms(8)]
  have tree: "tree (mm_pt st) root lv" and cnt: "counted st lv" and iu: "in_use st lv"
    using assms(1) by (simp_all add: mapper_wf_def)
  have "child (mm_pt st) t i = None"
    using assms(4) by (simp add: child_def)
  from tree_link [OF tree assms(2,3) this n _ le(2-4), of "\<lambda>_. 0"]
  have t': "tree (mm_pt ?st) root ?lv"
    by simp
  obtain c where c: "mm_counts st = Some (c, total_frames (mm_pmm st))"
    using assms(1) by (auto simp: mapper_wf_def pmm_fits_def)
  have inc: "table_count (frame_address q) ?st = (if q = p then Some (c p + 1) else table_count (frame_address q) st)"
    if "q < 2 ^ 52" for q
    using count_inc(1) [of "write_entry t i e (zero_table ?n (st\<lparr>mm_pmm := pmm\<rparr>))", OF _ assms(6) p(2) that] c
    by (simp add: table_count_def)
  have "unat (c p) + 1 < 2 ^ 16"
    using assms(6,7) c unfolding room_def by blast
  then have cp: "0 < unat (c p + 1)"
    by (simp add: unat_word_ariths)
  have "counted ?st ?lv"
    unfolding counted_def
  proof (intro allI impI)
    fix u m
    assume u: "?lv u = Some m" "m \<le> 3"
    show "\<exists>c. table_count u ?st = Some c \<and> card (leaves (mm_pt ?st) m u) < unat c"
    proof (cases "u = ?n")
      case True
      then have "leaves (mm_pt ?st) m u = {}"
        using nt by (simp add: leaves_def)
      then show ?thesis
        using True inc [OF p(2)] cp by simp
    next
      case False
      then have lu: "lv u = Some m"
        using u(1) by simp
      obtain q where q: "u = frame_address q" "q < 2 ^ 52"
        using wf_frame [OF assms(1) lu] by blast
      have "leaves (mm_pt ?st) m u = leaves (mm_pt st) m u"
        using False lu assms(2-4) le(3) by (auto simp: leaves_def)
      then show ?thesis
        using cnt lu u(2) False inc [OF q(2)] q(1) by (auto simp: counted_def)
    qed
  qed
  moreover have "in_use ?st ?lv"
    using iu assms(6,10,11) by (auto simp: in_use_def)
  moreover have "pmm_fits ?st"
    using assms(1,9-11) count_inc(2) [of "write_entry t i e (zero_table ?n (st\<lparr>mm_pmm := pmm\<rparr>))", OF _ assms(6) p(2) p(2)] c
    by (auto simp: mapper_wf_def pmm_fits_def)
  ultimately show "mapper_wf ?st root ?lv"
    using t' by (simp add: mapper_wf_def)
qed

text \<open>What a failed or successful step down the tables leaves behind.\<close>

definition extends :: "nat \<Rightarrow> MmState \<Rightarrow> MmState \<Rightarrow> PhysAddr \<Rightarrow> bool" where
  "extends n st st' root \<longleftrightarrow> mapper_inv st' root \<and> same_walks st st' root \<and> room n st'
     \<and> mm_rmap st' = mm_rmap st \<and> mm_flushed st' = mm_flushed st"

lemma get_next_ok:
  assumes "mapper_inv st root" "reach (mm_pt st) root pre = Some t" "length pre < 3" "\<forall>i\<in>set pre. i < 512"
    "i < 512" "room (Suc n) st"
  shows "\<exists>r st'. get_next_table_by_index t i st = Some (r, st') \<and> extends n st st' root
    \<and> (\<forall>t'. r = Ok t' \<longrightarrow> reach (mm_pt st') root (pre @ [i]) = Some t')"
proof -
  obtain lv where wf: "mapper_wf st root lv"
    using assms(1) by (auto simp: mapper_inv_def)
  have tree: "tree (mm_pt st) root lv" and fits: "pmm_fits st"
    using wf by (simp_all add: mapper_wf_def)
  have n: "room n st" "room 1 st"
    using assms(6) by (auto intro: room_mono)
  have lt: "lv t = Some (4 - length pre)"
    using reach_in_tree [OF tree assms(2) _ assms(4)] assms(3) by simp
  let ?e = "mm_pt st t i"
  show ?thesis
  proof (cases "present ?e")
    case True
    have "extends n st st root"
      using assms(1) n(1) by (simp add: extends_def)
    then show ?thesis
      using True assms(2) by (simp add: get_next_table_by_index_def Let_def reach_snoc child_def)
  next
    case False
    have "pmm_valid (mm_pmm st)"
      using fits by (simp add: pmm_fits_def)
    from pmm.get_ok [OF this, of "mm_cpu st" ORDER_4K] obtain r s' where
      a: "allocate_frame (mm_cpu st) (mm_pmm st) = Some (r, s')" "pmm_valid s'"
      "total_frames s' = total_frames (mm_pmm st)"
      "case r of None \<Rightarrow> avail s' = avail (mm_pmm st)
         | Some a \<Rightarrow> \<exists>p. a = frame_address p \<and> held s' ORDER_4K p \<and> block ORDER_4K p \<subseteq> avail (mm_pmm st)
             \<and> avail s' = avail (mm_pmm st) - block ORDER_4K p"
      by (auto simp: allocate_frame_def allocate_frames_def)
    show ?thesis
    proof (cases r)
      case None
      then have "mapper_wf (st\<lparr>mm_pmm := s'\<rparr>) root lv"
        using wf_pmm [OF wf a(2,3)] a(4) by simp
      then have "extends n st (st\<lparr>mm_pmm := s'\<rparr>) root"
        using n(1) by (auto simp: extends_def mapper_inv_def same_walks_def room_def)
      then show ?thesis
        using False None a(1) by (simp add: get_next_table_by_index_def Let_def)
    next
      case (Some phys)
      then obtain p where p: "phys = frame_address p" "held s' ORDER_4K p" "p \<in> avail (mm_pmm st)"
        "avail s' = avail (mm_pmm st) - {p}"
        using a(4) by (auto simp: block_def ORDER_4K_def)
      have pt: "p < total_frames (mm_pmm st)"
        using p(2) a(3) by (simp add: held_def ORDER_4K_def)
      have tot: "total_frames (mm_pmm st) \<le> 2 ^ 40" and p0: "p \<noteq> 0"
        using fits p(3) unfolding pmm_fits_def by metis+
      then have p40: "p < 2 ^ 40" "p < 2 ^ 52"
        using pt by simp_all
      then have phys0: "phys \<noteq> 0"
        using unat_frame_address [of p] p(1) p0 by auto
      let ?l = "frame_address p OR (PRESENT OR WRITABLE OR USER_ACCESSIBLE)"
      let ?st = "inc_table_count phys (write_entry t i ?l (zero_table phys (st\<lparr>mm_pmm := s'\<rparr>)))"
      note le = link_entry [OF p40(1) refl]
      have l2: "2 \<le> 4 - length pre"
        using assms(3) by simp
      note link = wf_link [OF wf lt l2 False p(3) pt n(2) refl a(2,3) p(4), folded p(1)]
      have eq: "get_next_table_by_index t i st = Some (Ok phys, ?st)"
        using False Some a(1) phys0 le(1) p(1) by (simp add: get_next_table_by_index_def Let_def)
      have pt': "mm_pt ?st = upd_entry ((mm_pt st)(phys := (\<lambda>_. 0))) t i ?l"
        by simp
      have w: "same_walks st ?st root"
        unfolding same_walks_def pt'
        using walk_link [OF tree assms(2-4) False link(1) _ le(2,3)] le(4) p(1) by simp
      have "room (Suc n) (write_entry t i ?l (zero_table phys (st\<lparr>mm_pmm := s'\<rparr>)))"
        using assms(6) by (simp add: room_def)
      from room_inc [OF this, of phys] have rm: "room n ?st" .
      have ext: "extends n st ?st root"
        using link(2) w rm p(1) by (auto simp: extends_def mapper_inv_def)
      have "phys \<noteq> t"
        using link(1) lt by auto
      then have "reach (mm_pt ?st) root (pre @ [i]) = Some phys"
        using reach_upd [OF tree_outside [OF tree link(1), of "\<lambda>_. 0"] reach_outside [OF tree assms(2) _ assms(4) link(1)], of i ?l]
          assms(3,4) le p(1) unfolding pt' by (simp add: reach_snoc child_upd del: fun_upd_apply)
      then show ?thesis
        using eq ext by simp
    qed
  qed
qed

section \<open>Writing leaves\<close>

lemma wf_leaf:
  assumes "mapper_wf st root lv" "lv t = Some l" "l \<le> 3" "i < 512"
    "l = 1 \<or> child (mm_pt st) t i = None \<and> \<not> (present e \<and> \<not> huge e)"
    "mm_pt st' = upd_entry (mm_pt st) t i e" "mm_pmm st' = mm_pmm st"
    "\<exists>c. mm_counts st' = Some (c, total_frames (mm_pmm st))"
    "\<And>u. u \<noteq> t \<Longrightarrow> lv u \<noteq> None \<Longrightarrow> table_count u st' = table_count u st"
    "\<exists>c. table_count t st' = Some c \<and> card (leaves (mm_pt st') l t) < unat c"
  shows "mapper_wf st' root lv"
proof -
  have cnt: "counted st lv"
    using assms(1) by (simp add: mapper_wf_def)
  have "counted st' lv"
    unfolding counted_def
  proof (intro allI impI)
    fix u m
    assume u: "lv u = Some m" "m \<le> 3"
    show "\<exists>c. table_count u st' = Some c \<and> card (leaves (mm_pt st') m u) < unat c"
    proof (cases "u = t")
      case True
      then show ?thesis
        using u assms(2,10) by simp
    next
      case False
      then have "leaves (mm_pt st') m u = leaves (mm_pt st) m u"
        using assms(6) by (simp add: leaves_def)
      then show ?thesis
        using cnt u False assms(9) by (simp add: counted_def)
    qed
  qed
  moreover have "tree (mm_pt st) root lv"
    using assms(1) by (simp add: mapper_wf_def)
  then have "tree (mm_pt st') root lv"
    using tree_leaf [of "mm_pt st" root lv t l i e] assms(2,3,5,6) by simp
  ultimately show ?thesis
    using assms(1,7,8) by (simp add: mapper_wf_def pmm_fits_def in_use_def)
qed

lemma countedD:
  assumes "counted st lv" "lv t = Some l" "l \<le> 3" "table_count t st = Some c"
  shows "card (leaves (mm_pt st) l t) < unat c"
proof -
  obtain c' where "table_count t st = Some c'" "card (leaves (mm_pt st) l t) < unat c'"
    using assms(1-3) unfolding counted_def by blast
  then show ?thesis
    using assms(4) by simp
qed

lemma leaves_finite: "finite (leaves pt l t)"
  by (simp add: leaves_def)

lemma set_leaf_ok:
  assumes "mapper_inv st root" "reach (mm_pt st) root pre = Some t" "1 \<le> length pre" "length pre \<le> 3"
    "\<forall>i\<in>set pre. i < 512" "i < 512" "\<not> present (mm_pt st t i)" "unat frame < 2 ^ 52" "is_aligned frame 4096"
    "flags_ok flags" "contains flags PRESENT" "length pre = 3 \<or> contains flags HUGE_PAGE" "room (Suc n) st"
  shows "\<exists>st'. set_leaf t i frame flags st = Some st' \<and> mapper_inv st' root \<and> room n st'
    \<and> mm_rmap st' = mm_rmap st \<and> mm_flushed st' = mm_flushed st
    \<and> (\<forall>is. length is = 4 \<longrightarrow> (\<forall>i\<in>set is. i < 512) \<longrightarrow> walk (mm_pt st') root is =
        (if prefix (pre @ [i]) is then Some (3 - length pre, frame OR flags) else walk (mm_pt st) root is))
    \<and> (\<forall>is. prefix (pre @ [i]) is \<longrightarrow> walk (mm_pt st) root is = None)"
proof -
  let ?e = "frame OR flags"
  let ?st = "inc_table_count t (write_entry t i ?e st)"
  obtain lv where wf: "mapper_wf st root lv"
    using assms(1) by (auto simp: mapper_inv_def)
  have tree: "tree (mm_pt st) root lv" and cnt: "counted st lv"
    using wf by (simp_all add: mapper_wf_def)
  have len: "length pre < 4"
    using assms(4) by simp
  have lt: "lv t = Some (4 - length pre)"
    by (rule reach_in_tree [OF tree assms(2) len assms(5)])
  have l3: "4 - length pre \<le> 3" "4 - length pre = 1 \<longleftrightarrow> length pre = 3"
    using assms(3,4) by auto
  note e = entry_split [OF assms(8-10)]
  have pe: "present ?e"
    using e assms(11) by simp
  have he: "length pre = 3 \<or> huge ?e"
    using e assms(12) by simp
  obtain p where p: "t = frame_address p" "p < total_frames (mm_pmm st)" "p < 2 ^ 52"
    using wf_frame [OF wf lt] by blast
  obtain c where c: "mm_counts st = Some (c, total_frames (mm_pmm st))"
    using wf by (auto simp: mapper_wf_def pmm_fits_def)
  have c': "mm_counts (write_entry t i ?e st) = Some (c, total_frames (mm_pmm st))"
    using c by simp
  have inc: "table_count (frame_address q) ?st = (if q = p then Some (c p + 1) else table_count (frame_address q) st)"
    if "q < 2 ^ 52" for q
    using count_inc(1) [OF c' p(2,3) that] p(1) by (simp add: table_count_def)
  have other: "table_count u ?st = table_count u st" if u: "u \<noteq> t" "lv u \<noteq> None" for u
  proof -
    obtain m q where "lv u = Some m" "u = frame_address q" "q < 2 ^ 52"
      using u(2) wf_frame [OF wf, of u] by blast
    then show ?thesis
      using inc [of q] u(1) p(1) by (auto simp del: inc_simps)
  qed
  have "unat (c p) + Suc n < 2 ^ 16"
    using assms(13) c p(2) unfolding room_def by blast
  then have cp: "unat (c p + 1) = unat (c p) + 1"
    by (simp add: unat_word_ariths)
  have "table_count t st = Some (c p)"
    using c p by (simp add: table_count_def pfn_frame_address)
  then have "card (leaves (mm_pt st) (4 - length pre) t) < unat (c p)"
    by (rule countedD [OF cnt lt l3(1)])
  moreover have "leaves (mm_pt ?st) (4 - length pre) t \<subseteq> insert i (leaves (mm_pt st) (4 - length pre) t)"
    by (auto simp: leaves_def)
  then have "card (leaves (mm_pt ?st) (4 - length pre) t) \<le> card (insert i (leaves (mm_pt st) (4 - length pre) t))"
    by (rule card_mono [OF finite.insertI [OF leaves_finite]])
  then have "card (leaves (mm_pt ?st) (4 - length pre) t) \<le> Suc (card (leaves (mm_pt st) (4 - length pre) t))"
    by (simp add: card_insert_if leaves_finite split: if_splits)
  ultimately have lf: "\<exists>c. table_count t ?st = Some c \<and> card (leaves (mm_pt ?st) (4 - length pre) t) < unat c"
    using inc [OF p(3)] p(1) cp by simp
  have "mapper_wf ?st root lv"
  proof (rule wf_leaf [OF wf lt l3(1) assms(6), of ?e])
    show "4 - length pre = 1 \<or> child (mm_pt st) t i = None \<and> \<not> (present ?e \<and> \<not> huge ?e)"
      using he l3(2) assms(7) by (auto simp: child_def)
    show "\<exists>c. mm_counts ?st = Some (c, total_frames (mm_pmm st))"
      using count_inc(2) [OF c' p(2,3,3)] p(1) by simp
  qed (use other lf in simp_all)
  then have inv: "mapper_inv ?st root"
    by (auto simp: mapper_inv_def)
  have "room (Suc n) (write_entry t i ?e st)"
    using assms(13) by (simp add: room_def)
  from room_inc [OF this, of t] have rm: "room n ?st" .
  have w: "walk (mm_pt ?st) root is =
      (if prefix (pre @ [i]) is then Some (3 - length pre, ?e) else walk (mm_pt st) root is)"
    if is4: "length is = 4" "\<forall>i\<in>set is. i < 512" for "is"
  proof (cases "prefix (pre @ [i]) is")
    case True
    then obtain rest where rest: "is = pre @ i # rest"
      by (auto simp: prefix_def)
    then have "length rest = 3 - length pre"
      using is4(1) by simp
    then show ?thesis
      using walk_upd_leaf [OF tree assms(2) len assms(5), of ?e rest i] he rest True pe by auto
  next
    case False
    then show ?thesis
      using walk_write [OF tree assms(2) len assms(5) is4] by simp
  qed
  have "walk (mm_pt st) root is = None" if "prefix (pre @ [i]) is" for "is"
    using that walk_reach [OF assms(2)] assms(7) by (auto simp: prefix_def)
  then show ?thesis
    using inv rm w assms(9) by (auto simp: set_leaf_def set_addr_def)
qed

lemma clear_leaf_ok:
  assumes "mapper_inv st root" "reach (mm_pt st) root pre = Some t" "1 \<le> length pre" "length pre \<le> 3"
    "\<forall>i\<in>set pre. i < 512" "i < 512" "present (mm_pt st t i)" "length pre = 3 \<or> huge (mm_pt st t i)"
  shows "mapper_inv (clear_leaf t i st) root" "\<not> table_empty t (clear_leaf t i st)"
    "length is = 4 \<Longrightarrow> \<forall>i\<in>set is. i < 512 \<Longrightarrow> walk (mm_pt (clear_leaf t i st)) root is =
      (if prefix (pre @ [i]) is then None else walk (mm_pt st) root is)"
proof -
  let ?st = "clear_leaf t i st"
  obtain lv where wf: "mapper_wf st root lv"
    using assms(1) by (auto simp: mapper_inv_def)
  have tree: "tree (mm_pt st) root lv" and cnt: "counted st lv"
    using wf by (simp_all add: mapper_wf_def)
  have len: "length pre < 4"
    using assms(4) by simp
  have lt: "lv t = Some (4 - length pre)"
    by (rule reach_in_tree [OF tree assms(2) len assms(5)])
  have l3: "4 - length pre \<le> 3" "4 - length pre = 1 \<longleftrightarrow> length pre = 3"
    using assms(3,4) by auto
  obtain p where p: "t = frame_address p" "p < total_frames (mm_pmm st)" "p < 2 ^ 52"
    using wf_frame [OF wf lt] by blast
  obtain c where c: "mm_counts st = Some (c, total_frames (mm_pmm st))"
    using wf by (auto simp: mapper_wf_def pmm_fits_def)
  have c': "mm_counts (write_entry t i 0 st) = Some (c, total_frames (mm_pmm st))"
    using c by simp
  have st: "?st = dec_table_count (frame_address p) (write_entry t i 0 st)"
    using p(1) by (simp add: clear_leaf_def set_unused_def)
  have dec: "table_count (frame_address q) ?st = (if q = p then Some (c p - 1) else table_count (frame_address q) st)"
    if "q < 2 ^ 52" for q
    using count_dec(1) [OF c' p(2,3) that] unfolding st by (simp add: table_count_def)
  have other: "table_count u ?st = table_count u st" if u: "u \<noteq> t" "lv u \<noteq> None" for u
  proof -
    obtain m q where "lv u = Some m" "u = frame_address q" "q < 2 ^ 52"
      using u(2) wf_frame [OF wf, of u] by blast
    then show ?thesis
      using dec [of q] u(1) p(1) by auto
  qed
  let ?L = "leaves (mm_pt st) (4 - length pre) t" and ?L' = "leaves (mm_pt ?st) (4 - length pre) t"
  have "table_count t st = Some (c p)"
    using c p by (simp add: table_count_def pfn_frame_address)
  then have lc: "card ?L < unat (c p)"
    by (rule countedD [OF cnt lt l3(1)])
  have i: "i \<in> ?L" "?L' = ?L - {i}"
    using assms(6-8) l3(2) unfolding st by (auto simp: leaves_def)
  then have L': "card ?L' + 1 = card ?L"
    using leaves_finite [of "mm_pt st" "4 - length pre" t] card_Suc_Diff1 by fastforce
  have cp: "unat (c p - 1) = unat (c p) - 1"
    using lc by (subst unat_sub_le) (auto simp: word_le_nat_alt)
  have lf: "\<exists>c. table_count t ?st = Some c \<and> card ?L' < unat c"
    using dec [OF p(3)] p(1) lc L' cp by simp
  have "mapper_wf ?st root lv"
  proof (rule wf_leaf [OF wf lt l3(1) assms(6), of 0])
    show "4 - length pre = 1 \<or> child (mm_pt st) t i = None \<and> \<not> (present 0 \<and> \<not> huge 0)"
      using assms(8) l3(2) by (auto simp: child_def)
    show "\<exists>c. mm_counts ?st = Some (c, total_frames (mm_pmm st))"
      unfolding st using count_dec(2) [OF c' p(2,3,3)] by simp
    show "mm_pt ?st = upd_entry (mm_pt st) t i 0" "mm_pmm ?st = mm_pmm st"
      unfolding st by simp_all
  qed (use other lf in simp_all)
  then show "mapper_inv ?st root"
    by (auto simp: mapper_inv_def)
  show "\<not> table_empty t ?st"
    using lf by (auto simp: table_empty_def)
  assume is4: "length is = 4" "\<forall>i\<in>set is. i < 512"
  have pt: "mm_pt ?st = upd_entry (mm_pt st) t i 0"
    unfolding st by simp
  show "walk (mm_pt ?st) root is = (if prefix (pre @ [i]) is then None else walk (mm_pt st) root is)"
  proof (cases "prefix (pre @ [i]) is")
    case True
    then obtain rest where rest: "is = pre @ i # rest"
      by (auto simp: prefix_def)
    then show ?thesis
      using walk_upd_leaf [OF tree assms(2) len assms(5), of 0 rest i] True unfolding pt by simp
  next
    case False
    then show ?thesis
      using walk_write [OF tree assms(2) len assms(5) is4] unfolding pt by simp
  qed
qed

section \<open>Mapping\<close>

text \<open>The size of the page that a request maps (0 for 4 KiB, 1 for 2 MiB, 2 for 1 GiB) and the flags
  of its entry.\<close>

definition map_level :: "VirtAddr \<Rightarrow> PhysAddr \<Rightarrow> PageTableFlags \<Rightarrow> nat" where
  "map_level page frame flags =
    (if contains flags HUGE_PAGE then
       if is_aligned page 0x40000000 \<and> is_aligned frame 0x40000000 then 2 else 1
     else 0)"

definition leaf_flags :: "PageTableFlags \<Rightarrow> PageTableFlags" where
  "leaf_flags flags = (if contains flags HUGE_PAGE then flags OR PRESENT OR HUGE_PAGE else flags OR PRESENT)"

text \<open>\<open>maps st st' root k page e\<close>: the walks of \<open>st'\<close> are those of \<open>st\<close>, but for the page of size \<open>k\<close>
  around \<open>page\<close>, which was not mapped and now has the leaf \<open>e\<close>.\<close>

definition maps :: "MmState \<Rightarrow> MmState \<Rightarrow> PhysAddr \<Rightarrow> nat \<Rightarrow> VirtAddr \<Rightarrow> PageTableEntry \<Rightarrow> bool" where
  "maps st st' root k page e \<longleftrightarrow>
     (\<forall>is. length is = 4 \<longrightarrow> (\<forall>i\<in>set is. i < 512) \<longrightarrow> walk (mm_pt st') root is =
        (if prefix (take (4 - k) (indices page)) is then Some (k, e) else walk (mm_pt st) root is))
   \<and> (\<forall>is. length is = 4 \<longrightarrow> (\<forall>i\<in>set is. i < 512) \<longrightarrow> prefix (take (4 - k) (indices page)) is \<longrightarrow>
        walk (mm_pt st) root is = None)"

lemma maps_trans: "same_walks st st1 root \<Longrightarrow> maps st1 st2 root k page e \<Longrightarrow> maps st st2 root k page e"
  by (simp add: same_walks_def maps_def)

lemma leaf_flags_ok:
  assumes "flags_ok flags"
  shows "flags_ok (leaf_flags flags)" "contains (leaf_flags flags) PRESENT"
    "contains flags HUGE_PAGE \<Longrightarrow> contains (leaf_flags flags) HUGE_PAGE"
  using assms by (simp_all add: leaf_flags_def flags_ok_or)

lemma set_leaf_maps:
  assumes "mapper_inv st root" "reach (mm_pt st) root (take (3 - k) (indices page)) = Some t" "k \<le> 2"
    "i = indices page ! (3 - k)" "is_unused (mm_pt st t i)" "unat frame < 2 ^ 52" "is_aligned frame 4096"
    "flags_ok flags" "k = 0 \<or> contains flags HUGE_PAGE" "room (Suc n) st"
  shows "\<exists>st'. set_leaf t i frame (leaf_flags flags) st = Some st' \<and> mapper_inv st' root
    \<and> mm_rmap st' = mm_rmap st \<and> mm_flushed st' = mm_flushed st
    \<and> maps st st' root k page (frame OR leaf_flags flags)"
proof -
  let ?pre = "take (3 - k) (indices page)"
  have pre: "length ?pre = 3 - k" "?pre @ [i] = take (4 - k) (indices page)"
  proof -
    have "k = 0 \<or> k = 1 \<or> k = 2"
      using assms(3) by auto
    then show "length ?pre = 3 - k" "?pre @ [i] = take (4 - k) (indices page)"
      using assms(4) by (auto simp: indices_def numeral_nat)
  qed
  have small: "\<forall>i\<in>set (indices page). i < 512"
    using index_bounds by (simp add: indices_def)
  moreover have "i \<in> set (indices page)"
    unfolding assms(4) by (rule nth_mem) (simp add: indices_def)
  ultimately have b: "\<forall>i\<in>set ?pre. i < 512" "i < 512"
    by (auto dest: in_set_takeD)
  have np: "\<not> present (mm_pt st t i)"
    using assms(5) by (simp add: is_unused_def)
  note lf = leaf_flags_ok [OF assms(8)]
  have l: "1 \<le> length ?pre" "length ?pre \<le> 3" "length ?pre = 3 \<or> contains (leaf_flags flags) HUGE_PAGE" "3 - length ?pre = k"
    using assms(3,9) pre(1) lf(3) by auto
  show ?thesis
    using set_leaf_ok [OF assms(1,2) l(1,2) b np assms(6,7) lf(1,2) l(3) assms(10)] pre(2) l(4)
    by (auto simp: maps_def)
qed

lemma finish_simps [simp]:
  "mapper_inv (flush_page b v st) root = mapper_inv st root"
  "mapper_inv (st\<lparr>mm_rmap := r\<rparr>) root = mapper_inv st root"
  "maps st (flush_page b v st') root k page e = maps st st' root k page e"
  "maps st (st'\<lparr>mm_rmap := r\<rparr>) root k page e = maps st st' root k page e"
  "maps (st\<lparr>mm_rmap := r\<rparr>) st' root k page e = maps st st' root k page e"
  by (simp_all add: mapper_inv_def mapper_wf_def counted_def pmm_fits_def in_use_def maps_def table_count_def)

text \<open>What a call of \<open>map_page_inner\<close> does.\<close>

definition map_outcome ::
  "MmState \<Rightarrow> PhysAddr \<Rightarrow> VirtAddr \<Rightarrow> PhysAddr \<Rightarrow> PageTableFlags \<Rightarrow> (unit, MapError) result \<Rightarrow> MmState \<Rightarrow> bool" where
  "map_outcome st root page frame flags r st' \<longleftrightarrow> mapper_inv st' root \<and>
     (case r of
        Err _ \<Rightarrow> same_walks st st' root \<and> mm_rmap st' = mm_rmap st
      | Ok _ \<Rightarrow> maps st st' root (map_level page frame flags) page (frame OR leaf_flags flags)
          \<and> (map_level page frame flags = 1 \<longrightarrow> is_aligned page 0x200000 \<and> is_aligned frame 0x200000)
          \<and> mm_rmap st' = (if map_level page frame flags = 0 \<and> contains flags USER_ACCESSIBLE
              then rmap_add frame root page flags (mm_rmap st) else mm_rmap st))"

lemma extends_err: "extends n st st' root \<Longrightarrow> map_outcome st root page frame flags (Err e) st'"
  by (simp add: extends_def map_outcome_def)

lemma outcome_trans:
  assumes "extends n st st1 root" "map_outcome st1 root page frame flags r st2"
  shows "map_outcome st root page frame flags r st2"
  using assms same_walks_trans maps_trans by (cases r) (auto simp: extends_def map_outcome_def)

lemma set_leaf_outcome:
  assumes "mapper_inv st root" "k = map_level page frame flags"
    "reach (mm_pt st) root (take (3 - k) (indices page)) = Some t" "i = indices page ! (3 - k)"
    "is_unused (mm_pt st t i)" "unat frame < 2 ^ 52" "is_aligned frame 4096" "flags_ok flags" "room 1 st"
    "k = 1 \<longrightarrow> is_aligned page 0x200000 \<and> is_aligned frame 0x200000"
  shows "\<exists>st'. set_leaf t i frame (leaf_flags flags) st = Some st' \<and>
    map_outcome st root page frame flags (Ok ()) (flush_page flush page
      (if k = 0 \<and> contains flags USER_ACCESSIBLE
       then st'\<lparr>mm_rmap := rmap_add frame root page flags (mm_rmap st')\<rparr> else st'))"
proof -
  have k: "k \<le> 2" "k = 0 \<or> contains flags HUGE_PAGE" "room (Suc 0) st"
    using assms(2,9) by (auto simp: map_level_def)
  from set_leaf_maps [OF assms(1,3) k(1) assms(4-8) k(2,3)] show ?thesis
    using assms(2,10) by (auto simp: map_outcome_def)
qed

lemma indices_simps [simp]:
  "take 1 (indices page) = [p4_index page]" "take (Suc 0) (indices page) = [p4_index page]"
  "take 2 (indices page) = [p4_index page, p3_index page]"
  "take 3 (indices page) = [p4_index page, p3_index page, p2_index page]" "take 4 (indices page) = indices page"
  "indices page ! 1 = p3_index page" "indices page ! Suc 0 = p3_index page" "indices page ! 2 = p2_index page"
  "indices page ! 3 = p1_index page"
  by (simp_all add: indices_def numeral_nat)

lemma inv_err: "mapper_inv st root \<Longrightarrow> map_outcome st root page frame flags (Err e) st"
  by (simp add: map_outcome_def)

lemma map_1g_ok:
  assumes "mapper_inv st root" "map_level page frame flags = 2" "reach (mm_pt st) root [p4_index page] = Some p3"
    "unat frame < 2 ^ 52" "is_aligned frame 4096" "flags_ok flags" "room 1 st"
  shows "\<exists>r st'. map_1g p3 page frame flags flush st = Some (r, st') \<and> map_outcome st root page frame flags r st'"
proof (cases "is_unused (mm_pt st p3 (p3_index page))")
  case True
  have fl: "flags OR PRESENT OR HUGE_PAGE = leaf_flags flags"
    using assms(2) by (simp add: leaf_flags_def map_level_def split: if_splits)
  from set_leaf_outcome [OF assms(1) assms(2) [symmetric], of p3 "p3_index page" flush] show ?thesis
    using True assms fl by (auto simp: map_1g_def)
next
  case False
  then show ?thesis
    using inv_err [OF assms(1)] by (simp add: map_1g_def)
qed

lemma map_2m_ok:
  assumes "mapper_inv st root" "map_level page frame flags = 1"
    "reach (mm_pt st) root [p4_index page, p3_index page] = Some p2"
    "unat frame < 2 ^ 52" "is_aligned frame 4096" "flags_ok flags" "room 1 st"
  shows "\<exists>r st'. map_2m p2 page frame flags flush st = Some (r, st') \<and> map_outcome st root page frame flags r st'"
proof (cases "is_unused (mm_pt st p2 (p2_index page)) \<and> is_aligned page 0x200000 \<and> is_aligned frame 0x200000")
  case True
  have fl: "flags OR PRESENT OR HUGE_PAGE = leaf_flags flags"
    using assms(2) by (simp add: leaf_flags_def map_level_def split: if_splits)
  from set_leaf_outcome [OF assms(1) assms(2) [symmetric], of p2 "p2_index page" flush] show ?thesis
    using True assms fl by (auto simp: map_2m_def)
next
  case False
  then show ?thesis
    using inv_err [OF assms(1)] by (auto simp: map_2m_def)
qed

lemma map_4k_ok:
  assumes "mapper_inv st root" "map_level page frame flags = 0"
    "reach (mm_pt st) root [p4_index page, p3_index page, p2_index page] = Some p1"
    "unat frame < 2 ^ 52" "is_aligned frame 4096" "flags_ok flags" "room 1 st"
  shows "\<exists>r st'. map_4k root p1 page frame flags flush st = Some (r, st') \<and> map_outcome st root page frame flags r st'"
proof (cases "is_unused (mm_pt st p1 (p1_index page))")
  case True
  have fl: "flags OR PRESENT = leaf_flags flags"
    using assms(2) by (simp add: leaf_flags_def map_level_def split: if_splits)
  from set_leaf_outcome [OF assms(1) assms(2) [symmetric], of p1 "p1_index page" flush] show ?thesis
    using True assms fl by (auto simp: map_4k_def)
next
  case False
  then show ?thesis
    using inv_err [OF assms(1)] by (simp add: map_4k_def)
qed

text \<open>One level down: an error ends the call, otherwise the rest of it starts from an equivalent
  state.\<close>

lemma step_down:
  assumes "mapper_inv st root" "reach (mm_pt st) root pre = Some t" "length pre < 3" "\<forall>i\<in>set pre. i < 512"
    "i < 512" "room (Suc n) st"
    "\<And>t' st'. mapper_inv st' root \<Longrightarrow> reach (mm_pt st') root (pre @ [i]) = Some t' \<Longrightarrow> room n st' \<Longrightarrow>
       \<exists>r st''. f t' st' = Some (r, st'') \<and> map_outcome st' root page frame flags r st''"
  shows "\<exists>r st'. ebind (get_next_table_by_index t i st) f = Some (r, st') \<and> map_outcome st root page frame flags r st'"
proof -
  obtain q s1 where 1: "get_next_table_by_index t i st = Some (q, s1)" "extends n st s1 root"
    "\<forall>t'. q = Ok t' \<longrightarrow> reach (mm_pt s1) root (pre @ [i]) = Some t'"
    using get_next_ok [OF assms(1-6)] by blast
  show ?thesis
  proof (cases q)
    case (Err e)
    then show ?thesis
      using 1(1) extends_err [OF 1(2)] by simp
  next
    case (Ok t')
    then obtain r s2 where "f t' s1 = Some (r, s2)" "map_outcome s1 root page frame flags r s2"
      using assms(7) [of s1 t'] 1(2,3) by (auto simp: extends_def)
    then show ?thesis
      using 1(1) Ok outcome_trans [OF 1(2)] by simp
  qed
qed

lemma map_inner_ok:
  assumes "mapper_inv st root" "unat frame < 2 ^ 52" "is_aligned frame 4096" "flags_ok flags" "room 4 st"
  shows "\<exists>r st'. map_page_inner root page frame flags flush st = Some (r, st')
    \<and> map_outcome st root page frame flags r st'"
proof -
  note ib = index_bounds [of page]
  have r: "room (Suc 3) st" "reach (mm_pt st) root [] = Some root"
    using assms(5) by simp_all
  show ?thesis
    unfolding map_page_inner_def
  proof (rule step_down [OF assms(1) r(2) _ _ ib(1) r(1)])
    fix p3 s1
    assume 1: "mapper_inv s1 root" "reach (mm_pt s1) root ([] @ [p4_index page]) = Some p3" "room 3 s1"
    have r1: "room (Suc 2) s1" "room 1 s1"
      using 1(3) by (auto intro: room_mono)
    show "\<exists>r st''. (if contains flags HUGE_PAGE \<and> is_aligned page 0x40000000 \<and> is_aligned frame 0x40000000 then
        map_1g p3 page frame flags flush s1
      else ebind (get_next_table_by_index p3 (p3_index page) s1) (\<lambda>p2 st.
          if contains flags HUGE_PAGE then map_2m p2 page frame flags flush st
          else ebind (get_next_table_by_index p2 (p2_index page) st) (\<lambda>p1 st.
              map_4k root p1 page frame flags flush st))) = Some (r, st'') \<and> map_outcome s1 root page frame flags r st''"
    proof (cases "map_level page frame flags = 2")
      case True
      then show ?thesis
        using map_1g_ok [OF 1(1) True _ assms(2-4) r1(2)] 1(2) by (simp add: map_level_def split: if_splits)
    next
      case False
      have "\<exists>r st''. ebind (get_next_table_by_index p3 (p3_index page) s1) (\<lambda>p2 st.
          if contains flags HUGE_PAGE then map_2m p2 page frame flags flush st
          else ebind (get_next_table_by_index p2 (p2_index page) st) (\<lambda>p1 st.
              map_4k root p1 page frame flags flush st)) = Some (r, st'') \<and> map_outcome s1 root page frame flags r st''"
      proof (rule step_down [OF 1(1,2) _ _ ib(2) r1(1)])
        fix p2 s2
        assume 2: "mapper_inv s2 root" "reach (mm_pt s2) root (([] @ [p4_index page]) @ [p3_index page]) = Some p2" "room 2 s2"
        have r2: "room (Suc 1) s2" "room 1 s2"
          using 2(3) by (auto simp: numeral_2_eq_2 intro: room_mono)
        show "\<exists>r st''. (if contains flags HUGE_PAGE then map_2m p2 page frame flags flush s2
          else ebind (get_next_table_by_index p2 (p2_index page) s2) (\<lambda>p1 st.
              map_4k root p1 page frame flags flush st)) = Some (r, st'') \<and> map_outcome s2 root page frame flags r st''"
        proof (cases "contains flags HUGE_PAGE")
          case True
          then have "map_level page frame flags = 1"
            using False by (auto simp: map_level_def)
          from map_2m_ok [OF 2(1) this _ assms(2-4) r2(2)] show ?thesis
            using True 2(2) by simp
        next
          case small: False
          then have l0: "map_level page frame flags = 0"
            by (simp add: map_level_def)
          have "\<exists>r st''. ebind (get_next_table_by_index p2 (p2_index page) s2) (\<lambda>p1 st.
              map_4k root p1 page frame flags flush st) = Some (r, st'') \<and> map_outcome s2 root page frame flags r st''"
            by (rule step_down [OF 2(1,2) _ _ ib(3) r2(1)], simp_all add: ib)
              (rule map_4k_ok [OF _ l0 _ assms(2-4)], simp_all)
          then show ?thesis
            using small by simp
        qed
      qed (simp_all add: ib)
      moreover have "\<not> (contains flags HUGE_PAGE \<and> is_aligned page 0x40000000 \<and> is_aligned frame 0x40000000)"
        using False by (auto simp: map_level_def)
      ultimately show ?thesis
        by (simp only: if_False)
    qed
  qed simp_all
qed

section \<open>Unmapping\<close>

definition unmaps :: "MmState \<Rightarrow> MmState \<Rightarrow> PhysAddr \<Rightarrow> nat \<Rightarrow> VirtAddr \<Rightarrow> bool" where
  "unmaps st st' root k page \<longleftrightarrow>
     (\<forall>is. length is = 4 \<longrightarrow> (\<forall>i\<in>set is. i < 512) \<longrightarrow> walk (mm_pt st') root is =
        (if prefix (take (4 - k) (indices page)) is then None else walk (mm_pt st) root is))"

definition unmap_outcome ::
  "MmState \<Rightarrow> PhysAddr \<Rightarrow> VirtAddr \<Rightarrow> (PhysAddr, MapError) result \<Rightarrow> MmState \<Rightarrow> bool" where
  "unmap_outcome st root page r st' \<longleftrightarrow> mapper_inv st' root \<and> mm_pmm st' = mm_pmm st \<and>
     (case r of
        Err e \<Rightarrow> e = PageNotMapped \<and> st' = st \<and> walk (mm_pt st) root (indices page) = None
      | Ok f \<Rightarrow> \<exists>k e. walk (mm_pt st) root (indices page) = Some (k, e) \<and> k \<le> 2 \<and> f = entry_addr e \<and> unmaps st st' root k page
          \<and> mm_rmap st' = (if k = 0 \<and> contains (entry_flags e) USER_ACCESSIBLE
              then rmap_remove f root page (mm_rmap st) else mm_rmap st))"

lemma unmaps_simps [simp]:
  "unmaps st (flush_page b v st') root k page = unmaps st st' root k page"
  "unmaps st (st'\<lparr>mm_rmap := r\<rparr>) root k page = unmaps st st' root k page"
  by (simp_all add: unmaps_def)

lemma table_empty_simps [simp]:
  "table_empty t (flush_page b v st) = table_empty t st" "table_empty t (st\<lparr>mm_rmap := r\<rparr>) = table_empty t st"
proof -
  have "used_count t (flush_page b v st) = used_count t st" "used_count t (st\<lparr>mm_rmap := r\<rparr>) = used_count t st"
    by (simp_all add: used_count_def)
  then show "table_empty t (flush_page b v st) = table_empty t st" "table_empty t (st\<lparr>mm_rmap := r\<rparr>) = table_empty t st"
    by (simp_all only: table_empty_def table_count_def write_simps) (simp add: table_count_def)
qed

lemma clear_leaf_simps [simp]: "mm_pmm (clear_leaf t i st) = mm_pmm st" "mm_rmap (clear_leaf t i st) = mm_rmap st"
  by (simp_all add: clear_leaf_def)

lemma clear_leaf_unmaps:
  assumes "mapper_inv st root" "reach (mm_pt st) root (take (3 - k) (indices page)) = Some t" "k \<le> 2"
    "i = indices page ! (3 - k)" "present (mm_pt st t i)" "k = 0 \<or> huge (mm_pt st t i)"
  shows "mapper_inv (clear_leaf t i st) root" "\<not> table_empty t (clear_leaf t i st)"
    "unmaps st (clear_leaf t i st) root k page" "walk (mm_pt st) root (indices page) = Some (k, mm_pt st t i)"
proof -
  let ?pre = "take (3 - k) (indices page)"
  have k3: "k = 0 \<or> k = 1 \<or> k = 2"
    using assms(3) by auto
  have pre: "length ?pre = 3 - k" "?pre @ [i] = take (4 - k) (indices page)"
    using k3 assms(4) by (auto simp: indices_def numeral_nat)
  have small: "\<forall>i\<in>set (indices page). i < 512"
    using index_bounds by (simp add: indices_def)
  moreover have "i \<in> set (indices page)"
    unfolding assms(4) by (rule nth_mem) (simp add: indices_def)
  ultimately have b: "\<forall>i\<in>set ?pre. i < 512" "i < 512"
    by (auto dest: in_set_takeD)
  have l: "1 \<le> length ?pre" "length ?pre \<le> 3" "length ?pre = 3 \<or> huge (mm_pt st t i)"
    using pre(1) assms(3,6) by auto
  note c = clear_leaf_ok [OF assms(1,2) l(1,2) b assms(5) l(3)]
  show "mapper_inv (clear_leaf t i st) root" "\<not> table_empty t (clear_leaf t i st)"
    by (rule c(1), rule c(2))
  show "unmaps st (clear_leaf t i st) root k page"
    using c(3) pre(2) by (simp add: unmaps_def)
  have "indices page = ?pre @ i # drop (4 - k) (indices page)"
    using append_take_drop_id [of "4 - k" "indices page"] unfolding pre(2) [symmetric] by simp
  moreover have "length (drop (4 - k) (indices page)) = k"
    using assms(3) by (simp add: indices_def)
  ultimately show "walk (mm_pt st) root (indices page) = Some (k, mm_pt st t i)"
    using walk_reach [OF assms(2), of "i # drop (4 - k) (indices page)"] assms(5,6) by auto
qed

lemma unmap_inner_ok:
  assumes "mapper_inv st root"
  shows "\<exists>r st'. unmap_page_inner root page flush st = Some (r, st') \<and> unmap_outcome st root page r st'"
proof -
  let ?pt = "mm_pt st"
  define p3 where "p3 = entry_addr (?pt root (p4_index page))"
  define p2 where "p2 = entry_addr (?pt p3 (p3_index page))"
  define p1 where "p1 = entry_addr (?pt p2 (p2_index page))"
  let ?e4 = "?pt root (p4_index page)" and ?e3 = "?pt p3 (p3_index page)"
  let ?e2 = "?pt p2 (p2_index page)" and ?e1 = "?pt p1 (p1_index page)"
  obtain lv where "tree ?pt root lv"
    using assms by (auto simp: mapper_inv_def mapper_wf_def)
  then have h4: "\<not> huge ?e4"
    using treeD(5) index_bounds(1) by blast
  have r3: "reach ?pt root [p4_index page] = Some p3" if "present ?e4"
    using that h4 by (simp add: child_def p3_def)
  have r2: "reach ?pt root [p4_index page, p3_index page] = Some p2" if "present ?e4" "present ?e3" "\<not> huge ?e3"
    using that h4 by (simp add: child_def p3_def p2_def)
  have r1: "reach ?pt root [p4_index page, p3_index page, p2_index page] = Some p1"
    if "present ?e4" "present ?e3" "\<not> huge ?e3" "present ?e2" "\<not> huge ?e2"
    using that h4 by (simp add: child_def p3_def p2_def p1_def)
  note defs = unmap_page_inner_def Let_def p3_def [symmetric] p2_def [symmetric] p1_def [symmetric]
  note out = unmap_outcome_def entry_frame_def
  have w: "walk ?pt root (indices page) =
    (if \<not> present ?e4 then None else if \<not> present ?e3 then None else if huge ?e3 then Some (2, ?e3)
     else if \<not> present ?e2 then None else if huge ?e2 then Some (1, ?e2)
     else if \<not> present ?e1 then None else Some (0, ?e1))"
    using h4 by (simp add: indices_def p3_def p2_def p1_def)
  consider (none) "walk ?pt root (indices page) = None"
    | (g) "present ?e4" "present ?e3" "huge ?e3"
    | (m) "present ?e4" "present ?e3" "\<not> huge ?e3" "present ?e2" "huge ?e2"
    | (k) "present ?e4" "present ?e3" "\<not> huge ?e3" "present ?e2" "\<not> huge ?e2" "present ?e1"
    using w by (cases "present ?e4"; cases "present ?e3"; cases "huge ?e3"; cases "present ?e2"; cases "huge ?e2";
        cases "present ?e1") auto
  then show ?thesis
  proof cases
    case none
    then have "\<not> present ?e4 \<or> \<not> present ?e3 \<or> \<not> huge ?e3 \<and> (\<not> present ?e2 \<or> \<not> huge ?e2 \<and> \<not> present ?e1)"
      using w by (auto split: if_splits)
    then have "unmap_page_inner root page flush st = Some (Err PageNotMapped, st)"
      by (auto simp: defs)
    then show ?thesis
      using none assms by (simp add: out)
  next
    case g
    note c = clear_leaf_unmaps [of st root 2 page p3 "p3_index page", OF assms]
    have "unmap_page_inner root page flush st
        = Some (Ok (entry_addr ?e3), flush_page flush page (clear_leaf p3 (p3_index page) st))"
      using g c(2) r3 by (simp add: defs prune_p3_def entry_frame_def)
    then show ?thesis
      using c g r3 by (auto simp: out)
  next
    case m
    note c = clear_leaf_unmaps [of st root 1 page p2 "p2_index page", OF assms]
    have "unmap_page_inner root page flush st
        = Some (Ok (entry_addr ?e2), flush_page flush page (clear_leaf p2 (p2_index page) st))"
      using m c(2) r2 by (simp add: defs prune_p2_def entry_frame_def)
    then show ?thesis
      using c m r2 by (auto simp: out)
  next
    case k
    note c = clear_leaf_unmaps [of st root 0 page p1 "p1_index page", OF assms]
    let ?s = "clear_leaf p1 (p1_index page) st"
    let ?s2 = "if contains (entry_flags ?e1) USER_ACCESSIBLE
      then ?s\<lparr>mm_rmap := rmap_remove (entry_addr ?e1) root page (mm_rmap ?s)\<rparr> else ?s"
    have "unmap_page_inner root page flush st = Some (Ok (entry_addr ?e1), flush_page flush page ?s2)"
      using k c(2) r1 by (simp add: defs prune_p1_def entry_frame_def)
    then show ?thesis
      using c k r1 by (auto simp: out)
  qed
qed

section \<open>Translation\<close>

lemma translate_walk:
  assumes "tree (mm_pt st) root lv"
  shows "translate root a st = map_option (\<lambda>(k, e). entry_addr e + (a AND mask (12 + 9 * k))) (walk (mm_pt st) root (indices a))"
proof -
  have "\<not> huge (mm_pt st root (p4_index a))"
    using treeD(5) [OF assms] index_bounds(1) by blast
  moreover have "mask 12 = (0xfff :: u64)" "mask 21 = (0x1fffff :: u64)" "mask 30 = (0x3fffffff :: u64)"
    by (simp_all add: mask_eq_exp_minus_1)
  ultimately show ?thesis
    by (simp add: translate_def Let_def indices_def)
qed

text \<open>The number of the page of size \<open>k\<close> that holds an address, within the 48 bits that are
  translated.\<close>

definition page_number :: "nat \<Rightarrow> VirtAddr \<Rightarrow> nat" where
  "page_number k a = unat a mod 2 ^ 48 div 2 ^ (12 + 9 * k)"

lemma digit_eq:
  assumes "d < 512" "e < (512 :: nat)"
  shows "x * 512 + d = y * 512 + e \<longleftrightarrow> x = y \<and> d = e"
proof
  assume eq: "x * 512 + d = y * 512 + e"
  have "(x * 512 + d) div 512 = x" "(y * 512 + e) div 512 = y"
    using assms by simp_all
  then have "x = y"
    using eq by simp
  then show "x = y \<and> d = e"
    using eq by simp
qed simp

lemma page_number_digits':
  "page_number 0 a = ((p4_index a * 512 + p3_index a) * 512 + p2_index a) * 512 + p1_index a"
  "page_number 1 a = (p4_index a * 512 + p3_index a) * 512 + p2_index a"
  "page_number 2 a = p4_index a * 512 + p3_index a"
proof -
  let ?n = "unat a mod 2 ^ 48 div 4096"
  have "page_number 0 a = ?n" "page_number 1 a = ?n div 512" "page_number 2 a = ?n div 512 div 512"
    by (simp_all add: page_number_def div_mult2_eq [symmetric])
  then show "page_number 0 a = ((p4_index a * 512 + p3_index a) * 512 + p2_index a) * 512 + p1_index a"
    "page_number 1 a = (p4_index a * 512 + p3_index a) * 512 + p2_index a"
    "page_number 2 a = p4_index a * 512 + p3_index a"
    using page_number_digits [of a] index_bounds [of a] by simp_all
qed

lemma page_number_eq:
  assumes "k \<le> 2"
  shows "prefix (take (4 - k) (indices page)) (indices a) \<longleftrightarrow> page_number k a = page_number k page"
proof -
  have 0: "page_number 0 a = page_number 0 page \<longleftrightarrow> prefix (indices page) (indices a)"
    unfolding page_number_digits' using index_bounds [of a] index_bounds [of page]
    by (subst digit_eq, simp, simp, subst digit_eq, simp, simp, subst digit_eq, simp, simp)
      (auto simp: indices_def)
  have 1: "page_number 1 a = page_number 1 page \<longleftrightarrow> prefix [p4_index page, p3_index page, p2_index page] (indices a)"
    unfolding page_number_digits' using index_bounds [of a] index_bounds [of page]
    by (subst digit_eq, simp, simp, subst digit_eq, simp, simp) (auto simp: indices_def)
  have 2: "page_number 2 a = page_number 2 page \<longleftrightarrow> prefix [p4_index page, p3_index page] (indices a)"
    unfolding page_number_digits' using index_bounds [of a] index_bounds [of page]
    by (subst digit_eq, simp, simp) (auto simp: indices_def)
  have "k = 0 \<or> k = 1 \<or> k = 2"
    using assms by auto
  then show ?thesis
    using 0 1 2 by auto
qed

lemma indices_ok [simp]: "length (indices a) = 4" "\<forall>i\<in>set (indices a). i < 512"
  using index_bounds by (simp_all add: indices_def)

lemma inv_translate:
  "mapper_inv st root \<Longrightarrow>
    translate root a st = map_option (\<lambda>(k, e). entry_addr e + (a AND mask (12 + 9 * k))) (walk (mm_pt st) root (indices a))"
  using translate_walk by (auto simp: mapper_inv_def mapper_wf_def)

lemma translate_rmap [simp]: "translate root a (st\<lparr>mm_rmap := r\<rparr>) = translate root a st"
  by (simp add: translate_def Let_def)

lemma same_translate:
  assumes "mapper_inv st root" "mapper_inv st' root" "same_walks st st' root"
  shows "translate root a st' = translate root a st"
  using assms by (simp add: inv_translate same_walks_def)

lemma maps_translate:
  assumes "mapper_inv st root" "mapper_inv st' root" "maps st st' root k page e" "k \<le> 2"
  shows "page_number k a = page_number k page \<Longrightarrow> translate root a st = None"
    "page_number k a = page_number k page \<Longrightarrow> translate root a st' = Some (entry_addr e + (a AND mask (12 + 9 * k)))"
    "page_number k a \<noteq> page_number k page \<Longrightarrow> translate root a st' = translate root a st"
  using assms by (simp_all add: inv_translate maps_def page_number_eq)

lemma unmaps_translate:
  assumes "mapper_inv st root" "mapper_inv st' root" "unmaps st st' root k page" "k \<le> 2"
  shows "page_number k a = page_number k page \<Longrightarrow> translate root a st' = None"
    "page_number k a \<noteq> page_number k page \<Longrightarrow> translate root a st' = translate root a st"
  using assms by (simp_all add: inv_translate unmaps_def page_number_eq)

lemma map_level_le: "map_level page frame flags \<le> 2"
  by (simp add: map_level_def)

section \<open>Migration\<close>

lemma room_clear_leaf:
  assumes "mapper_inv st root" "reach (mm_pt st) root pre = Some t" "1 \<le> length pre" "length pre \<le> 3"
    "\<forall>i\<in>set pre. i < 512" "i < 512" "present (mm_pt st t i)" "length pre = 3 \<or> huge (mm_pt st t i)" "room n st"
  shows "room n (clear_leaf t i st)"
proof -
  obtain lv where wf: "mapper_wf st root lv"
    using assms(1) by (auto simp: mapper_inv_def)
  have tree: "tree (mm_pt st) root lv" and cnt: "counted st lv"
    using wf by (simp_all add: mapper_wf_def)
  have lt: "lv t = Some (4 - length pre)"
    using reach_in_tree [OF tree assms(2) _ assms(5)] assms(4) by simp
  have l3: "4 - length pre \<le> 3"
    using assms(3) by simp
  have "unat (c idx - 1) \<le> unat (c idx)" if "mm_counts st = Some (c, len)" "idx = pfn_of_table t" "idx < len" for c len idx
  proof -
    have "table_count t st = Some (c idx)"
      using that by (simp add: table_count_def)
    from countedD [OF cnt lt l3 this] show ?thesis
      by (subst unat_sub_le) (auto simp: word_le_nat_alt)
  qed
  then show ?thesis
    using assms(9) unfolding room_def clear_leaf_def dec_table_count_def
    by (auto simp: Let_def split: option.splits if_splits) fastforce
qed

text \<open>A 4 KiB page: its table stays in place, so it can be mapped again without a new table.\<close>

lemma walk_4k:
  assumes "tree pt root lv" "walk pt root (indices page) = Some (0, e)"
  shows "\<exists>p1. reach pt root [p4_index page, p3_index page, p2_index page] = Some p1
    \<and> present (pt p1 (p1_index page)) \<and> e = pt p1 (p1_index page)"
proof -
  have "\<not> huge (pt root (p4_index page))"
    using treeD(5) [OF assms(1)] index_bounds(1) by blast
  then show ?thesis
    using assms(2) by (auto simp: indices_def child_def split: if_splits)
qed

lemma map_again:
  assumes "reach (mm_pt st) root [p4_index page, p3_index page, p2_index page] = Some p1"
    "\<not> contains flags HUGE_PAGE"
  shows "map_page_inner root page frame flags flush st = map_4k root p1 page frame flags flush st"
proof -
  obtain p3 p2 where p: "child (mm_pt st) root (p4_index page) = Some p3" "child (mm_pt st) p3 (p3_index page) = Some p2"
    "child (mm_pt st) p2 (p2_index page) = Some p1"
    using assms(1) by (auto simp: bind_eq_Some_conv)
  have "get_next_table_by_index t i st = Some (Ok u, st)" if "child (mm_pt st) t i = Some u" for t i u
    using that by (auto simp: get_next_table_by_index_def child_def split: if_splits)
  then show ?thesis
    using p assms(2) by (simp add: map_page_inner_def)
qed

lemma unmap_4k:
  assumes "mapper_inv st root" "walk (mm_pt st) root (indices page) = Some (0, e)" "room n st"
  shows "\<exists>st' p1. unmap_page_inner root page flush st = Some (Ok (entry_addr e), st') \<and> mapper_inv st' root
    \<and> unmaps st st' root 0 page \<and> room n st'
    \<and> reach (mm_pt st') root [p4_index page, p3_index page, p2_index page] = Some p1
    \<and> mm_pt st' p1 (p1_index page) = 0"
proof -
  obtain lv where tree: "tree (mm_pt st) root lv"
    using assms(1) by (auto simp: mapper_inv_def mapper_wf_def)
  obtain p1 where p1: "reach (mm_pt st) root [p4_index page, p3_index page, p2_index page] = Some p1"
    "present (mm_pt st p1 (p1_index page))" "e = mm_pt st p1 (p1_index page)"
    using walk_4k [OF tree assms(2)] by blast
  let ?s = "clear_leaf p1 (p1_index page) st"
  have c: "mapper_inv ?s root" "\<not> table_empty p1 ?s" "unmaps st ?s root 0 page"
    using clear_leaf_unmaps [of st root 0 page p1 "p1_index page", OF assms(1)] p1 by simp_all
  have ib: "\<forall>i\<in>set [p4_index page, p3_index page, p2_index page]. i < 512" "p1_index page < 512"
    using index_bounds by simp_all
  have rm: "room n ?s"
    using room_clear_leaf [OF assms(1) p1(1) _ _ ib p1(2) _ assms(3)] by simp
  have pt: "mm_pt ?s = upd_entry (mm_pt st) p1 (p1_index page) 0"
    by (simp add: clear_leaf_def set_unused_def)
  have re: "reach (mm_pt ?s) root [p4_index page, p3_index page, p2_index page] = Some p1"
    unfolding pt by (rule reach_upd [OF tree p1(1) _ ib(1)]) simp
  let ?s2 = "flush_page flush page (if contains (entry_flags e) USER_ACCESSIBLE
      then ?s\<lparr>mm_rmap := rmap_remove (entry_addr e) root page (mm_rmap ?s)\<rparr> else ?s)"
  have "unmap_page_inner root page flush st = Some (Ok (entry_addr e), ?s2)"
    using p1 c(2) by (auto simp: unmap_page_inner_def Let_def prune_p1_def entry_frame_def bind_eq_Some_conv child_def
        split: if_splits)
  moreover have "mm_pt ?s2 = mm_pt ?s" "mapper_inv ?s2 root" "unmaps st ?s2 root 0 page" "room n ?s2"
    using c rm by (simp_all add: room_def)
  ultimately show ?thesis
    using re pt by auto
qed

section \<open>Properties of the mapper\<close>





text \<open>A state with a root at frame 5 that maps the page at \<open>0x400000\<close> to frame 7 through tables at
  the frames 1, 2 and 3.\<close>

definition sample_tables :: tables where
  "sample_tables t i =
    (if t = 0x5000 \<and> i = 0 then 0x1007 else if t = 0x1000 \<and> i = 0 then 0x2007
     else if t = 0x2000 \<and> i = 2 then 0x3007 else if t = 0x3000 \<and> i = 0 then 0x7007 else 0)"

definition sample_levels :: "PhysAddr \<Rightarrow> nat option" where
  "sample_levels = [0x5000 \<mapsto> 4, 0x1000 \<mapsto> 3, 0x2000 \<mapsto> 2, 0x3000 \<mapsto> 1]"

definition sample_mm :: MmState where
  "sample_mm = \<lparr>mm_pt = sample_tables, mm_counts = Some (\<lambda>_. 2, 64), mm_pmm = sample_pmm, mm_rmap = rmap_new,
     mm_cpu = 0, mm_flushed = []\<rparr>"

lemma sample_entries:
  "present 0x1007" "\<not> huge 0x1007" "entry_addr 0x1007 = 0x1000" "present 0x2007" "\<not> huge 0x2007" "entry_addr 0x2007 = 0x2000"
  "present 0x3007" "\<not> huge 0x3007" "entry_addr 0x3007 = 0x3000" "present 0x7007" "\<not> huge 0x7007" "entry_addr 0x7007 = 0x7000"
  by (simp_all add: contains_def entry_flags_def all_flags_value PRESENT_def HUGE_PAGE_def entry_addr_def)

lemma sample_child:
  "child sample_tables t i = (if t = 0x5000 \<and> i = 0 then Some 0x1000 else if t = 0x1000 \<and> i = 0 then Some 0x2000
     else if t = 0x2000 \<and> i = 2 then Some 0x3000 else if t = 0x3000 \<and> i = 0 then Some 0x7000 else None)"
  by (simp add: child_def sample_tables_def sample_entries)

lemma sample_tree: "tree sample_tables 0x5000 sample_levels"
  by (auto simp: tree_def sample_child sample_levels_def sample_tables_def sample_entries split: if_splits)

lemma sample_frames: "frame_address (Suc 0) = 0x1000" "frame_address 2 = 0x2000" "frame_address 3 = 0x3000" "frame_address 5 = 0x5000"
  by (simp_all add: frame_address_def)

lemma sample_mm_inv: "mapper_inv sample_mm 0x5000" and sample_mm_room: "room 4 sample_mm"
proof -
  have lv: "\<exists>p. t = frame_address p \<and> p < 64 \<and> p \<notin> {8..<64}" if "sample_levels t = Some l" for t l
  proof -
    have "\<exists>p\<in>{1, 2, 3, 5}. t = frame_address p"
      using that by (auto simp: sample_levels_def sample_frames split: if_splits)
    then obtain p where "p \<in> {1, 2, 3, 5}" "t = frame_address p"
      by blast
    then show ?thesis
      by (intro exI [of _ p]) auto
  qed
  have small: "card (leaves sample_tables l t) < 2" if "sample_levels t = Some l" for t l
  proof -
    have "leaves sample_tables l t \<subseteq> {0}"
      using that by (auto simp: leaves_def sample_tables_def sample_entries sample_levels_def split: if_splits)
    then have "card (leaves sample_tables l t) \<le> card {0 :: nat}"
      by (rule card_mono [OF finite.insertI [OF finite.emptyI]])
    then show ?thesis
      by simp
  qed
  have cnt: "table_count t sample_mm = Some 2" if "sample_levels t = Some l" for t l
    using that by (auto simp: sample_mm_def sample_levels_def table_count_def pfn_of_table_def split: if_splits)
  have "total_frames sample_pmm = 64"
    by (simp add: sample_pmm_def)
  then have "mapper_wf sample_mm 0x5000 sample_levels"
    using sample_tree small cnt lv sample_valid sample_avail
    by (auto simp: mapper_wf_def counted_def pmm_fits_def in_use_def sample_mm_def)
  then show "mapper_inv sample_mm 0x5000"
    by (auto simp: mapper_inv_def)
  show "room 4 sample_mm"
    by (simp add: room_def sample_mm_def)
qed

lemma sample_walk: "walk (mm_pt sample_mm) 0x5000 (indices 0x400000) = Some (0, 0x7007)"
  by (simp add: sample_mm_def indices_def index_unat sample_tables_def sample_entries)





end
