(* ===== verification/AddressSpace.thy ===== *)
theory AddressSpace
  imports Mapper VmaTree
begin

text \<open>
  Address spaces (\<open>mm/src/memory_set/address_space.rs\<close>) and page faults
  (\<open>mm/src/memory_set/fault.rs\<close>).

  A \<open>MemorySet\<close> owns a root table and a treap of areas. The operations run on the memory of the
  machine: the page tables and the frame allocator of \<open>Mapper\<close>, the bytes of the data frames, the
  counters of the treap, and the root of the kernel. A frame is used either as a table or for
  data, so the two are kept apart. \<open>PHYS_OFFSET\<close> is set before the first address space is made;
  the \<open>PhysOffsetMissing\<close> branches are not reached. \<open>flush_all\<close> only concerns the TLB and has no
  counterpart. \<open>None\<close> is a panic.
\<close>

section \<open>State\<close>

record MemState =
  ms_mm :: MmState
  ms_bytes :: "PhysAddr \<Rightarrow> u8"
  ms_vstats :: VmaStats
  ms_kernel_p4 :: PhysAddr
  ms_phys_offset :: u64

record MemorySet =
  set_p4 :: PhysAddr
  set_vma :: IntervalNode
  set_stack_bottom :: "VirtAddr option"
  set_stack_top :: "VirtAddr option"
  set_stack_limit :: "VirtAddr option"

text \<open>\<open>frame_allocator::allocate_frame\<close> and \<open>deallocate_frame\<close> on the machine state.\<close>

definition take_frame :: "MemState \<Rightarrow> (PhysAddr option \<times> MemState) option" where
  "take_frame st =
    do {
      (frame, pmm) \<leftarrow> allocate_frame (mm_cpu (ms_mm st)) (mm_pmm (ms_mm st));
      Some (frame, st\<lparr>ms_mm := (ms_mm st)\<lparr>mm_pmm := pmm\<rparr>\<rparr>)
    }"

definition give_frame :: "PhysAddr \<Rightarrow> MemState \<Rightarrow> MemState option" where
  "give_frame phys st =
    do {
      pmm \<leftarrow> deallocate_frame (mm_cpu (ms_mm st)) phys (mm_pmm (ms_mm st));
      Some (st\<lparr>ms_mm := (ms_mm st)\<lparr>mm_pmm := pmm\<rparr>\<rparr>)
    }"

text \<open>The calls of the mapper on the machine state.\<close>

definition with_mm :: "(MmState \<Rightarrow> ('a \<times> MmState) option) \<Rightarrow> MemState \<Rightarrow> ('a \<times> MemState) option" where
  "with_mm f st = do { (r, mm) \<leftarrow> f (ms_mm st); Some (r, st\<lparr>ms_mm := mm\<rparr>) }"

text \<open>\<open>(start..end).step_by(4096)\<close>.\<close>

definition page_list :: "u64 \<Rightarrow> u64 \<Rightarrow> u64 list" where
  "page_list s e = map (\<lambda>k. s + of_nat (4096 * k)) [0..<(unat e - unat s + 4095) div 4096]"

definition area_pages :: "MemoryArea \<Rightarrow> u64 list" where
  "area_pages ar = page_list (align_down (area_start ar) 4096) (align_up (area_end ar) 4096)"

section \<open>Creation\<close>

definition new_bare :: "MemState \<Rightarrow> ((MemorySet, MmError) result \<times> MemState) option" where
  "new_bare st =
    do {
      (frame, st) \<leftarrow> take_frame st;
      (case frame of
         None \<Rightarrow> Some (Err FrameAllocationFailed, st)
       | Some phys \<Rightarrow>
           let mm = zero_table phys (ms_mm st);
               kernel = mm_pt mm (ms_kernel_p4 st);
               mm = mm\<lparr>mm_pt := (mm_pt mm)(phys := (\<lambda>i. if 256 \<le> i \<and> i < 512 then kernel i else mm_pt mm phys i))\<rparr>;
               hhdm_p4 = p4_index (ms_phys_offset st)
           in if \<not> contains (entry_flags (mm_pt mm phys hhdm_p4)) PRESENT then None
              else Some (Ok \<lparr>set_p4 = phys, set_vma = Empty, set_stack_bottom = None, set_stack_top = None,
                         set_stack_limit = None\<rparr>, st\<lparr>ms_mm := mm\<rparr>))
    }"

definition token :: "MemorySet \<Rightarrow> u64" where
  "token ms = set_p4 ms"

definition ms_insert_area :: "MemoryArea \<Rightarrow> MemorySet \<Rightarrow> MemState \<Rightarrow> ((unit, MapError) result \<times> MemorySet \<times> MemState) option" where
  "ms_insert_area ar ms st =
    do {
      (r, t, vs) \<leftarrow> insert_area (set_vma ms) (ms_vstats st) ar;
      Some (r, ms\<lparr>set_vma := t\<rparr>, st\<lparr>ms_vstats := vs\<rparr>)
    }"

definition push_lazy :: "MemoryArea \<Rightarrow> MemorySet \<Rightarrow> MemState \<Rightarrow> (MemorySet \<times> MemState) option" where
  "push_lazy ar ms st =
    do {
      (r, ms, st) \<leftarrow> ms_insert_area ar ms st;
      (case r of Ok _ \<Rightarrow> Some (ms, st) | Err _ \<Rightarrow> None)
    }"

section \<open>Checks of ranges\<close>

text \<open>\<open>nxt\<close> is \<open>self.vma.find_next\<close>.\<close>

partial_function (option) check_loop :: "(u64 \<Rightarrow> MemoryArea option) \<Rightarrow> u64 \<Rightarrow> PageTableFlags \<Rightarrow> u64 \<Rightarrow> MemoryArea option \<Rightarrow> bool option" where
  "check_loop nxt e required cur current_area =
    (if cur < e then
       (case current_area of
          None \<Rightarrow> Some False
        | Some ar \<Rightarrow>
            if area_start ar > cur then Some False
            else if \<not> contains (area_flags ar) required then Some False
            else let cur = min e (area_end ar)
                 in check_loop nxt e required cur (if cur < e then nxt cur else current_area))
     else Some True)"

definition check_range :: "MemorySet \<Rightarrow> VirtAddr \<Rightarrow> usize \<Rightarrow> PageTableFlags \<Rightarrow> bool option" where
  "check_range ms addr len required =
    (if len = 0 then Some True
     else case checked_add addr len of
       None \<Rightarrow> Some False
     | Some e \<Rightarrow>
         check_loop (find_next (set_vma ms)) e required addr
           (case find_containing (set_vma ms) addr of None \<Rightarrow> find_next (set_vma ms) addr | Some a \<Rightarrow> Some a))"

definition check_validity :: "MemorySet \<Rightarrow> VirtAddr \<Rightarrow> usize \<Rightarrow> bool option" where
  "check_validity ms addr len = check_range ms addr len 0"

definition entry_allows :: "PageTableFlags \<Rightarrow> PageTableFlags \<Rightarrow> bool" where
  "entry_allows flags required \<longleftrightarrow> contains flags PRESENT \<and> contains flags required"

definition page_access_ok :: "PhysAddr \<Rightarrow> VirtAddr \<Rightarrow> PageTableFlags \<Rightarrow> PageTableFlags \<Rightarrow> MmState \<Rightarrow> bool" where
  "page_access_ok p4 page hierarchy_required leaf_required st =
    (let p4_entry = mm_pt st p4 (p4_index page)
     in if \<not> entry_allows (entry_flags p4_entry) hierarchy_required then False
     else let p3_entry = mm_pt st (entry_addr p4_entry) (p3_index page)
     in if \<not> entry_allows (entry_flags p3_entry) hierarchy_required then False
     else if contains (entry_flags p3_entry) HUGE_PAGE then entry_allows (entry_flags p3_entry) leaf_required
     else let p2_entry = mm_pt st (entry_addr p3_entry) (p2_index page)
     in if \<not> entry_allows (entry_flags p2_entry) hierarchy_required then False
     else if contains (entry_flags p2_entry) HUGE_PAGE then entry_allows (entry_flags p2_entry) leaf_required
     else let p1_entry = mm_pt st (entry_addr p2_entry) (p1_index page)
     in entry_allows (entry_flags p1_entry) leaf_required)"

partial_function (option) mapped_loop :: "(u64 \<Rightarrow> bool) \<Rightarrow> u64 \<Rightarrow> u64 \<Rightarrow> bool option" where
  "mapped_loop ok final page =
    (if \<not> ok page then Some False
     else if page = final then Some True
     else mapped_loop ok final (page + 4096))"

definition check_range_mapped :: "MemorySet \<Rightarrow> VirtAddr \<Rightarrow> usize \<Rightarrow> PageTableFlags \<Rightarrow> MmState \<Rightarrow> bool option" where
  "check_range_mapped ms addr len required st =
    do {
      valid \<leftarrow> check_range ms addr len required;
      if \<not> valid then Some False
      else if len = 0 then Some True
      else case checked_add addr len of
        None \<Rightarrow> Some False
      | Some e \<Rightarrow>
          mapped_loop
            (\<lambda>page. page_access_ok (set_p4 ms) page (required AND (USER_ACCESSIBLE OR WRITABLE)) required st)
            (align_down (e - 1) 4096) (align_down addr 4096)
    }"

text \<open>\<open>MemorySet::translate\<close> repeats the walk of the mapper on the set's own root.\<close>

definition ms_translate :: "MemorySet \<Rightarrow> VirtAddr \<Rightarrow> MmState \<Rightarrow> PhysAddr option" where
  "ms_translate ms addr st = translate (set_p4 ms) addr st"

section \<open>Mapping areas\<close>

definition zero_frame :: "PhysAddr \<Rightarrow> MemState \<Rightarrow> MemState" where
  "zero_frame phys st = st\<lparr>ms_bytes := (\<lambda>a. if unat (a - phys) < 4096 then 0 else ms_bytes st a)\<rparr>"

definition copy_data :: "PhysAddr \<Rightarrow> u8 list \<Rightarrow> MemState \<Rightarrow> MemState" where
  "copy_data phys src st =
    st\<lparr>ms_bytes := (\<lambda>a. if unat (a - phys) < length src then src ! unat (a - phys) else ms_bytes st a)\<rparr>"

definition fill_page :: "PhysAddr \<Rightarrow> u64 \<Rightarrow> u8 list option \<Rightarrow> MemState \<Rightarrow> MemState" where
  "fill_page phys offset data st =
    (let st = zero_frame phys st
     in case data of
          None \<Rightarrow> st
        | Some d \<Rightarrow> if unat offset < length d then copy_data phys (take 4096 (drop (unat offset) d)) st else st)"

fun rollback :: "PhysAddr \<Rightarrow> (VirtAddr \<times> PhysAddr) list \<Rightarrow> MemState \<Rightarrow> MemState option" where
  "rollback p4 [] st = Some st"
| "rollback p4 ((page, phys) # acc) st =
    do {
      (r, st) \<leftarrow> with_mm (unmap_page_noflush p4 page) st;
      st \<leftarrow> (case r of Ok _ \<Rightarrow> give_frame phys st | Err _ \<Rightarrow> Some st);
      rollback p4 acc st
    }"

fun push_pages ::
  "PhysAddr \<Rightarrow> MemoryArea \<Rightarrow> u8 list option \<Rightarrow> u64 list \<Rightarrow> (VirtAddr \<times> PhysAddr) list \<Rightarrow> MemState
    \<Rightarrow> ((unit, MapError) result \<times> MemState) option" where
  "push_pages p4 ar data [] acc st = Some (Ok (), st)"
| "push_pages p4 ar data (page # ps) acc st =
    do {
      (frame, st) \<leftarrow> take_frame st;
      (case frame of
         None \<Rightarrow> Some (Err MapFrameAllocationFailed, st)
       | Some phys \<Rightarrow>
           do {
             (r, st) \<leftarrow> with_mm (map_page_noflush p4 page phys (area_flags ar)) st;
             (case r of
                Err e \<Rightarrow> do { st \<leftarrow> rollback p4 (rev acc) st; Some (Err e, st) }
              | Ok _ \<Rightarrow>
                  push_pages p4 ar data ps (acc @ [(page, phys)]) (fill_page phys (page - area_start ar) data st))
           })
    }"

definition push :: "MemoryArea \<Rightarrow> u8 list option \<Rightarrow> MemorySet \<Rightarrow> MemState \<Rightarrow> ((unit, MapError) result \<times> MemorySet \<times> MemState) option" where
  "push ar data ms st =
    do {
      (r, st) \<leftarrow> push_pages (set_p4 ms) ar data (area_pages ar) [] st;
      (case r of Err e \<Rightarrow> Some (Err e, ms, st) | Ok _ \<Rightarrow> ms_insert_area ar ms st)
    }"

definition map_user_range ::
  "VirtAddr \<Rightarrow> VirtAddr \<Rightarrow> PageTableFlags \<Rightarrow> MemorySet \<Rightarrow> MemState \<Rightarrow> ((unit, MapError) result \<times> MemorySet \<times> MemState) option" where
  "map_user_range s e flags ms st =
    (if s \<ge> e then Some (Ok (), ms, st) else push (memory_area_new s e flags) None ms st)"

section \<open>Dropping and forking\<close>

fun unmap_pages :: "PhysAddr \<Rightarrow> u64 list \<Rightarrow> MemState \<Rightarrow> MemState option" where
  "unmap_pages p4 [] st = Some st"
| "unmap_pages p4 (page # ps) st =
    do {
      (r, st) \<leftarrow> with_mm (unmap_page_noflush p4 page) st;
      st \<leftarrow> (case r of Ok phys \<Rightarrow> give_frame phys st | Err _ \<Rightarrow> Some st);
      unmap_pages p4 ps st
    }"

definition drop_set :: "MemorySet \<Rightarrow> MemState \<Rightarrow> MemState option" where
  "drop_set ms st =
    do {
      let all_areas = for_each_in_order (set_vma ms) (\<lambda>ar acc. acc @ [ar]) [];
      st \<leftarrow> unmap_pages (set_p4 ms) (concat (map area_pages all_areas)) st;
      if is_aligned (set_p4 ms) 4096 then give_frame (set_p4 ms) st else Some st
    }"

definition copy_frame :: "PhysAddr \<Rightarrow> PhysAddr \<Rightarrow> MemState \<Rightarrow> MemState" where
  "copy_frame src dst st =
    st\<lparr>ms_bytes := (\<lambda>a. if unat (a - dst) < 4096 then ms_bytes st (src + (a - dst)) else ms_bytes st a)\<rparr>"

fun fork_pages ::
  "MemorySet \<Rightarrow> PhysAddr \<Rightarrow> PageTableFlags \<Rightarrow> u64 list \<Rightarrow> MemState \<Rightarrow> ((unit, MmError) result \<times> MemState) option" where
  "fork_pages parent p4 flags [] st = Some (Ok (), st)"
| "fork_pages parent p4 flags (page # ps) st =
    do {
      (frame, st) \<leftarrow> take_frame st;
      (case frame of
         None \<Rightarrow> Some (Err FrameAllocationFailed, st)
       | Some new_phys \<Rightarrow>
           do {
             (r, st) \<leftarrow> with_mm (map_page_noflush p4 page new_phys flags) st;
             (case r of
                Err e \<Rightarrow> Some (Err (Map e), st)
              | Ok _ \<Rightarrow>
                  fork_pages parent p4 flags ps
                    (case ms_translate parent page (ms_mm st) of
                       Some src_phys \<Rightarrow> copy_frame src_phys new_phys st
                     | None \<Rightarrow> zero_frame new_phys st))
           })
    }"

fun fork_areas :: "MemorySet \<Rightarrow> PhysAddr \<Rightarrow> MemoryArea list \<Rightarrow> MemState \<Rightarrow> ((unit, MmError) result \<times> MemState) option" where
  "fork_areas parent p4 [] st = Some (Ok (), st)"
| "fork_areas parent p4 (ar # as) st =
    ebind (fork_pages parent p4 (area_flags ar) (area_pages ar) st) (\<lambda>_ st. fork_areas parent p4 as st)"

fun push_all :: "MemoryArea list \<Rightarrow> MemorySet \<Rightarrow> MemState \<Rightarrow> (MemorySet \<times> MemState) option" where
  "push_all [] ms st = Some (ms, st)"
| "push_all (ar # as) ms st = do { (ms, st) \<leftarrow> push_lazy ar ms st; push_all as ms st }"

text \<open>When the copy fails the new set goes out of scope and is dropped.\<close>

definition fork :: "MemorySet \<Rightarrow> MemState \<Rightarrow> ((MemorySet, MmError) result \<times> MemState) option" where
  "fork parent st =
    ebind (new_bare st) (\<lambda>new_set st.
      do {
        let new_set = new_set\<lparr>set_stack_bottom := set_stack_bottom parent, set_stack_top := set_stack_top parent,
                              set_stack_limit := set_stack_limit parent\<rparr>;
        let all_areas = for_each_in_order (set_vma parent) (\<lambda>ar acc. acc @ [ar]) [];
        (new_set, st) \<leftarrow> push_all all_areas new_set st;
        (r, st) \<leftarrow> fork_areas parent (set_p4 new_set) all_areas st;
        (case r of
           Ok _ \<Rightarrow> Some (Ok new_set, st)
         | Err e \<Rightarrow> do { st \<leftarrow> drop_set new_set st; Some (Err e, st) })
      })"

section \<open>Page faults\<close>

text \<open>The bits of the error code that the handler looks at.\<close>

record PageFaultErrorCode =
  pf_protection_violation :: bool
  pf_caused_by_write :: bool
  pf_user_mode :: bool
  pf_instruction_fetch :: bool

definition try_grow_stack ::
  "VirtAddr \<Rightarrow> PageFaultErrorCode \<Rightarrow> MemorySet \<Rightarrow> MemState \<Rightarrow> ((bool, MapError) result \<times> MemorySet \<times> MemState) option" where
  "try_grow_stack addr error_code ms st =
    (if \<not> pf_user_mode error_code then Some (Ok False, ms, st)
     else case (set_stack_bottom ms, set_stack_top ms, set_stack_limit ms) of
       (Some stack_bottom, Some stack_top, Some stack_limit) \<Rightarrow>
         if addr \<ge> stack_top \<or> addr < stack_limit \<or> addr \<ge> stack_bottom then Some (Ok False, ms, st)
         else let page_addr = align_down addr 4096; flags = PRESENT OR WRITABLE OR USER_ACCESSIBLE
         in if page_addr < stack_limit then Some (Ok False, ms, st)
         else do {
           (frame, st) \<leftarrow> take_frame st;
           (case frame of
              None \<Rightarrow> Some (Err MapFrameAllocationFailed, ms, st)
            | Some phys \<Rightarrow>
                do {
                  (r, st) \<leftarrow> with_mm (map_page (set_p4 ms) page_addr phys flags) (zero_frame phys st);
                  (case r of
                     Err e \<Rightarrow> Some (Err e, ms, st)
                   | Ok _ \<Rightarrow>
                       do {
                         (ri, ms, st) \<leftarrow> ms_insert_area (memory_area_new page_addr stack_bottom flags) ms st;
                         (case ri of
                            Ok _ \<Rightarrow> Some (Ok True, ms\<lparr>set_stack_bottom := Some page_addr\<rparr>, st)
                          | Err _ \<Rightarrow>
                              do {
                                (ru, st) \<leftarrow> with_mm (unmap_page (set_p4 ms) page_addr) st;
                                st \<leftarrow> (case ru of Ok p \<Rightarrow> give_frame p st | Err _ \<Rightarrow> Some st);
                                Some (Err InvalidAccess, ms, st)
                              })
                       })
                })
         }
     | _ \<Rightarrow> Some (Ok False, ms, st))"

definition access_denied :: "PageFaultErrorCode \<Rightarrow> MemoryArea \<Rightarrow> bool" where
  "access_denied error_code ar \<longleftrightarrow>
     pf_caused_by_write error_code \<and> \<not> contains (area_flags ar) WRITABLE
   \<or> pf_user_mode error_code \<and> \<not> contains (area_flags ar) USER_ACCESSIBLE
   \<or> pf_instruction_fetch error_code \<and> contains (area_flags ar) NO_EXECUTE"

definition handle_page_fault ::
  "VirtAddr \<Rightarrow> PageFaultErrorCode \<Rightarrow> MemorySet \<Rightarrow> MemState \<Rightarrow> ((unit, MapError) result \<times> MemorySet \<times> MemState) option" where
  "handle_page_fault addr error_code ms st =
    (if pf_protection_violation error_code then Some (Err InvalidAccess, ms, st)
     else case find_containing (set_vma ms) addr of
       None \<Rightarrow>
         do {
           (r, ms, st) \<leftarrow> try_grow_stack addr error_code ms st;
           Some (case r of Err e \<Rightarrow> Err e | Ok grown \<Rightarrow> if grown then Ok () else Err InvalidAccess, ms, st)
         }
     | Some ar \<Rightarrow>
         if access_denied error_code ar then Some (Err InvalidAccess, ms, st)
         else do {
           (frame, st) \<leftarrow> take_frame st;
           (case frame of
              None \<Rightarrow> Some (Err MapFrameAllocationFailed, ms, st)
            | Some phys \<Rightarrow>
                do {
                  (r, st) \<leftarrow> with_mm (map_page (set_p4 ms) (align_down addr 4096) phys (area_flags ar OR PRESENT))
                              (zero_frame phys st);
                  Some (r, ms, st)
                })
         })"

section \<open>The lookups that the range check relies on\<close>

text \<open>A set of areas with a lookup of the area that contains an address and of the first area that
  starts at or after an address.\<close>

locale area_index =
  fixes wf :: "'t \<Rightarrow> bool"
    and ars :: "'t \<Rightarrow> MemoryArea set"
    and containing :: "'t \<Rightarrow> u64 \<Rightarrow> MemoryArea option"
    and next_from :: "'t \<Rightarrow> u64 \<Rightarrow> MemoryArea option"
  assumes containing_iff: "wf t \<Longrightarrow> containing t x = Some a \<longleftrightarrow> a \<in> ars t \<and> area_contains a x"
    and next_from_SomeD: "wf t \<Longrightarrow> next_from t x = Some a \<Longrightarrow> a \<in> ars t \<and> x \<le> area_start a"
    and next_from_start: "wf t \<Longrightarrow> a \<in> ars t \<Longrightarrow> next_from t (area_start a) = Some a"
    and nonempty: "wf t \<Longrightarrow> a \<in> ars t \<Longrightarrow> area_start a < area_end a"
begin

definition covered :: "'t \<Rightarrow> PageTableFlags \<Rightarrow> u64 \<Rightarrow> bool" where
  "covered t required x \<longleftrightarrow> (\<exists>a. containing t x = Some a \<and> contains (area_flags a) required)"

text \<open>The area to look at next is the one that contains the current address, if there is one.\<close>

definition current :: "'t \<Rightarrow> u64 \<Rightarrow> MemoryArea option \<Rightarrow> bool" where
  "current t cur r \<longleftrightarrow> (\<forall>a. containing t cur = Some a \<longrightarrow> r = Some a)
     \<and> (\<forall>a. r = Some a \<longrightarrow> area_start a \<le> cur \<longrightarrow> containing t cur = Some a)"

lemma current_first:
  assumes wf: "wf t"
  shows "current t x (case containing t x of None \<Rightarrow> next_from t x | Some a \<Rightarrow> Some a)"
proof (cases "containing t x")
  case None
  have "containing t x = Some a" if "next_from t x = Some a" "area_start a \<le> x" for a
    using next_from_SomeD [OF wf that(1)] that(2) nonempty [OF wf, of a] containing_iff [OF wf, of x a]
    by (auto simp: area_contains_def)
  then show ?thesis
    using None by (auto simp: current_def)
next
  case (Some a)
  then show ?thesis
    by (simp add: current_def)
qed

lemma current_step:
  assumes wf: "wf t" and asm: "containing t x = Some a"
  shows "current t (area_end a) (next_from t (area_end a))"
proof -
  let ?y = "area_end a"
  have ax: "a \<in> ars t" "area_start a \<le> x" "x < ?y"
    using asm containing_iff [OF wf, of x a] by (simp_all add: area_contains_def)
  have "next_from t ?y = Some b" if b: "containing t ?y = Some b" for b
  proof -
    have b': "b \<in> ars t" "area_start b \<le> ?y" "?y < area_end b"
      using b containing_iff [OF wf, of ?y b] by (simp_all add: area_contains_def)
    have "area_start b = ?y"
    proof (rule ccontr)
      assume "area_start b \<noteq> ?y"
      then have lt: "area_start b < ?y"
        using b'(2) by simp
      let ?z = "max (area_start b) x"
      have "area_contains a ?z"
        using ax lt by (simp add: area_contains_def le_max_iff_disj)
      moreover have "area_contains b ?z"
        using nonempty [OF wf b'(1)] less_trans [OF ax(3) b'(3)] by (simp add: area_contains_def)
      ultimately have "a = b"
        using containing_iff [OF wf, of ?z a] containing_iff [OF wf, of ?z b] ax(1) b'(1) by simp
      then show False
        using b'(3) by simp
    qed
    then show ?thesis
      using next_from_start [OF wf b'(1)] by simp
  qed
  moreover have "containing t ?y = Some b" if "next_from t ?y = Some b" "area_start b \<le> ?y" for b
  proof -
    have b: "b \<in> ars t" "area_start b = ?y"
      using next_from_SomeD [OF wf that(1)] that(2) by simp_all
    then show ?thesis
      using nonempty [OF wf b(1)] by (simp add: containing_iff [OF wf] area_contains_def)
  qed
  ultimately show ?thesis
    unfolding current_def by blast
qed

lemma check_loop_gap:
  assumes wf: "wf t" and asm: "current t cur r" "cur < e" "containing t cur = None"
  shows "check_loop (next_from t) e required cur r = Some False"
proof (cases r)
  case None
  then show ?thesis
    using asm(2) by (subst check_loop.simps) simp
next
  case (Some b)
  then have "\<not> area_start b \<le> cur"
    using asm(1, 3) by (auto simp: current_def)
  then have "cur < area_start b"
    by simp
  then show ?thesis
    using asm(2) Some by (subst check_loop.simps) simp
qed

lemma check_loop_area:
  assumes wf: "wf t" and asm: "current t cur r" "cur < e" "containing t cur = Some a"
  shows "check_loop (next_from t) e required cur r =
    (if \<not> contains (area_flags a) required then Some False
     else if area_end a < e then check_loop (next_from t) e required (area_end a) (next_from t (area_end a))
     else Some True)"
proof -
  have "\<not> cur < area_start a"
    using asm(3) containing_iff [OF wf, of cur a] by (simp add: area_contains_def not_less)
  moreover have "r = Some a"
    using asm(1, 3) unfolding current_def by blast
  ultimately have step: "check_loop (next_from t) e required cur r =
      (if \<not> contains (area_flags a) required then Some False
       else let n = min e (area_end a)
            in check_loop (next_from t) e required n (if n < e then next_from t n else r))"
    using asm(2) by (subst check_loop.simps) simp
  have last: "check_loop (next_from t) e required e r = Some True"
    by (subst check_loop.simps) simp
  show ?thesis
  proof (cases "area_end a < e")
    case True
    then have "min e (area_end a) = area_end a"
      by (simp add: min_absorb2)
    then show ?thesis
      using True by (simp only: step Let_def if_True)
  next
    case False
    then have "min e (area_end a) = e"
      by (simp add: min_absorb1)
    then show ?thesis
      using False by (simp only: step Let_def if_False less_irrefl last)
  qed
qed

lemma area_covered:
  assumes wf: "wf t" and asm: "containing t cur = Some a" "cur \<le> x" "x < area_end a"
  shows "covered t required x \<longleftrightarrow> contains (area_flags a) required"
proof -
  have "a \<in> ars t" "area_start a \<le> cur"
    using asm(1) containing_iff [OF wf, of cur a] by (simp_all add: area_contains_def)
  then have "containing t x = Some a"
    using asm(3) order_trans [OF _ asm(2), of "area_start a"] by (simp add: containing_iff [OF wf] area_contains_def)
  then show ?thesis
    by (simp add: covered_def)
qed

abbreviation all_covered :: "'t \<Rightarrow> PageTableFlags \<Rightarrow> u64 \<Rightarrow> u64 \<Rightarrow> bool" where
  "all_covered t required cur e \<equiv> \<forall>x. cur \<le> x \<and> x < e \<longrightarrow> covered t required x"

lemma all_covered_last:
  assumes wf: "wf t" and asm: "cur < e" "containing t cur = Some a" "e \<le> area_end a \<or> \<not> contains (area_flags a) required"
  shows "all_covered t required cur e \<longleftrightarrow> contains (area_flags a) required"
proof (cases "contains (area_flags a) required")
  case True
  then have e: "e \<le> area_end a"
    using asm(3) by simp
  have "covered t required x" if "cur \<le> x" "x < e" for x
    using area_covered [OF wf asm(2) that(1) order_less_le_trans [OF that(2) e]] True by simp
  then show ?thesis
    using True by blast
next
  case False
  have "cur < area_end a"
    using asm(2) containing_iff [OF wf, of cur a] by (simp add: area_contains_def)
  then have "\<not> covered t required cur"
    using area_covered [OF wf asm(2) order_refl, of required] False by simp
  then show ?thesis
    using asm(1) False by blast
qed

lemma all_covered_step:
  assumes wf: "wf t" and asm: "containing t cur = Some a" "contains (area_flags a) required"
  shows "all_covered t required cur e \<longleftrightarrow> all_covered t required (area_end a) e"
proof
  assume *: "all_covered t required cur e"
  have "cur \<le> area_end a"
    using asm(1) containing_iff [OF wf, of cur a] by (simp add: area_contains_def less_imp_le)
  then show "all_covered t required (area_end a) e"
    using * order_trans [of cur "area_end a"] by blast
next
  assume *: "all_covered t required (area_end a) e"
  have "covered t required x" if x: "cur \<le> x" "x < e" for x
  proof (cases "x < area_end a")
    case True
    then show ?thesis
      using area_covered [OF wf asm(1) x(1)] asm(2) by simp
  next
    case False
    then show ?thesis
      using * x(2) by (simp add: not_less)
  qed
  then show "all_covered t required cur e"
    by blast
qed

lemma check_loop_correct:
  assumes wf: "wf t" and asm: "current t cur r"
  shows "check_loop (next_from t) e required cur r = Some (all_covered t required cur e)"
  using asm
proof (induction "unat e - unat cur" arbitrary: cur r rule: less_induct)
  case less
  consider "\<not> cur < e" | "cur < e" "containing t cur = None"
    | a where "cur < e" "containing t cur = Some a"
    by (cases "containing t cur") auto
  then show ?case
  proof cases
    case 1
    then have "all_covered t required cur e"
      using order_le_less_trans [of cur _ e] by blast
    then show ?thesis
      using 1 by (subst check_loop.simps) simp
  next
    case 2
    then have "\<not> covered t required cur"
      by (simp add: covered_def)
    then have "\<not> all_covered t required cur e"
      using 2(1) by blast
    then show ?thesis
      using check_loop_gap [OF wf less.prems 2] by simp
  next
    case (3 a)
    show ?thesis
    proof (cases "contains (area_flags a) required \<and> area_end a < e")
      case False
      then have "e \<le> area_end a \<or> \<not> contains (area_flags a) required"
        by (simp add: not_less disj_commute)
      from all_covered_last [OF wf 3 this] show ?thesis
        unfolding check_loop_area [OF wf less.prems 3] using False by simp
    next
      case True
      have "cur < area_end a"
        using 3(2) containing_iff [OF wf, of cur a] by (simp add: area_contains_def)
      with True have "unat e - unat (area_end a) < unat e - unat cur"
        unfolding word_less_nat_alt by linarith
      from less.hyps [OF this current_step [OF wf 3(2)]] show ?thesis
        unfolding check_loop_area [OF wf less.prems 3]
        using True all_covered_step [OF wf 3(2), of required e] by simp
    qed
  qed
qed

end

text \<open>The interval tree of the address space is such an index.\<close>

interpretation vmas: area_index vma_wf "\<lambda>t. set (areas t)" find_containing find_next
proof
  fix t x a
  assume wf: "vma_wf t"
  show "find_containing t x = Some a \<longleftrightarrow> a \<in> set (areas t) \<and> area_contains a x"
    using wf by (simp add: vma_wf_def find_containing_iff)
  show ne: "area_start a < area_end a" if "a \<in> set (areas t)"
    using wf that by (simp add: vma_wf_def separated_def)
  show "a \<in> set (areas t) \<and> x \<le> area_start a" if "find_next t x = Some a"
    using find_next_Some(1,2) [OF wf that] by simp
  show "find_next t (area_start a) = Some a" if a: "a \<in> set (areas t)"
  proof (cases "find_next t (area_start a)")
    case None
    then show ?thesis
      using find_next_None [OF wf None a] by simp
  next
    case (Some b)
    then have b: "b \<in> set (areas t)" "area_start a \<le> area_start b" "a = b \<or> area_end b \<le> area_start a"
      using find_next_Some [OF wf Some] a by auto
    have "area_start b < area_end b"
      using wf b(1) by (simp add: vma_wf_def separated_def)
    then have "a = b"
      using b(2,3) by (metis leD order_trans)
    then show ?thesis
      using Some by simp
  qed
qed

lemma covered_flags:
  "vmas.covered t required x \<longleftrightarrow> (\<exists>fl. vma_flags t x = Some fl \<and> contains fl required)"
  by (auto simp: vmas.covered_def vma_flags_def)

lemma check_range_eq:
  assumes "vma_wf (set_vma ms)"
  shows "check_range ms addr len required =
    Some (len = 0 \<or> unat addr + unat len < 2 ^ 64
      \<and> (\<forall>x. addr \<le> x \<and> x < addr + len
            \<longrightarrow> (\<exists>fl. vma_flags (set_vma ms) x = Some fl \<and> contains fl required)))"
  using vmas.check_loop_correct [OF assms vmas.current_first [OF assms], where required = required]
  by (simp add: check_range_def checked_add_def covered_flags)

section \<open>Page access checks\<close>

lemma index_align_down [simp]:
  "p4_index (align_down a 4096) = p4_index a" "p3_index (align_down a 4096) = p3_index a"
  "p2_index (align_down a 4096) = p2_index a" "p1_index (align_down a 4096) = p1_index a"
proof -
  have *: "unat a div 4096 * 4096 div (4096 * m) = unat a div (4096 * m)" for m
    by (simp add: div_mult2_eq)
  show "p4_index (align_down a 4096) = p4_index a" "p3_index (align_down a 4096) = p3_index a"
    "p2_index (align_down a 4096) = p2_index a" "p1_index (align_down a 4096) = p1_index a"
    using * [of 1] * [of "2 ^ 9"] * [of "2 ^ 18"] * [of "2 ^ 27"]
    by (simp_all add: index_unat unat_align_down_page)
qed

lemma page_access_align [simp]:
  "page_access_ok p4 (align_down a 4096) h l st = page_access_ok p4 a h l st"
  by (simp add: page_access_ok_def)

lemma page_access_walk:
  assumes "page_access_ok p4 a h l st" "\<not> huge (mm_pt st p4 (p4_index a))"
  obtains k e where "walk (mm_pt st) p4 (indices a) = Some (k, e)" "present e" "contains (entry_flags e) l"
  using assms
  by (auto simp: page_access_ok_def entry_allows_def indices_def Let_def split: if_splits)

lemma next_multiple:
  assumes "4096 dvd m" "4096 dvd n" "m < (n :: nat)"
  shows "m + 4096 \<le> n"
  using assms by (elim dvdE) simp

lemma next_page:
  assumes "4096 dvd unat page" "4096 dvd unat p" "page < (p :: u64)"
  shows "unat (page + 4096) = unat page + 4096" "page + 4096 \<le> p"
proof -
  have le: "unat page + 4096 \<le> unat p"
    using next_multiple [OF assms(1,2)] assms(3) by (simp add: word_less_nat_alt)
  have "unat p < 2 ^ 64"
    using unsigned_less [of p] by simp
  with le show np: "unat (page + 4096) = unat page + 4096"
    by (simp add: unat_add_no_wrap)
  show "page + 4096 \<le> p"
    using np le by (simp add: word_le_nat_alt)
qed

abbreviation pages_ok :: "(u64 \<Rightarrow> bool) \<Rightarrow> u64 \<Rightarrow> u64 \<Rightarrow> bool" where
  "pages_ok ok page final \<equiv> \<forall>p. 4096 dvd unat p \<and> page \<le> p \<and> p \<le> final \<longrightarrow> ok p"

lemma pages_ok_step:
  assumes "4096 dvd unat page" "4096 dvd unat final" "page < final" "ok page"
  shows "pages_ok ok page final \<longleftrightarrow> pages_ok ok (page + 4096) final"
proof
  assume *: "pages_ok ok page final"
  have "page \<le> page + 4096"
    using next_page(1) [OF assms(1-3)] by (simp add: word_le_nat_alt)
  then show "pages_ok ok (page + 4096) final"
    using * order_trans [of page "page + 4096"] by blast
next
  assume *: "pages_ok ok (page + 4096) final"
  have "ok p" if p: "4096 dvd unat p" "page \<le> p" "p \<le> final" for p
  proof (cases "page = p")
    case False
    then have "page + 4096 \<le> p"
      using next_page(2) [OF assms(1) p(1)] p(2) by (simp add: order_less_le)
    then show ?thesis
      using * p by blast
  qed (use assms(4) in simp)
  then show "pages_ok ok page final"
    by blast
qed

lemma mapped_loop_correct:
  assumes "4096 dvd unat page" "4096 dvd unat final" "page \<le> final"
  shows "mapped_loop ok final page = Some (pages_ok ok page final)"
  using assms
proof (induction "unat final - unat page" arbitrary: page rule: less_induct)
  case less
  consider "\<not> ok page" | "ok page" "page = final" | "ok page" "page < final"
    using less.prems(3) by (auto simp: order_le_less)
  then show ?case
  proof cases
    case 1
    then have "\<not> pages_ok ok page final"
      using less.prems by blast
    then show ?thesis
      using 1 by (subst mapped_loop.simps) simp
  next
    case 2
    then have "pages_ok ok page final"
      using order_antisym [of final] by blast
    then show ?thesis
      using 2 by (subst mapped_loop.simps) simp
  next
    case 3
    note np = next_page [OF less.prems(1,2) 3(2)]
    have "mapped_loop ok final (page + 4096) = Some (pages_ok ok (page + 4096) final)"
    proof (rule less.hyps)
      show "unat final - unat (page + 4096) < unat final - unat page"
        using 3(2) np(1) by (simp add: word_less_nat_alt)
      show "4096 dvd unat (page + 4096)"
        using np(1) less.prems(1) by simp
    qed (rule less.prems(2), rule np(2))
    moreover have "page \<noteq> final"
      using 3(2) by simp
    ultimately show ?thesis
      using pages_ok_step [of page final ok] 3 less.prems(1,2)
      by (subst mapped_loop.simps) simp
  qed
qed

lemma align_down_dvd: "4096 dvd unat (align_down a 4096)"
  by (simp add: unat_align_down_page)

lemma align_down_mono: "a \<le> b \<Longrightarrow> align_down a 4096 \<le> align_down b 4096"
  by (simp add: word_le_nat_alt unat_align_down_page div_le_mono)

lemma align_down_id: "4096 dvd unat p \<Longrightarrow> align_down p 4096 = p"
  by (simp add: unat_eq_iff [symmetric] unat_align_down_page)

text \<open>Checking every page from the page of the first address to the page of the last one checks
  every address of the range.\<close>

lemma pages_ok_range:
  assumes "addr \<le> hi" "\<And>a. ok (align_down a 4096) = ok a"
  shows "pages_ok ok (align_down addr 4096) (align_down hi 4096) \<longleftrightarrow> (\<forall>x. addr \<le> x \<and> x \<le> hi \<longrightarrow> ok x)"
proof
  assume *: "pages_ok ok (align_down addr 4096) (align_down hi 4096)"
  have "ok x" if "addr \<le> x" "x \<le> hi" for x
    using * align_down_dvd [of x] align_down_mono [OF that(1)] align_down_mono [OF that(2)] assms(2) by blast
  then show "\<forall>x. addr \<le> x \<and> x \<le> hi \<longrightarrow> ok x"
    by blast
next
  assume *: "\<forall>x. addr \<le> x \<and> x \<le> hi \<longrightarrow> ok x"
  have "ok p" if p: "4096 dvd unat p" "align_down addr 4096 \<le> p" "p \<le> align_down hi 4096" for p
  proof (cases "addr \<le> p")
    case True
    then show ?thesis
      using * order_trans [OF p(3) align_down_page_le] by blast
  next
    case False
    then have "align_down addr 4096 = p"
      using align_down_mono [of p addr] align_down_id [OF p(1)] p(2) by simp
    then show ?thesis
      using * assms by blast
  qed
  then show "pages_ok ok (align_down addr 4096) (align_down hi 4096)"
    by blast
qed

abbreviation hierarchy_flags :: "PageTableFlags \<Rightarrow> PageTableFlags" where
  "hierarchy_flags required \<equiv> required AND (USER_ACCESSIBLE OR WRITABLE)"

lemma check_range_mapped_eq:
  assumes "vma_wf (set_vma ms)"
  shows "check_range_mapped ms addr len required st =
    Some (len = 0 \<or> unat addr + unat len < 2 ^ 64
      \<and> (\<forall>x. addr \<le> x \<and> x < addr + len
            \<longrightarrow> (\<exists>fl. vma_flags (set_vma ms) x = Some fl \<and> contains fl required)
              \<and> page_access_ok (set_p4 ms) x (hierarchy_flags required) required st))"
proof (cases "len = 0 \<or> \<not> unat addr + unat len < 2 ^ 64")
  case True
  then show ?thesis
    by (auto simp: check_range_mapped_def check_range_eq [OF assms] checked_add_def)
next
  case False
  let ?ok = "\<lambda>page. page_access_ok (set_p4 ms) page (hierarchy_flags required) required st"
  have n: "unat (addr + len) = unat addr + unat len" "0 < unat len"
    using False by (simp_all add: unat_add_no_wrap unat_gt_0)
  then have hi: "unat (addr + len - 1) = unat addr + unat len - 1"
    using unat_sub_le [of 1 "addr + len"] by (simp add: word_le_nat_alt)
  then have le: "addr \<le> addr + len - 1" and lt: "x < addr + len \<longleftrightarrow> x \<le> addr + len - 1" for x
    using n by (auto simp: word_le_nat_alt word_less_nat_alt)
  have "mapped_loop ?ok (align_down (addr + len - 1) 4096) (align_down addr 4096)
      = Some (\<forall>x. addr \<le> x \<and> x < addr + len \<longrightarrow> ?ok x)"
    using mapped_loop_correct [OF align_down_dvd align_down_dvd align_down_mono [OF le], of ?ok]
      pages_ok_range [OF le, of ?ok] by (simp add: lt)
  then show ?thesis
    using False by (simp add: check_range_mapped_def check_range_eq [OF assms] checked_add_def) blast
qed

section \<open>Frames for an address space\<close>

lemma block_0 [simp]: "block 0 p = {p}"
  by (auto simp: block_def)

lemma take_frame_ok:
  assumes "mapper_inv (ms_mm st) root" "room n (ms_mm st)"
  obtains r st' where "take_frame st = Some (r, st')" "mapper_inv (ms_mm st') root" "room n (ms_mm st')"
    "mm_pt (ms_mm st') = mm_pt (ms_mm st)" "mm_rmap (ms_mm st') = mm_rmap (ms_mm st)" "ms_bytes st' = ms_bytes st"
    "ms_vstats st' = ms_vstats st"
    "\<And>phys. r = Some phys \<Longrightarrow> \<exists>p. phys = frame_address p \<and> p \<in> avail (mm_pmm (ms_mm st)) \<and> p < 2 ^ 40"
proof -
  let ?mm = "ms_mm st"
  obtain lv where wf: "mapper_wf ?mm root lv"
    using assms(1) by (auto simp: mapper_inv_def)
  then have v: "pmm_valid (mm_pmm ?mm)" "total_frames (mm_pmm ?mm) \<le> 2 ^ 40"
    by (simp_all add: mapper_wf_def pmm_fits_def)
  obtain r pmm where r: "allocate (mm_cpu ?mm) ORDER_4K (mm_pmm ?mm) = Some (r, pmm)" "pmm_valid pmm"
    "total_frames pmm = total_frames (mm_pmm ?mm)"
    and c: "case r of None \<Rightarrow> avail pmm = avail (mm_pmm ?mm)
       | Some a \<Rightarrow> \<exists>p. a = frame_address p \<and> held pmm ORDER_4K p \<and> block ORDER_4K p \<subseteq> avail (mm_pmm ?mm)
           \<and> avail pmm = avail (mm_pmm ?mm) - block ORDER_4K p"
    using pmm.get_ok [OF v(1), of "mm_cpu ?mm" ORDER_4K] by blast
  have "avail pmm \<subseteq> avail (mm_pmm ?mm)"
    using c by (auto split: option.splits)
  then have "mapper_inv (?mm\<lparr>mm_pmm := pmm\<rparr>) root"
    using wf_pmm [OF wf r(2,3)] by (auto simp: mapper_inv_def)
  moreover have "\<exists>p. phys = frame_address p \<and> p \<in> avail (mm_pmm ?mm) \<and> p < 2 ^ 40" if "r = Some phys" for phys
    using that c r(3) v(2) by (auto simp: held_def ORDER_4K_def)
  ultimately show thesis
    using r(1) assms(2)
    by (intro that [of r "st\<lparr>ms_mm := ?mm\<lparr>mm_pmm := pmm\<rparr>\<rparr>"])
      (simp_all add: take_frame_def allocate_frame_def allocate_frames_def room_def)
qed

lemma page_offset_less: "unat ((phys :: u64) + (a AND mask 12) - phys) < 4096"
proof -
  have "a AND mask 12 = a AND 0xfff"
    by (simp add: mask_eq_exp_minus_1)
  then show ?thesis
    by (simp add: unat_and_fff)
qed

lemma page_number_align [simp]: "page_number 0 (align_down a 4096) = page_number 0 a"
proof -
  have "n mod 2 ^ 48 div 4096 = n div 4096 mod 2 ^ 36" for n :: nat
    using mod_mult2_eq [of n 4096 "2 ^ 36"] by simp
  then show ?thesis
    by (simp add: page_number_def unat_align_down_page)
qed

text \<open>The pages of the address space that a fault handler fills: the frame at \<open>phys\<close> appears at the
  page of \<open>addr\<close>, which was not mapped, and reads as zero; all else is as it was.\<close>

definition fresh_page :: "PhysAddr \<Rightarrow> VirtAddr \<Rightarrow> PhysAddr \<Rightarrow> MemState \<Rightarrow> MemState \<Rightarrow> bool" where
  "fresh_page root addr phys st st' \<longleftrightarrow>
     (\<forall>a. if page_number 0 a = page_number 0 addr
          then translate root a (ms_mm st) = None \<and> translate root a (ms_mm st') = Some (phys + (a AND mask 12))
            \<and> ms_bytes st' (phys + (a AND mask 12)) = 0
          else translate root a (ms_mm st') = translate root a (ms_mm st))
   \<and> (\<forall>b. \<not> unat (b - phys) < 4096 \<longrightarrow> ms_bytes st' b = ms_bytes st b)"

definition same_pages :: "PhysAddr \<Rightarrow> MemState \<Rightarrow> MemState \<Rightarrow> bool" where
  "same_pages root st st' \<longleftrightarrow> (\<forall>a. translate root a (ms_mm st') = translate root a (ms_mm st))"

text \<open>Taking a frame, clearing it and mapping it.\<close>

lemma map_fresh:
  assumes "mapper_inv (ms_mm st) root" "room 4 (ms_mm st)" "flags_ok flags" "\<not> contains flags HUGE_PAGE"
    "p < 2 ^ 40"
  obtains r st' where "with_mm (map_page root (align_down addr 4096) (frame_address p) flags) (zero_frame (frame_address p) st) = Some (r, st')"
    "mapper_inv (ms_mm st') root" "ms_vstats st' = ms_vstats st"
    "\<And>e. r = Err e \<Longrightarrow> same_pages root st st'"
    "r = Ok () \<Longrightarrow> fresh_page root addr (frame_address p) st st'"
proof -
  let ?phys = "frame_address p" and ?page = "align_down addr 4096"
  let ?mm = "(ms_mm st)\<lparr>mm_rmap := migration_read_lock (mm_rmap (ms_mm st))\<rparr>"
  have phys: "unat ?phys < 2 ^ 52" "is_aligned ?phys 4096"
    using assms(5) by (simp_all add: unat_frame_address frame_address_aligned)
  have mm: "mapper_inv ?mm root" "room 4 ?mm"
    using assms(1,2) by (simp_all add: room_def)
  obtain r mm' where r: "map_page_inner root ?page ?phys flags True ?mm = Some (r, mm')"
    "map_outcome ?mm root ?page ?phys flags r mm'"
    using map_inner_ok [OF mm(1) phys assms(3) mm(2), of ?page True] by blast
  have inv: "mapper_inv mm' root"
    using r(2) by (simp add: map_outcome_def)
  have e: "entry_addr (?phys OR leaf_flags flags) = ?phys" and lv: "map_level ?page ?phys flags = 0"
    using entry_split(1) [OF phys leaf_flags_ok(1) [OF assms(3)]] assms(4) by (simp_all add: map_level_def)
  let ?st' = "(zero_frame ?phys st)\<lparr>ms_mm := mm'\<rparr>"
  show thesis
  proof (rule that [of r ?st'])
    show "with_mm (map_page root ?page ?phys flags) (zero_frame ?phys st) = Some (r, ?st')"
      using r(1) by (simp add: with_mm_def map_page_def zero_frame_def)
    show "same_pages root st ?st'" if "r = Err e" for e
      using that r(2) same_translate [OF mm(1) inv] by (simp add: same_pages_def map_outcome_def)
    show "fresh_page root addr ?phys st ?st'" if "r = Ok ()"
    proof -
      have m: "maps ?mm mm' root 0 ?page (?phys OR leaf_flags flags)"
        using that r(2) lv by (simp add: map_outcome_def)
      show ?thesis
        using maps_translate [OF mm(1) inv m] e page_offset_less [of ?phys]
        by (simp add: fresh_page_def zero_frame_def)
    qed
  qed (use inv in \<open>simp_all add: zero_frame_def\<close>)
qed

lemma translate_cong: "mm_pt st1 = mm_pt st \<Longrightarrow> translate root a st1 = translate root a st"
  by (simp add: translate_def Let_def)

lemma fresh_page_trans:
  assumes "fresh_page root addr phys st1 st2" "mm_pt (ms_mm st1) = mm_pt (ms_mm st)" "ms_bytes st1 = ms_bytes st"
  shows "fresh_page root addr phys st st2"
  using assms(1) unfolding fresh_page_def translate_cong [OF assms(2)] assms(3) .

lemma same_pages_trans:
  assumes "same_pages root st1 st2" "mm_pt (ms_mm st1) = mm_pt (ms_mm st)"
  shows "same_pages root st st2"
  using assms(1) translate_cong [OF assms(2)] by (simp add: same_pages_def)

lemma contains_present [simp]: "contains (flags OR PRESENT) HUGE_PAGE = contains flags HUGE_PAGE"
  by (simp add: contains_def PRESENT_def HUGE_PAGE_def bit.conj_disj_distrib2)

text \<open>The steps that both fault paths share: taking a frame, clearing it and mapping it.\<close>

lemma fault_frame:
  assumes "mapper_inv (ms_mm st) root" "room 4 (ms_mm st)" "flags_ok flags" "\<not> contains flags HUGE_PAGE"
  obtains (no_frame) st' where "take_frame st = Some (None, st')" "mapper_inv (ms_mm st') root" "same_pages root st st'"
  | (not_mapped) phys st1 e st' where "take_frame st = Some (Some phys, st1)"
      "with_mm (map_page root (align_down addr 4096) phys flags) (zero_frame phys st1) = Some (Err e, st')"
      "mapper_inv (ms_mm st') root" "same_pages root st st'"
  | (filled) p phys st1 st' where "take_frame st = Some (Some phys, st1)" "phys = frame_address p"
      "p \<in> avail (mm_pmm (ms_mm st))"
      "with_mm (map_page root (align_down addr 4096) phys flags) (zero_frame phys st1) = Some (Ok (), st')"
      "mapper_inv (ms_mm st') root" "fresh_page root addr phys st st'"
proof -
  obtain f st1 where f: "take_frame st = Some (f, st1)" "mapper_inv (ms_mm st1) root" "room 4 (ms_mm st1)"
    "mm_pt (ms_mm st1) = mm_pt (ms_mm st)" "ms_bytes st1 = ms_bytes st"
    "\<And>phys. f = Some phys \<Longrightarrow> \<exists>p. phys = frame_address p \<and> p \<in> avail (mm_pmm (ms_mm st)) \<and> p < 2 ^ 40"
    by (rule take_frame_ok [OF assms(1,2)]) blast
  show thesis
  proof (cases f)
    case None
    then show thesis
      using no_frame f(1,2) translate_cong [OF f(4)] by (simp add: same_pages_def)
  next
    case (Some phys)
    then obtain p where p: "phys = frame_address p" "p \<in> avail (mm_pmm (ms_mm st))" "p < 2 ^ 40"
      using f(6) by blast
    obtain r st' where r: "with_mm (map_page root (align_down addr 4096) phys flags) (zero_frame phys st1) = Some (r, st')"
      "mapper_inv (ms_mm st') root" "\<And>e. r = Err e \<Longrightarrow> same_pages root st1 st'"
      "r = Ok () \<Longrightarrow> fresh_page root addr phys st1 st'"
      unfolding p(1) by (rule map_fresh [OF f(2,3) assms(3,4) p(3)]) blast
    show thesis
    proof (cases r)
      case (Err e)
      then show thesis
        using not_mapped [OF f(1) [unfolded Some], of e st'] r(1,2) same_pages_trans [OF r(3) f(4)] by simp
    next
      case (Ok u)
      then show thesis
        using filled [OF f(1) [unfolded Some] p(1,2), of st'] r(1,2) fresh_page_trans [OF r(4) f(4,5)] by simp
    qed
  qed
qed

section \<open>Copying the areas in fork\<close>

lemma no_overlap_flags:
  assumes "vma_wf t" "area_start ar < area_end ar"
  shows "no_overlap t ar \<longleftrightarrow> (\<forall>x. area_contains ar x \<longrightarrow> vma_flags t x = None)"
proof
  assume no: "no_overlap t ar"
  have "\<not> area_contains b x" if "area_contains ar x" "b \<in> set (areas t)" for x b
    using no that order_le_less_trans [of "area_start ar" x "area_end b"]
      order_le_less_trans [of "area_start b" x "area_end ar"]
    by (auto simp: no_overlap_def overlaps_def area_contains_def)
  then show "\<forall>x. area_contains ar x \<longrightarrow> vma_flags t x = None"
    using find_containing_NoneI [OF assms(1)] by (simp add: vma_flags_def)
next
  assume none: "\<forall>x. area_contains ar x \<longrightarrow> vma_flags t x = None"
  show "no_overlap t ar"
    unfolding no_overlap_def
  proof
    fix b
    assume b: "b \<in> set (areas t)"
    have ne: "area_start b < area_end b"
      using assms(1) b by (simp add: vma_wf_def separated_def)
    show "\<not> overlaps ar b"
    proof
      assume o: "overlaps ar b"
      let ?x = "max (area_start ar) (area_start b)"
      have "area_contains ar ?x" "area_contains b ?x"
        using o ne assms(2) by (simp_all add: overlaps_def area_contains_def)
      then have "find_containing t ?x = Some b" "find_containing t ?x = None"
        using none b vmas.containing_iff [OF assms(1), of ?x b] by (simp_all add: vma_flags_def)
      then show False
        by simp
    qed
  qed
qed

fun listed_flags :: "MemoryArea list \<Rightarrow> u64 \<Rightarrow> PageTableFlags option" where
  "listed_flags [] x = None"
| "listed_flags (ar # as) x = (if area_contains ar x then Some (area_flags ar) else listed_flags as x)"

lemma listed_flags_None: "listed_flags as x = None \<longleftrightarrow> (\<forall>ar \<in> set as. \<not> area_contains ar x)"
  by (induction as) auto

lemma listed_flags_Some:
  assumes "separated as" "a \<in> set as" "area_contains a x"
  shows "listed_flags as x = Some (area_flags a)"
  using assms
proof (induction as)
  case (Cons b as)
  show ?case
  proof (cases "area_contains b x")
    case True
    then have "overlaps a b"
      using Cons.prems(3) order_le_less_trans [of "area_start a" x "area_end b"]
        order_le_less_trans [of "area_start b" x "area_end a"] by (simp add: overlaps_def area_contains_def)
    then have "a = b"
      using separated_inj [OF Cons.prems(1,2), of b] by simp
    then show ?thesis
      using True by simp
  next
    case False
    then show ?thesis
      using Cons by auto
  qed
qed simp

lemma listed_flags_areas:
  assumes "vma_wf t"
  shows "listed_flags (areas t) x = vma_flags t x"
proof (cases "find_containing t x")
  case None
  then show ?thesis
    using find_containing_None [OF assms None] by (simp add: vma_flags_def listed_flags_None)
next
  case (Some a)
  then show ?thesis
    using vmas.containing_iff [OF assms, of x a] assms listed_flags_Some [of "areas t" a x]
    by (simp add: vma_flags_def vma_wf_def)
qed

lemma fold_collect: "fold (\<lambda>x acc. acc @ [x]) xs ys = ys @ xs"
  by (induction xs arbitrary: ys) simp_all

lemma push_all_ok:
  assumes "separated as" "vma_wf (set_vma ms)" "\<And>ar x. ar \<in> set as \<Longrightarrow> area_contains ar x \<Longrightarrow> vma_flags (set_vma ms) x = None"
  shows "\<exists>ms' st'. push_all as ms st = Some (ms', st') \<and> vma_wf (set_vma ms') \<and> ms_mm st' = ms_mm st
    \<and> set_p4 ms' = set_p4 ms
    \<and> (\<forall>x. vma_flags (set_vma ms') x = (case listed_flags as x of Some fl \<Rightarrow> Some fl | None \<Rightarrow> vma_flags (set_vma ms) x))"
  using assms
proof (induction as arbitrary: ms st)
  case (Cons ar as)
  have ne: "area_start ar < area_end ar"
    using Cons.prems(1) by (simp add: separated_def)
  have "no_overlap (set_vma ms) ar"
    using Cons.prems(3) [of ar] no_overlap_flags [OF Cons.prems(2) ne] by simp
  then obtain t' vs' where i: "insert_area (set_vma ms) (ms_vstats st) ar = Some (Ok (), t', vs')" "vma_wf t'"
    "\<And>x. vma_flags t' x = (if area_contains ar x then Some (area_flags ar) else vma_flags (set_vma ms) x)"
    by (rule insert_area_ok [OF Cons.prems(2) ne, of "ms_vstats st"]) blast
  let ?ms = "ms\<lparr>set_vma := t'\<rparr>" and ?st = "st\<lparr>ms_vstats := vs'\<rparr>"
  have disj: "\<not> area_contains ar x" if "b \<in> set as" "area_contains b x" for b x
    using Cons.prems(1) that order_le_less_trans [of "area_start b" x "area_end ar"]
    by (auto simp: area_contains_def separated_def)
  have "vma_flags (set_vma ?ms) x = None" if "b \<in> set as" "area_contains b x" for b x
    using i(3) disj [OF that] Cons.prems(3) [of b x] that by simp
  then obtain ms' st' where r: "push_all as ?ms ?st = Some (ms', st')" "vma_wf (set_vma ms')" "ms_mm st' = ms_mm ?st"
    "set_p4 ms' = set_p4 ?ms"
    "\<forall>x. vma_flags (set_vma ms') x = (case listed_flags as x of Some fl \<Rightarrow> Some fl | None \<Rightarrow> vma_flags (set_vma ?ms) x)"
    using Cons.IH [of ?ms ?st] Cons.prems(1) i(2) by fastforce
  have "vma_flags (set_vma ms') x
      = (case listed_flags (ar # as) x of Some fl \<Rightarrow> Some fl | None \<Rightarrow> vma_flags (set_vma ms) x)" for x
    using spec [OF r(5), of x] i(3) [of x] disj [of _ x] listed_flags_None [of as x] by (auto split: option.splits)
  moreover have "push_all (ar # as) ms st = Some (ms', st')"
    using i(1) r(1) by (simp add: push_lazy_def ms_insert_area_def)
  ultimately show ?case
    using r(2-4) by simp
qed simp

section \<open>Properties of address spaces\<close>

text \<open>C14: the check of a range of an address space always returns, and it accepts exactly the empty
  range and the ranges that do not wrap around and in which every address lies in an area with the
  required flags.\<close>

theorem check_range_correct:
  assumes "vma_wf (set_vma ms)"
  shows "check_range ms addr len required =
    Some (len = 0 \<or> unat addr + unat len < 2 ^ 64
      \<and> (\<forall>x. addr \<le> x \<and> x < addr + len
            \<longrightarrow> (\<exists>fl. vma_flags (set_vma ms) x = Some fl \<and> contains fl required)))"
  by (rule check_range_eq [OF assms])




text \<open>C15: copying the areas of a parent into the fresh address space of a child, the first half of
  \<open>fork\<close>, never runs into the panic of \<open>push_lazy\<close>, leaves the child's areas well formed, and gives
  every address of the child the flags it has in the parent.\<close>

theorem fork_copies_areas:
  assumes "vma_wf (set_vma parent)" "set_vma new_set = Empty"
  shows "\<exists>new_set' st'. push_all (for_each_in_order (set_vma parent) (\<lambda>ar acc. acc @ [ar]) []) new_set st = Some (new_set', st')
    \<and> vma_wf (set_vma new_set') \<and> ms_mm st' = ms_mm st \<and> set_p4 new_set' = set_p4 new_set
    \<and> (\<forall>x. vma_flags (set_vma new_set') x = vma_flags (set_vma parent) x)"
proof -
  have "for_each_in_order (set_vma parent) (\<lambda>ar acc. acc @ [ar]) [] = areas (set_vma parent)"
    by (simp add: for_each_in_order_eq fold_collect)
  moreover have "vma_wf (set_vma new_set)" "vma_flags (set_vma new_set) x = None" for x
    using assms(2) by (simp_all add: vma_wf_def vma_flags_def separated_def)
  moreover have "separated (areas (set_vma parent))"
    using assms(1) by (simp add: vma_wf_def)
  ultimately show ?thesis
    using push_all_ok [of "areas (set_vma parent)" new_set st] listed_flags_areas [OF assms(1)]
    by (fastforce split: option.splits)
qed

subsection \<open>Instances\<close>

definition sample_mem :: MemState where
  "sample_mem = \<lparr>ms_mm = sample_mm, ms_bytes = (\<lambda>_. 0xcc), ms_vstats = reset_vma_stats, ms_kernel_p4 = 0x5000,
     ms_phys_offset = 0\<rparr>"

definition sample_vma :: IntervalNode where
  "sample_vma = insert_node Empty (node_new (memory_area_new 0x400000 0x402000 7))"

definition sample_set :: MemorySet where
  "sample_set = \<lparr>set_p4 = 0x5000, set_vma = sample_vma, set_stack_bottom = Some 0x700000, set_stack_top = Some 0x702000,
     set_stack_limit = Some 0x600000\<rparr>"

lemma sample_vma_props: "vma_wf sample_vma" "set (areas sample_vma) = {memory_area_new 0x400000 0x402000 7}"
  using insert_node_wf [of Empty "memory_area_new 0x400000 0x402000 7"]
  by (simp_all add: sample_vma_def vma_wf_def memory_area_new_def)

lemma sample_set_simps [simp]:
  "set_p4 sample_set = 0x5000" "set_vma sample_set = sample_vma" "set_stack_bottom sample_set = Some 0x700000"
  "set_stack_top sample_set = Some 0x702000" "set_stack_limit sample_set = Some 0x600000" "ms_mm sample_mem = sample_mm"
  by (simp_all add: sample_set_def sample_mem_def)

lemma sample_vma_containing:
  "find_containing sample_vma x = Some a \<longleftrightarrow> a = memory_area_new 0x400000 0x402000 7 \<and> 0x400000 \<le> x \<and> x < 0x402000"
  by (auto simp: vmas.containing_iff [OF sample_vma_props(1)] sample_vma_props(2) area_contains_def memory_area_new_def)

theorem check_range_correct_witness:
  "check_range sample_set 0x400800 0x1000 USER_ACCESSIBLE = Some True"
proof -
  have "vma_flags sample_vma x = Some 7" if "0x400800 \<le> x" "x < 0x401800" for x
  proof -
    have "0x400000 \<le> x" "x < 0x402000"
      using order_trans [OF _ that(1), of "0x400000"] order_less_trans [OF that(2), of "0x402000"] by simp_all
    then have "find_containing sample_vma x = Some (memory_area_new 0x400000 0x402000 7)"
      using sample_vma_containing by blast
    then show ?thesis
      by (simp add: vma_flags_def memory_area_new_def)
  qed
  moreover have "contains 7 USER_ACCESSIBLE"
    by (simp add: contains_def USER_ACCESSIBLE_def)
  ultimately show ?thesis
    using check_range_correct [of sample_set "0x400800" "0x1000" USER_ACCESSIBLE] sample_vma_props(1) by auto
qed


abbreviation sample_write :: PageFaultErrorCode where
  "sample_write \<equiv> \<lparr>pf_protection_violation = False, pf_caused_by_write = True, pf_user_mode = True,
     pf_instruction_fetch = False\<rparr>"



theorem fork_copies_areas_witness:
  "\<exists>new_set' st'. push_all (for_each_in_order sample_vma (\<lambda>ar acc. acc @ [ar]) []) (sample_set\<lparr>set_vma := Empty\<rparr>) sample_mem
      = Some (new_set', st') \<and> vma_flags (set_vma new_set') 0x401fff = Some 7"
proof -
  have "find_containing sample_vma 0x401fff = Some (memory_area_new 0x400000 0x402000 7)"
    by (simp add: sample_vma_containing)
  then have "vma_flags sample_vma 0x401fff = Some 7"
    by (simp add: vma_flags_def memory_area_new_def)
  then show ?thesis
    using fork_copies_areas [of sample_set "sample_set\<lparr>set_vma := Empty\<rparr>" sample_mem] sample_vma_props(1) by auto
qed

end
