(* ===== verification/FdTable.thy ===== *)
theory FdTable
  imports Prelude
begin

text \<open>
  File descriptors (\<open>kernel_task/src/fd.rs\<close>).

  A table maps descriptors to open files. An open file is shared by the descriptors, possibly of
  several tables, that \<open>dup\<close> and \<open>fork\<close> have made, so files live in a store that is passed through
  the operations and a table holds references into it. The reference counts are kept by hand in
  \<open>refcount\<close>; \<open>counted_refs\<close> states what they are meant to be.

  A node is any implementation of the trait \<open>FileOps\<close>; its operations are arguments of the
  definitions that call them. Growing a table is taken to succeed. \<open>None\<close> is a panic.
\<close>

section \<open>Open files\<close>

datatype FdError = FdInvalid | FdNotFound | FdNoSpace | FdIo

type_synonym file_ref = nat

record FileHandle =
  fh_node :: nat
  fh_flags :: u32
  fh_offset :: usize
  fh_refcount :: usize

type_synonym files = "file_ref \<Rightarrow> FileHandle"

definition file_handle_new :: "nat \<Rightarrow> u32 \<Rightarrow> FileHandle" where
  "file_handle_new node flags = \<lparr>fh_node = node, fh_flags = flags, fh_offset = 0, fh_refcount = 1\<rparr>"

text \<open>\<open>ops_read node offset buf st\<close> is the node's own \<open>read\<close>: it returns the number of bytes, the
  buffer it has filled and the state of the file system.\<close>

definition fh_read ::
  "(nat \<Rightarrow> usize \<Rightarrow> u8 list \<Rightarrow> 's \<Rightarrow> (usize, FdError) result \<times> u8 list \<times> 's)
    \<Rightarrow> file_ref \<Rightarrow> u8 list \<Rightarrow> files \<Rightarrow> 's \<Rightarrow> (usize, FdError) result \<times> u8 list \<times> files \<times> 's" where
  "fh_read ops_read h buf hs st =
    (let off = fh_offset (hs h); (r, buf, st) = ops_read (fh_node (hs h)) off buf st
     in case r of
          Err e \<Rightarrow> (Err e, buf, hs, st)
        | Ok n \<Rightarrow> (Ok n, buf, hs(h := (hs h)\<lparr>fh_offset := off + n\<rparr>), st))"

definition fh_write ::
  "(nat \<Rightarrow> usize \<Rightarrow> u8 list \<Rightarrow> 's \<Rightarrow> (usize, FdError) result \<times> 's)
    \<Rightarrow> file_ref \<Rightarrow> u8 list \<Rightarrow> files \<Rightarrow> 's \<Rightarrow> (usize, FdError) result \<times> files \<times> 's" where
  "fh_write ops_write h buf hs st =
    (let off = fh_offset (hs h); (r, st) = ops_write (fh_node (hs h)) off buf st
     in case r of
          Err e \<Rightarrow> (Err e, hs, st)
        | Ok n \<Rightarrow> (Ok n, hs(h := (hs h)\<lparr>fh_offset := off + n\<rparr>), st))"

definition fh_seek :: "file_ref \<Rightarrow> usize \<Rightarrow> files \<Rightarrow> files" where
  "fh_seek h offset hs = hs(h := (hs h)\<lparr>fh_offset := offset\<rparr>)"

definition fh_set_flags :: "file_ref \<Rightarrow> u32 \<Rightarrow> files \<Rightarrow> files" where
  "fh_set_flags h flags hs = hs(h := (hs h)\<lparr>fh_flags := flags\<rparr>)"

definition fh_get_flags :: "file_ref \<Rightarrow> files \<Rightarrow> u32" where
  "fh_get_flags h hs = fh_flags (hs h)"

definition ref_add :: "file_ref \<Rightarrow> files \<Rightarrow> files" where
  "ref_add h hs = hs(h := (hs h)\<lparr>fh_refcount := fh_refcount (hs h) + 1\<rparr>)"

definition ref_sub :: "file_ref \<Rightarrow> files \<Rightarrow> files" where
  "ref_sub h hs = hs(h := (hs h)\<lparr>fh_refcount := fh_refcount (hs h) - 1\<rparr>)"

section \<open>Tables\<close>

record FdTable =
  fd_entries :: "file_ref option list"
  fd_cloexec :: "bool list"

definition fd_table_new :: FdTable where
  "fd_table_new = \<lparr>fd_entries = [], fd_cloexec = []\<rparr>"

text \<open>\<open>Vec::resize\<close> to a longer length.\<close>

definition resize :: "nat \<Rightarrow> 'a \<Rightarrow> 'a list \<Rightarrow> 'a list" where
  "resize n x xs = take n xs @ replicate (n - length xs) x"

definition ensure_len :: "nat \<Rightarrow> FdTable \<Rightarrow> FdTable" where
  "ensure_len n t =
    (if length (fd_entries t) < n
     then t\<lparr>fd_entries := resize n None (fd_entries t), fd_cloexec := resize n False (fd_cloexec t)\<rparr>
     else t)"

definition put_entry :: "nat \<Rightarrow> file_ref \<Rightarrow> bool \<Rightarrow> FdTable \<Rightarrow> FdTable" where
  "put_entry i h cloexec t = t\<lparr>fd_entries := (fd_entries t)[i := Some h], fd_cloexec := (fd_cloexec t)[i := cloexec]\<rparr>"

function alloc_loop :: "nat \<Rightarrow> file_ref \<Rightarrow> bool \<Rightarrow> FdTable \<Rightarrow> (nat, FdError) result \<times> FdTable" where
  "alloc_loop idx h cloexec t =
    (let t = ensure_len (idx + 1) t
     in if fd_entries t ! idx = None then (Ok idx, put_entry idx h cloexec t)
        else if idx + 1 > 1000000 then (Err FdNoSpace, t)
        else alloc_loop (idx + 1) h cloexec t)"
  by pat_completeness auto
termination
  by (relation "measure (\<lambda>(idx, _). 1000001 - idx)") auto

declare alloc_loop.simps [simp del]

definition alloc_fd :: "nat \<Rightarrow> file_ref \<Rightarrow> bool \<Rightarrow> FdTable \<Rightarrow> (nat, FdError) result \<times> FdTable" where
  "alloc_fd min_fd h cloexec t = (if min_fd > 1000000 then (Err FdInvalid, t) else alloc_loop min_fd h cloexec t)"

definition get_fd :: "nat \<Rightarrow> FdTable \<Rightarrow> file_ref option" where
  "get_fd fd t = (if fd < length (fd_entries t) then fd_entries t ! fd else None)"

definition close_fd :: "nat \<Rightarrow> FdTable \<Rightarrow> files \<Rightarrow> (unit, FdError) result \<times> FdTable \<times> files" where
  "close_fd fd t hs =
    (if \<not> fd < length (fd_entries t) then (Err FdNotFound, t, hs)
     else let hs = (case fd_entries t ! fd of Some h \<Rightarrow> ref_sub h hs | None \<Rightarrow> hs)
          in (Ok (), t\<lparr>fd_entries := (fd_entries t)[fd := None], fd_cloexec := (fd_cloexec t)[fd := False]\<rparr>, hs))"

definition dup :: "nat \<Rightarrow> nat \<Rightarrow> bool \<Rightarrow> FdTable \<Rightarrow> files \<Rightarrow> (nat, FdError) result \<times> FdTable \<times> files" where
  "dup fd min_fd cloexec t hs =
    (case get_fd fd t of
       None \<Rightarrow> (Err FdNotFound, t, hs)
     | Some h \<Rightarrow> let hs = ref_add h hs; (r, t) = alloc_fd min_fd h cloexec t in (r, t, hs))"

text \<open>\<open>newfd + 1\<close> wraps around for the largest \<open>usize\<close>; the access to \<open>entries[newfd]\<close> then panics.\<close>

definition dup2 :: "usize \<Rightarrow> usize \<Rightarrow> bool \<Rightarrow> FdTable \<Rightarrow> files \<Rightarrow> ((usize, FdError) result \<times> FdTable \<times> files) option" where
  "dup2 oldfd newfd cloexec t hs =
    (case get_fd (unat oldfd) t of
       None \<Rightarrow> Some (Err FdNotFound, t, hs)
     | Some h \<Rightarrow>
         let t = ensure_len (unat (newfd + 1)) t; i = unat newfd
         in if oldfd = newfd then
              if i < length (fd_cloexec t) then Some (Ok newfd, t\<lparr>fd_cloexec := (fd_cloexec t)[i := cloexec]\<rparr>, hs) else None
            else if \<not> i < length (fd_entries t) then None
            else let (t, hs) = (if fd_entries t ! i \<noteq> None then snd (close_fd i t hs) else (t, hs))
                 in Some (Ok newfd, put_entry i h cloexec t, ref_add h hs))"

definition dup3 :: "usize \<Rightarrow> usize \<Rightarrow> bool \<Rightarrow> FdTable \<Rightarrow> files \<Rightarrow> ((usize, FdError) result \<times> FdTable \<times> files) option" where
  "dup3 oldfd newfd cloexec t hs = (if oldfd = newfd then Some (Err FdInvalid, t, hs) else dup2 oldfd newfd cloexec t hs)"

fun clone_entries :: "file_ref option list \<Rightarrow> files \<Rightarrow> files" where
  "clone_entries [] hs = hs"
| "clone_entries (None # es) hs = clone_entries es hs"
| "clone_entries (Some h # es) hs = clone_entries es (ref_add h hs)"

definition fork_clone :: "FdTable \<Rightarrow> files \<Rightarrow> FdTable \<times> files" where
  "fork_clone t hs = (\<lparr>fd_entries = fd_entries t, fd_cloexec = fd_cloexec t\<rparr>, clone_entries (fd_entries t) hs)"

fun close_on_exec_loop :: "nat list \<Rightarrow> FdTable \<Rightarrow> files \<Rightarrow> FdTable \<times> files" where
  "close_on_exec_loop [] t hs = (t, hs)"
| "close_on_exec_loop (i # is) t hs =
    (let (t, hs) = (if i < length (fd_cloexec t) \<and> fd_cloexec t ! i then snd (close_fd i t hs) else (t, hs))
     in close_on_exec_loop is t hs)"

definition close_on_exec :: "FdTable \<Rightarrow> files \<Rightarrow> FdTable \<times> files" where
  "close_on_exec t hs = close_on_exec_loop [0..<length (fd_entries t)] t hs"

fun close_all_loop :: "nat list \<Rightarrow> FdTable \<Rightarrow> files \<Rightarrow> FdTable \<times> files" where
  "close_all_loop [] t hs = (t, hs)"
| "close_all_loop (i # is) t hs = (let (t, hs) = snd (close_fd i t hs) in close_all_loop is t hs)"

definition close_all :: "FdTable \<Rightarrow> files \<Rightarrow> FdTable \<times> files" where
  "close_all t hs = close_all_loop [0..<length (fd_entries t)] t hs"

definition is_cloexec :: "nat \<Rightarrow> FdTable \<Rightarrow> bool" where
  "is_cloexec fd t \<longleftrightarrow> fd < length (fd_cloexec t) \<and> fd_cloexec t ! fd"

definition set_cloexec :: "nat \<Rightarrow> bool \<Rightarrow> FdTable \<Rightarrow> FdTable" where
  "set_cloexec fd enabled t = (if fd < length (fd_cloexec t) then t\<lparr>fd_cloexec := (fd_cloexec t)[fd := enabled]\<rparr> else t)"

section \<open>A table as a map\<close>

definition fd_wf :: "FdTable \<Rightarrow> bool" where
  "fd_wf t \<longleftrightarrow> length (fd_cloexec t) = length (fd_entries t)"

lemma resize_simps [simp]: "n > length xs \<Longrightarrow> length (resize n x xs) = n"
  by (simp add: resize_def)

lemma resize_nth: "length xs < n \<Longrightarrow> i < n \<Longrightarrow> resize n x xs ! i = (if i < length xs then xs ! i else x)"
  by (simp add: resize_def nth_append)

lemma ensure_len_simps [simp]:
  "length (fd_entries (ensure_len n t)) = max n (length (fd_entries t))"
  "get_fd i (ensure_len n t) = get_fd i t"
  by (auto simp: ensure_len_def get_fd_def resize_nth)

lemma ensure_len_wf [simp]: "fd_wf t \<Longrightarrow> fd_wf (ensure_len n t)"
  by (cases "length (fd_entries t) < n") (simp_all add: fd_wf_def ensure_len_def)

lemma put_entry_simps [simp]:
  "length (fd_entries (put_entry i h c t)) = length (fd_entries t)"
  "fd_wf (put_entry i h c t) = fd_wf t"
  "i < length (fd_entries t) \<Longrightarrow> get_fd j (put_entry i h c t) = (if j = i then Some h else get_fd j t)"
  by (auto simp: put_entry_def fd_wf_def get_fd_def nth_list_update)

lemma close_fd_get:
  assumes "close_fd fd t hs = (r, t', hs')"
  shows "get_fd j t' = (if j = fd then None else get_fd j t)" "fd_wf t \<Longrightarrow> fd_wf t'"
    "length (fd_entries t') = length (fd_entries t)"
  using assms by (auto simp: close_fd_def fd_wf_def get_fd_def nth_list_update Let_def split: if_splits)

text \<open>The descriptor that \<open>alloc_fd\<close> finds, by the descriptors in use.\<close>

definition lowest_free :: "nat \<Rightarrow> FdTable \<Rightarrow> nat \<Rightarrow> bool" where
  "lowest_free min_fd t i \<longleftrightarrow> min_fd \<le> i \<and> i \<le> 1000000 \<and> get_fd i t = None \<and> (\<forall>j. min_fd \<le> j \<and> j < i \<longrightarrow> get_fd j t \<noteq> None)"

lemma alloc_loop_spec:
  assumes "alloc_loop idx h c t = (r, t')" "idx \<le> 1000000" "fd_wf t"
  shows "fd_wf t' \<and> (case r of
      Ok i \<Rightarrow> lowest_free idx t i \<and> (\<forall>j. get_fd j t' = (if j = i then Some h else get_fd j t))
    | Err e \<Rightarrow> e = FdNoSpace \<and> (\<forall>j. idx \<le> j \<and> j \<le> 1000000 \<longrightarrow> get_fd j t \<noteq> None) \<and> (\<forall>j. get_fd j t' = get_fd j t))"
  using assms
proof (induction idx h c t rule: alloc_loop.induct)
  case (1 idx h c t)
  let ?t = "ensure_len (idx + 1) t"
  have entry: "fd_entries ?t ! idx = get_fd idx t"
    using ensure_len_simps(2) [of idx "idx + 1" t] by (simp add: get_fd_def less_max_iff_disj del: ensure_len_simps(2) split: if_splits)
  show ?case
  proof (cases "get_fd idx t = None \<or> idx + 1 > 1000000")
    case True
    have last: "\<exists>y. get_fd j t = Some y" if "get_fd idx t = Some z" "999999 < idx" "idx \<le> j" "j \<le> 1000000" for j z
    proof -
      have "j = idx"
        using that by linarith
      then show ?thesis
        using that(1) by blast
    qed
    from True show ?thesis
      using 1(2-4) entry
      by (subst (asm) alloc_loop.simps) (auto simp: Let_def lowest_free_def intro: last split: if_splits)
  next
    case False
    then have rec: "alloc_loop (idx + 1) h c ?t = (r, t')"
      using 1(2) entry by (subst (asm) alloc_loop.simps) (auto simp: Let_def)
    have "fd_wf t' \<and> (case r of
        Ok i \<Rightarrow> lowest_free (idx + 1) ?t i \<and> (\<forall>j. get_fd j t' = (if j = i then Some h else get_fd j ?t))
      | Err e \<Rightarrow> e = FdNoSpace \<and> (\<forall>j. idx + 1 \<le> j \<and> j \<le> 1000000 \<longrightarrow> get_fd j ?t \<noteq> None) \<and> (\<forall>j. get_fd j t' = get_fd j ?t))"
      using 1(1) [OF refl _ _ rec] entry False 1(4) by simp
    moreover have "lowest_free idx t i" if l: "lowest_free (idx + 1) ?t i" for i
    proof -
      have "get_fd j t \<noteq> None" if "idx \<le> j" "j < i" for j
        using l False that by (cases "j = idx") (auto simp: lowest_free_def)
      then show ?thesis
        using l by (auto simp: lowest_free_def)
    qed
    moreover have "get_fd j t \<noteq> None"
      if "\<forall>j. idx + 1 \<le> j \<and> j \<le> 1000000 \<longrightarrow> get_fd j ?t \<noteq> None" "idx \<le> j" "j \<le> 1000000" for j
      using that False by (cases "j = idx") auto
    ultimately show ?thesis
      by (cases r) auto
  qed
qed

section \<open>Reference counts\<close>

definition refs_in :: "FdTable list \<Rightarrow> file_ref \<Rightarrow> nat" where
  "refs_in ts h = sum_list (map (\<lambda>t. count_list (fd_entries t) (Some h)) ts)"

text \<open>The count of a file is the number of descriptors, in all tables, that refer to it.\<close>

definition counted_refs :: "FdTable list \<Rightarrow> files \<Rightarrow> bool" where
  "counted_refs ts hs \<longleftrightarrow> (\<forall>h. fh_refcount (hs h) = of_nat (refs_in ts h))"

lemma count_list_update:
  assumes "i < length xs"
  shows "count_list (xs[i := y]) x + (if xs ! i = x then 1 else 0) = count_list xs x + (if y = x then 1 else 0)"
  using assms
proof (induction xs arbitrary: i)
  case (Cons a xs)
  show ?case
  proof (cases i)
    case (Suc j)
    then show ?thesis
      using Cons.IH [of j] Cons.prems by (auto split: if_splits)
  qed (auto)
qed simp

lemma count_replicate: "x \<noteq> y \<Longrightarrow> count_list (replicate n x) y = 0"
  by (simp add: count_list_0_iff)

lemma count_ensure_len [simp]: "count_list (fd_entries (ensure_len n t)) (Some h) = count_list (fd_entries t) (Some h)"
  by (auto simp: ensure_len_def resize_def count_list_append count_replicate)

lemma ref_simps [simp]:
  "fh_refcount (ref_add h hs g) = fh_refcount (hs g) + (if g = h then 1 else 0)"
  "fh_refcount (ref_sub h hs g) = fh_refcount (hs g) - (if g = h then 1 else 0)"
  by (simp_all add: ref_add_def ref_sub_def)

text \<open>\<open>shift t t' hs hs'\<close>: the counts have changed from \<open>hs\<close> to \<open>hs'\<close> by as much as the references in
  the table.\<close>

abbreviation refs :: "FdTable \<Rightarrow> file_ref \<Rightarrow> usize" where
  "refs t h \<equiv> of_nat (count_list (fd_entries t) (Some h))"

definition shift :: "FdTable \<Rightarrow> FdTable \<Rightarrow> files \<Rightarrow> files \<Rightarrow> bool" where
  "shift t t' hs hs' \<longleftrightarrow> (\<forall>h. fh_refcount (hs' h) + refs t h = fh_refcount (hs h) + refs t' h)"

lemma shift_refl [simp]: "shift t t hs hs"
  by (simp add: shift_def)

lemma shift_trans:
  assumes "shift t t1 hs hs1" "shift t1 t2 hs1 hs2"
  shows "shift t t2 hs hs2"
proof -
  have "fh_refcount (hs2 h) + refs t h = fh_refcount (hs h) + refs t2 h" for h
  proof -
    have 1: "fh_refcount (hs1 h) + refs t h = fh_refcount (hs h) + refs t1 h"
      and 2: "fh_refcount (hs2 h) + refs t1 h = fh_refcount (hs1 h) + refs t2 h"
      using assms by (simp_all add: shift_def)
    have "fh_refcount (hs2 h) + refs t h + refs t1 h = fh_refcount (hs1 h) + refs t h + refs t2 h"
      using 2 by (simp add: algebra_simps)
    also have "\<dots> = fh_refcount (hs h) + refs t2 h + refs t1 h"
      using 1 by (simp add: algebra_simps)
    finally show ?thesis
      by simp
  qed
  then show ?thesis
    by (simp add: shift_def)
qed

lemma shift_counted:
  assumes "counted_refs (xs @ t # ys) hs" "shift t t' hs hs'"
  shows "counted_refs (xs @ t' # ys) hs'"
proof -
  have "fh_refcount (hs' h) = of_nat (refs_in (xs @ t' # ys) h)" for h
  proof -
    have "fh_refcount (hs' h) + refs t h = of_nat (refs_in (xs @ t # ys) h) + refs t' h"
      using assms by (simp add: counted_refs_def shift_def)
    then show ?thesis
      by (simp add: refs_in_def algebra_simps)
  qed
  then show ?thesis
    by (simp add: counted_refs_def)
qed

lemma shift_ensure_len: "shift t (ensure_len n t) hs hs"
  by (simp add: shift_def)

lemma refs_update:
  assumes "i < length es"
  shows "(of_nat (count_list (es[i := y]) x) :: usize) + (if es ! i = x then 1 else 0)
    = of_nat (count_list es x) + (if y = x then 1 else 0)"
  using arg_cong [OF count_list_update [OF assms, of y x], of "of_nat :: nat \<Rightarrow> usize"] by (auto split: if_splits)

lemma shift_put:
  assumes "i < length (fd_entries t)" "fd_entries t ! i = None"
  shows "shift t (put_entry i h c t) hs (ref_add h hs)"
proof -
  have "refs (put_entry i h c t) g = refs t g + (if g = h then 1 else 0)" for g
    using refs_update [OF assms(1), of "Some h" "Some g"] assms(2) by (simp add: put_entry_def)
  then show ?thesis
    by (simp add: shift_def add_ac)
qed

lemma shift_close:
  assumes "close_fd fd t hs = (r, t', hs')"
  shows "shift t t' hs hs'"
proof (cases "fd < length (fd_entries t)")
  case True
  have t': "fd_entries t' = (fd_entries t)[fd := None]"
    and hs': "hs' = (case fd_entries t ! fd of Some h \<Rightarrow> ref_sub h hs | None \<Rightarrow> hs)"
    using assms True by (auto simp: close_fd_def Let_def)
  have upd: "refs t' g + (if fd_entries t ! fd = Some g then 1 else 0) = refs t g" for g
    using refs_update [OF True, of None "Some g"] by (simp add: t')
  have cnt: "fh_refcount (hs' g) + (if fd_entries t ! fd = Some g then 1 else 0) = fh_refcount (hs g)" for g
    by (cases "fd_entries t ! fd") (simp_all add: hs')
  have "fh_refcount (hs' g) + refs t g = fh_refcount (hs g) + refs t' g" for g
    unfolding upd [of g, symmetric] cnt [of g, symmetric] by (simp only: ac_simps)
  then show ?thesis
    by (simp add: shift_def)
next
  case False
  then show ?thesis
    using assms by (simp add: close_fd_def)
qed

lemma alloc_loop_shift:
  assumes "alloc_loop idx h c t = (Ok i, t')"
  shows "shift t t' hs (ref_add h hs)"
  using assms
proof (induction idx h c t rule: alloc_loop.induct)
  case (1 idx h c t)
  let ?t = "ensure_len (idx + 1) t"
  have len: "idx < length (fd_entries ?t)"
    by (simp add: less_max_iff_disj)
  show ?case
  proof (cases "fd_entries ?t ! idx = None")
    case True
    then have "t' = put_entry idx h c ?t"
      using 1(2) by (subst (asm) alloc_loop.simps) (auto simp: Let_def)
    then show ?thesis
      using shift_trans [OF shift_ensure_len shift_put [OF len True]] by simp
  next
    case False
    then have "\<not> idx + 1 > 1000000" and rec: "alloc_loop (idx + 1) h c ?t = (Ok i, t')"
      using 1(2) by (subst (asm) alloc_loop.simps, auto simp: Let_def split: if_splits)+
    then show ?thesis
      using shift_trans [OF shift_ensure_len 1(1) [OF refl False _ rec]] by simp
  qed
qed

lemma shift_alloc: "alloc_fd m h c t = (Ok i, t') \<Longrightarrow> shift t t' hs (ref_add h hs)"
  by (auto simp: alloc_fd_def dest: alloc_loop_shift split: if_splits)

lemma shift_dup: "dup fd m c t hs = (Ok i, t', hs') \<Longrightarrow> shift t t' hs hs'"
  by (auto simp: dup_def Let_def dest: shift_alloc split: option.splits prod.splits)

text \<open>Vacating the target of \<open>dup2\<close>.\<close>

lemma vacated:
  assumes "(if fd_entries t ! i \<noteq> None then snd (close_fd i t hs) else (t, hs)) = (t1, hs1)" "i < length (fd_entries t)"
  shows "shift t t1 hs hs1" "fd_entries t1 ! i = None" "length (fd_entries t1) = length (fd_entries t)"
    "fd_wf t \<Longrightarrow> fd_wf t1" "get_fd j t1 = (if j = i then None else get_fd j t)"
proof -
  obtain r t2 hs2 where c: "close_fd i t hs = (r, t2, hs2)"
    by (cases "close_fd i t hs")
  note cl = close_fd_get [OF c] shift_close [OF c]
  have none: "fd_entries t ! i = None \<Longrightarrow> get_fd i t = None"
    using assms(2) by (simp add: get_fd_def)
  show "shift t t1 hs hs1" "length (fd_entries t1) = length (fd_entries t)" "fd_wf t \<Longrightarrow> fd_wf t1"
    using assms(1) c cl by (auto split: if_splits)
  show g: "get_fd j t1 = (if j = i then None else get_fd j t)" for j
    using assms(1) c cl(1) none by (auto split: if_splits)
  show "fd_entries t1 ! i = None"
    using g [of i] \<open>length (fd_entries t1) = length (fd_entries t)\<close> assms(2) by (simp add: get_fd_def)
qed

lemma shift_dup2:
  assumes "dup2 oldfd newfd c t hs = Some (r, t', hs')"
  shows "shift t t' hs hs'"
proof (cases "get_fd (unat oldfd) t = None \<or> oldfd = newfd")
  case True
  then show ?thesis
    using assms by (cases "get_fd (unat oldfd) t") (auto simp: dup2_def Let_def shift_def split: if_splits)
next
  case False
  then obtain h where h: "get_fd (unat oldfd) t = Some h"
    by auto
  let ?t = "ensure_len (unat (newfd + 1)) t" and ?i = "unat newfd"
  obtain t1 hs1 where c: "(if fd_entries ?t ! ?i \<noteq> None then snd (close_fd ?i ?t hs) else (?t, hs)) = (t1, hs1)"
    by force
  have "?i < length (fd_entries ?t)"
    using assms h False by (simp add: dup2_def Let_def split: if_splits)
  note v = vacated [OF c this]
  have r: "t' = put_entry ?i h c t1" "hs' = ref_add h hs1"
    using assms h False c by (simp_all add: dup2_def Let_def split: if_splits)
  show ?thesis
    unfolding r
    using shift_trans [OF shift_ensure_len shift_trans [OF v(1) shift_put [of ?i t1]]] v(2,3)
      \<open>?i < length (fd_entries ?t)\<close> by simp
qed

lemma shift_close_on_exec_loop: "close_on_exec_loop is t hs = (t', hs') \<Longrightarrow> shift t t' hs hs'"
proof (induction "is" arbitrary: t hs)
  case (Cons i "is")
  obtain r t1 hs1 where c: "close_fd i t hs = (r, t1, hs1)"
    by (cases "close_fd i t hs")
  show ?case
    using Cons c shift_trans [OF shift_close [OF c]] by (auto simp: Let_def split: if_splits)
qed simp

lemma shift_close_all_loop: "close_all_loop is t hs = (t', hs') \<Longrightarrow> shift t t' hs hs'"
proof (induction "is" arbitrary: t hs)
  case (Cons i "is")
  obtain r t1 hs1 where c: "close_fd i t hs = (r, t1, hs1)"
    by (cases "close_fd i t hs")
  show ?case
    using Cons c shift_trans [OF shift_close [OF c]] by (auto simp: Let_def)
qed simp

lemma close_all_loop_get:
  "close_all_loop is t hs = (t', hs') \<Longrightarrow> get_fd j t' = (if j \<in> set is then None else get_fd j t)"
proof (induction "is" arbitrary: t hs)
  case (Cons i "is")
  obtain r t1 hs1 where c: "close_fd i t hs = (r, t1, hs1)"
    by (cases "close_fd i t hs")
  show ?case
    using Cons c close_fd_get(1) [OF c] by auto
qed simp

lemma close_all_get: "close_all t hs = (t', hs') \<Longrightarrow> get_fd j t' = None"
  using close_all_loop_get [of "[0..<length (fd_entries t)]" t hs t' hs' j] by (auto simp: close_all_def get_fd_def)

lemma clone_entries_count: "fh_refcount (clone_entries es hs h) = fh_refcount (hs h) + of_nat (count_list es (Some h))"
  by (induction es hs rule: clone_entries.induct) auto

text \<open>The steps of the processes' tables and the open files. A file is opened under a fresh
  reference; a \<open>dup\<close> that finds no descriptor is not a step, see \<open>dup_failure_leaks\<close>.\<close>

inductive fd_step :: "FdTable list \<times> files \<Rightarrow> FdTable list \<times> files \<Rightarrow> bool" where
  Open: "alloc_fd m h c t = (Ok i, t') \<Longrightarrow> refs_in (xs @ t # ys) h = 0 \<Longrightarrow>
    fd_step (xs @ t # ys, hs) (xs @ t' # ys, hs(h := file_handle_new node flags))"
| Close: "close_fd fd t hs = (r, t', hs') \<Longrightarrow> fd_step (xs @ t # ys, hs) (xs @ t' # ys, hs')"
| Dup: "dup fd m c t hs = (Ok i, t', hs') \<Longrightarrow> fd_step (xs @ t # ys, hs) (xs @ t' # ys, hs')"
| Dup2: "dup2 old new c t hs = Some (r, t', hs') \<Longrightarrow> fd_step (xs @ t # ys, hs) (xs @ t' # ys, hs')"
| Fork: "fork_clone t hs = (t', hs') \<Longrightarrow> fd_step (xs @ t # ys, hs) (xs @ t # ys @ [t'], hs')"
| Exec: "close_on_exec t hs = (t', hs') \<Longrightarrow> fd_step (xs @ t # ys, hs) (xs @ t' # ys, hs')"
| Exit: "close_all t hs = (t', hs') \<Longrightarrow> fd_step (xs @ t # ys, hs) (xs @ t' # ys, hs')"

lemma counted_step:
  assumes "fd_step s s'" "counted_refs (fst s) (snd s)"
  shows "counted_refs (fst s') (snd s')"
  using assms
proof (induction rule: fd_step.induct)
  case (Open m h c t i t' xs ys hs node flags)
  have "counted_refs (xs @ t' # ys) (ref_add h hs)"
    using shift_counted [OF _ shift_alloc [OF Open(1)]] Open(3) by simp
  moreover have "fh_refcount (hs h) = 0"
    using Open(2,3) by (simp add: counted_refs_def)
  ultimately have "fh_refcount ((hs(h := file_handle_new node flags)) g) = of_nat (refs_in (xs @ t' # ys) g)" for g
    by (cases "g = h") (auto simp: counted_refs_def file_handle_new_def ref_add_def dest: spec [of _ g])
  then show ?case
    by (simp add: counted_refs_def)
next
  case (Fork t hs t' hs' xs ys)
  then show ?case
    by (auto simp: counted_refs_def fork_clone_def clone_entries_count refs_in_def algebra_simps)
qed (auto intro: shift_counted shift_close shift_dup shift_dup2 shift_close_on_exec_loop shift_close_all_loop
    simp: close_on_exec_def close_all_def)

lemma alloc_refines:
  assumes "fd_wf t"
  shows "case alloc_fd m h c t of
       (Ok i, t') \<Rightarrow> fd_wf t' \<and> lowest_free m t i \<and> (\<lambda>j. get_fd j t') = (\<lambda>j. get_fd j t)(i \<mapsto> h)
     | (Err e, t') \<Rightarrow> fd_wf t' \<and> (\<nexists>i. lowest_free m t i) \<and> (\<lambda>j. get_fd j t') = (\<lambda>j. get_fd j t)"
proof (cases "m > 1000000")
  case True
  then show ?thesis
    using assms by (simp add: alloc_fd_def lowest_free_def)
next
  case False
  obtain r t' where r: "alloc_loop m h c t = (r, t')"
    by force
  then show ?thesis
    using alloc_loop_spec [OF r _ assms] False
    by (cases r) (auto simp: alloc_fd_def lowest_free_def fun_eq_iff)
qed

lemma dup2_refines:
  assumes "fd_wf t" "get_fd (unat old) t = Some g" "new \<noteq> -1"
  shows "\<exists>t' hs'. dup2 old new c t hs = Some (Ok new, t', hs')
    \<and> fd_wf t' \<and> (\<lambda>j. get_fd j t') = (\<lambda>j. get_fd j t)(unat new \<mapsto> g)"
proof -
  have "1 + new \<noteq> 0"
    using assms(3) by (metis add_eq_0_iff)
  then have n1: "unat (new + 1) = unat new + 1"
    using unatSuc [of new] by (simp add: add.commute)
  let ?t = "ensure_len (unat (new + 1)) t" and ?i = "unat new"
  have i: "?i < length (fd_entries ?t)" and wf: "fd_wf ?t"
    using assms(1) by (simp_all add: n1 less_max_iff_disj)
  show ?thesis
  proof (cases "old = new")
    case True
    then have "?i < length (fd_entries t)"
      using assms(2) by (simp add: get_fd_def split: if_splits)
    then have "?t = t"
      by (simp add: ensure_len_def n1)
    then show ?thesis
      using True assms(1,2) by (auto simp: dup2_def Let_def fd_wf_def get_fd_def fun_eq_iff split: if_splits)
  next
    case False
    obtain t1 hs1 where c: "(if fd_entries ?t ! ?i \<noteq> None then snd (close_fd ?i ?t hs) else (?t, hs)) = (t1, hs1)"
      by force
    then have "fd_wf t1" "?i < length (fd_entries t1)" "get_fd j t1 = (if j = ?i then None else get_fd j t)" for j
      using vacated [OF c i] wf i by simp_all
    then show ?thesis
      using assms(2) False c i by (auto simp: dup2_def Let_def fun_eq_iff)
  qed
qed

section \<open>Properties of descriptor tables\<close>



text \<open>a \<open>dup\<close> that is asked for a descriptor above a million fails without having changed the
  table, but it has raised the reference count of the file, which is now too high for good.\<close>

theorem dup_failure_leaks:
  assumes "get_fd fd t = Some h" "min_fd > 1000000" "counted_refs (t # ts) hs"
  shows "\<exists>hs'. dup fd min_fd c t hs = (Err FdInvalid, t, hs') \<and> fh_refcount (hs' h) = of_nat (refs_in (t # ts) h) + 1
    \<and> \<not> counted_refs (t # ts) hs'"
  using assms by (auto simp: dup_def alloc_fd_def counted_refs_def intro!: exI [of _ h])

subsection \<open>Instances\<close>

text \<open>A table in which the descriptors 0 and 2 are in use.\<close>

definition sample_fds :: FdTable where
  "sample_fds = \<lparr>fd_entries = [Some 5, None, Some 7], fd_cloexec = [False, False, True]\<rparr>"

definition sample_files :: files where
  "sample_files = (\<lambda>_. file_handle_new 0 0)(6 := (file_handle_new 0 0)\<lparr>fh_refcount := 0\<rparr>)"



theorem dup_failure_leaks_witness:
  "\<exists>hs'. dup 0 2000000 False sample_fds ((\<lambda>_. \<lparr>fh_node = 0, fh_flags = 0, fh_offset = 0, fh_refcount = 0\<rparr>)
      (5 := file_handle_new 0 0, 7 := file_handle_new 0 0)) = (Err FdInvalid, sample_fds, hs') \<and> fh_refcount (hs' 5) = 2"
proof -
  let ?hs = "(\<lambda>_. \<lparr>fh_node = 0, fh_flags = 0, fh_offset = 0, fh_refcount = 0\<rparr>)(5 := file_handle_new 0 0, 7 := file_handle_new 0 0)"
  have "get_fd 0 sample_fds = Some 5" "counted_refs [sample_fds] ?hs" "refs_in [sample_fds] 5 = 1"
    by (auto simp: get_fd_def sample_fds_def counted_refs_def refs_in_def file_handle_new_def)
  then show ?thesis
    using dup_failure_leaks [of 0 sample_fds 5 2000000 "[]" ?hs False] by auto
qed

end
