(* ===== verification/Scheduler.thy ===== *)
theory Scheduler
  imports FdTable "HOL-Library.Multiset"
begin

text \<open>
  Run queues, the scheduler and wait queues (\<open>kernel_task/src/task/runqueue.rs\<close>, \<open>scheduler.rs\<close>,
  \<open>preempt.rs\<close>, the task record of \<open>task.rs\<close>, \<open>kernel_task/src/waitqueue.rs\<close> and the waiting half of
  \<open>kernel_syscall/src/syscall/process.rs\<close>).

  An \<open>Arc<TaskControlBlock>\<close> is a reference into a store of tasks, so that two queues that hold the
  same task share its fields. Every operation runs with its locks held from beginning to end and is
  one step; what another CPU does in between is another step. \<open>try_lock\<close> may fail, so its outcome is
  an argument. Disabling interrupts and preemption has no effect on the state that is modelled, and
  a switch of contexts is where an operation ends. The operations take the number of the CPU that
  runs them as the hardware gives it. A lock that is taken twice by the same CPU is a deadlock,
  \<open>None\<close>.
\<close>

section \<open>Tasks\<close>

datatype TaskStatus = Ready | Running | Exited | Waiting

type_synonym tid = nat
type_synonym i32 = "32 word"

record TaskControlBlock =
  t_pid :: usize
  t_status :: TaskStatus
  t_in_run_queue :: bool
  t_exit_code :: i32
  t_parent :: "tid option"
  t_children :: "tid list"
  t_stride :: usize
  t_pass :: usize
  t_fds :: FdTable

text \<open>\<open>sc_live\<close> tells which tasks still have a strong reference, for \<open>Weak::upgrade\<close>;
  \<open>sc_ipi_requests\<close> counts the calls of \<open>send_resched_ipi_all\<close>.\<close>

record Sched =
  sc_tcb :: "tid \<Rightarrow> TaskControlBlock"
  sc_ready :: "nat \<Rightarrow> tid list"
  sc_counts :: "nat \<Rightarrow> usize"
  sc_current :: "nat \<Rightarrow> tid option"
  sc_all :: "tid list"
  sc_next_pid :: usize
  sc_need_resched :: "nat \<Rightarrow> bool"
  sc_cpu_count :: nat
  sc_ipi_requests :: nat
  sc_files :: files
  sc_live :: "tid \<Rightarrow> bool"

definition TASK_MAX_CPUS :: nat where
  "TASK_MAX_CPUS = 64"

definition task_cpu_id :: "nat \<Rightarrow> nat" where
  "task_cpu_id raw = (if raw < TASK_MAX_CPUS then raw else 0)"

abbreviation upd_task :: "tid \<Rightarrow> (TaskControlBlock \<Rightarrow> TaskControlBlock) \<Rightarrow> Sched \<Rightarrow> Sched" where
  "upd_task t f s \<equiv> s\<lparr>sc_tcb := (sc_tcb s)(t := f (sc_tcb s t))\<rparr>"

section \<open>Run queues\<close>

text \<open>\<open>TaskManager::add\<close>.\<close>

definition tm_add :: "nat \<Rightarrow> tid \<Rightarrow> Sched \<Rightarrow> Sched" where
  "tm_add c t s = s\<lparr>sc_ready := (sc_ready s)(c := sc_ready s c @ [t])\<rparr>"

text \<open>The scan of \<open>TaskManager::fetch\<close> for the first task with the smallest pass.\<close>

fun min_scan :: "(tid \<Rightarrow> usize) \<Rightarrow> tid list \<Rightarrow> nat \<Rightarrow> usize \<Rightarrow> nat \<Rightarrow> nat" where
  "min_scan pass [] idx min_pass min_idx = min_idx"
| "min_scan pass (t # ts) idx min_pass min_idx =
    (if pass t < min_pass then min_scan pass ts (idx + 1) (pass t) idx
     else min_scan pass ts (idx + 1) min_pass min_idx)"

definition tm_fetch :: "nat \<Rightarrow> Sched \<Rightarrow> tid option \<times> Sched" where
  "tm_fetch c s =
    (let q = sc_ready s c
     in if q = [] then (None, s)
        else let min_idx = min_scan (\<lambda>t. t_pass (sc_tcb s t)) q 0 (- 1) 0;
                 t = q ! min_idx;
                 s = s\<lparr>sc_ready := (sc_ready s)(c := take min_idx q @ drop (Suc min_idx) q)\<rparr>
             in (Some t, upd_task t (\<lambda>b. b\<lparr>t_in_run_queue := False, t_pass := t_pass b + t_stride b\<rparr>) s))"

definition inc_ready :: "nat \<Rightarrow> usize \<Rightarrow> Sched \<Rightarrow> Sched" where
  "inc_ready c n s = (if c < TASK_MAX_CPUS then s\<lparr>sc_counts := (sc_counts s)(c := sc_counts s c + n)\<rparr> else s)"

definition dec_ready :: "nat \<Rightarrow> usize \<Rightarrow> Sched \<Rightarrow> Sched" where
  "dec_ready c n s = (if c < TASK_MAX_CPUS then s\<lparr>sc_counts := (sc_counts s)(c := sc_counts s c - n)\<rparr> else s)"

definition get_ready :: "nat \<Rightarrow> Sched \<Rightarrow> usize" where
  "get_ready c s = (if c < TASK_MAX_CPUS then sc_counts s c else 0)"

definition enqueue_ready :: "nat \<Rightarrow> tid \<Rightarrow> Sched \<Rightarrow> bool \<times> Sched" where
  "enqueue_ready raw t s =
    (if t_in_run_queue (sc_tcb s t) then (False, s)
     else let s = upd_task t (\<lambda>b. b\<lparr>t_in_run_queue := True\<rparr>) s
          in if t_status (sc_tcb s t) = Exited then (False, upd_task t (\<lambda>b. b\<lparr>t_in_run_queue := False\<rparr>) s)
             else let s = upd_task t (\<lambda>b. b\<lparr>t_status := Ready\<rparr>) s;
                      s = tm_add (task_cpu_id raw) t s
                  in (True, inc_ready (task_cpu_id raw) 1 s))"

text \<open>Work stealing: the most loaded other CPU, and the steps of taking a batch from it.\<close>

fun pick_victim :: "nat \<Rightarrow> Sched \<Rightarrow> nat list \<Rightarrow> nat option \<Rightarrow> usize \<Rightarrow> nat option \<times> usize" where
  "pick_victim cpu s [] best_cpu best_len = (best_cpu, best_len)"
| "pick_victim cpu s (i # is) best_cpu best_len =
    (if i = cpu then pick_victim cpu s is best_cpu best_len
     else let len = get_ready i s
          in if len > best_len then pick_victim cpu s is (Some i) len
             else pick_victim cpu s is best_cpu best_len)"

fun steal_loop :: "nat \<Rightarrow> nat \<Rightarrow> nat \<Rightarrow> tid option \<Rightarrow> Sched \<Rightarrow> tid option \<times> Sched" where
  "steal_loop 0 i cpu first s = (first, s)"
| "steal_loop (Suc n) i cpu first s =
    (case tm_fetch i s of
       (None, s) \<Rightarrow> (first, s)
     | (Some t, s) \<Rightarrow>
         let s = dec_ready i 1 s
         in if t_status (sc_tcb s t) = Ready then
              (case first of
                 None \<Rightarrow> steal_loop n i cpu (Some t) s
               | Some f \<Rightarrow> steal_loop n i cpu (Some f) (inc_ready cpu 1 (tm_add cpu t s)))
            else steal_loop n i cpu first (inc_ready i 1 (tm_add i t s)))"

definition steal_count :: "usize \<Rightarrow> nat" where
  "steal_count best_len = (let to_steal = best_len div 2 in if to_steal = 0 then 1 else unat to_steal)"

text \<open>\<open>unlocked\<close> tells whether \<open>try_lock\<close> on the victim's queue succeeds.\<close>

definition fetch_next_task :: "(nat \<Rightarrow> bool) \<Rightarrow> nat \<Rightarrow> Sched \<Rightarrow> tid option \<times> Sched" where
  "fetch_next_task unlocked raw s =
    (let cpu = task_cpu_id raw
     in case tm_fetch cpu s of
          (Some t, s) \<Rightarrow> (Some t, dec_ready cpu 1 s)
        | (None, s) \<Rightarrow>
            (case pick_victim cpu s [0..<min (sc_cpu_count s) TASK_MAX_CPUS] None 0 of
               (Some i, best_len) \<Rightarrow>
                 if best_len \<ge> 2 \<and> unlocked i then steal_loop (steal_count best_len) i cpu None s else (None, s)
             | (None, best_len) \<Rightarrow> (None, s)))"

fun steal_one_loop :: "nat \<Rightarrow> nat \<Rightarrow> Sched \<Rightarrow> tid option \<times> Sched" where
  "steal_one_loop 0 i s = (None, s)"
| "steal_one_loop (Suc n) i s =
    (case tm_fetch i s of
       (None, s) \<Rightarrow> (None, s)
     | (Some t, s) \<Rightarrow>
         let s = dec_ready i 1 s
         in if t_status (sc_tcb s t) = Ready then (Some t, s)
            else steal_one_loop n i (inc_ready i 1 (tm_add i t s)))"

definition fetch_next_task_try :: "(nat \<Rightarrow> bool) \<Rightarrow> nat \<Rightarrow> Sched \<Rightarrow> tid option \<times> Sched" where
  "fetch_next_task_try unlocked raw s =
    (let cpu = task_cpu_id raw
     in if \<not> unlocked cpu then (None, s)
        else case tm_fetch cpu s of
          (Some t, s) \<Rightarrow> (Some t, dec_ready cpu 1 s)
        | (None, s) \<Rightarrow>
            (case pick_victim cpu s [0..<min (sc_cpu_count s) TASK_MAX_CPUS] None 0 of
               (Some i, best_len) \<Rightarrow>
                 if best_len \<ge> 2 \<and> unlocked i then steal_one_loop (steal_count best_len) i s else (None, s)
             | (None, best_len) \<Rightarrow> (None, s)))"

section \<open>The scheduler\<close>

definition set_need_resched :: "nat \<Rightarrow> Sched \<Rightarrow> Sched" where
  "set_need_resched c s = (if c < TASK_MAX_CPUS then s\<lparr>sc_need_resched := (sc_need_resched s)(c := True)\<rparr> else s)"

definition take_need_resched :: "nat \<Rightarrow> Sched \<Rightarrow> bool \<times> Sched" where
  "take_need_resched c s =
    (if c < TASK_MAX_CPUS then (sc_need_resched s c, s\<lparr>sc_need_resched := (sc_need_resched s)(c := False)\<rparr>) else (False, s))"

definition notify_resched :: "Sched \<Rightarrow> Sched" where
  "notify_resched s =
    s\<lparr>sc_need_resched := (\<lambda>c. if c < sc_cpu_count s \<and> c < TASK_MAX_CPUS then True else sc_need_resched s c),
      sc_ipi_requests := sc_ipi_requests s + 1\<rparr>"

definition set_current_task :: "nat \<Rightarrow> tid \<Rightarrow> Sched \<Rightarrow> Sched" where
  "set_current_task raw t s =
    (let s = upd_task t (\<lambda>b. b\<lparr>t_status := Running\<rparr>) s
     in s\<lparr>sc_current := (sc_current s)(task_cpu_id raw := Some t)\<rparr>)"

definition clear_current_task :: "nat \<Rightarrow> Sched \<Rightarrow> Sched" where
  "clear_current_task raw s = s\<lparr>sc_current := (sc_current s)(task_cpu_id raw := None)\<rparr>"

definition current_task :: "nat \<Rightarrow> Sched \<Rightarrow> tid option" where
  "current_task raw s = sc_current s (task_cpu_id raw)"

definition suspend_current_and_run_next :: "nat \<Rightarrow> Sched \<Rightarrow> Sched" where
  "suspend_current_and_run_next raw s =
    (case current_task raw s of
       None \<Rightarrow> s
     | Some t \<Rightarrow> clear_current_task raw (snd (enqueue_ready raw t s)))"

text \<open>One round of the idle loop \<open>run_tasks\<close>, up to the switch into the task.\<close>

definition run_next :: "(nat \<Rightarrow> bool) \<Rightarrow> nat \<Rightarrow> Sched \<Rightarrow> Sched" where
  "run_next unlocked raw s =
    (case fetch_next_task unlocked raw s of
       (Some t, s) \<Rightarrow> set_current_task raw t s
     | (None, s) \<Rightarrow> s)"

definition block_current_and_schedule :: "nat \<Rightarrow> Sched \<Rightarrow> Sched" where
  "block_current_and_schedule raw s = clear_current_task raw s"

definition live_parent :: "tid \<Rightarrow> Sched \<Rightarrow> tid option" where
  "live_parent t s = (case t_parent (sc_tcb s t) of None \<Rightarrow> None | Some p \<Rightarrow> if sc_live s p then Some p else None)"

text \<open>\<open>exit_current_and_run_next\<close> holds the lock on the parent's status while it calls
  \<open>enqueue_ready\<close>, which takes that lock again unless the parent is already queued.\<close>

definition exit_current_and_run_next :: "nat \<Rightarrow> i32 \<Rightarrow> Sched \<Rightarrow> Sched option" where
  "exit_current_and_run_next raw exit_code s =
    (case current_task raw s of
       None \<Rightarrow> Some s
     | Some t \<Rightarrow>
         let (fds, hs) = close_all (t_fds (sc_tcb s t)) (sc_files s);
             s = upd_task t (\<lambda>b. b\<lparr>t_fds := fds\<rparr>) (s\<lparr>sc_files := hs\<rparr>);
             s = upd_task t (\<lambda>b. b\<lparr>t_status := Exited, t_exit_code := exit_code\<rparr>) s
         in case live_parent t s of
              None \<Rightarrow> Some (clear_current_task raw s)
            | Some p \<Rightarrow>
                if t_status (sc_tcb s p) \<noteq> Waiting then Some (clear_current_task raw s)
                else let s = upd_task p (\<lambda>b. b\<lparr>t_status := Ready\<rparr>) s
                     in if t_in_run_queue (sc_tcb s p) then Some (clear_current_task raw s)
                        else None)"

definition allocate_pid :: "Sched \<Rightarrow> usize \<times> Sched" where
  "allocate_pid s = (sc_next_pid s, s\<lparr>sc_next_pid := sc_next_pid s + 1\<rparr>)"

text \<open>\<open>add_task\<close> once the task has been built from its image and stored under the reference \<open>t\<close>.\<close>

definition add_task :: "nat \<Rightarrow> tid \<Rightarrow> Sched \<Rightarrow> Sched" where
  "add_task raw t s =
    (let s = (if \<exists>u\<in>set (sc_all s). t_pid (sc_tcb s u) = t_pid (sc_tcb s t) then s else s\<lparr>sc_all := sc_all s @ [t]\<rparr>);
         s = tm_add (task_cpu_id raw) t s;
         s = inc_ready (task_cpu_id raw) 1 s
     in notify_resched s)"

definition add_task_arc :: "nat \<Rightarrow> tid \<Rightarrow> Sched \<Rightarrow> Sched" where
  "add_task_arc raw t s = (let (b, s) = enqueue_ready raw t s in if b then notify_resched s else s)"

definition list_tasks :: "Sched \<Rightarrow> (usize \<times> TaskStatus) list" where
  "list_tasks s = map (\<lambda>t. (t_pid (sc_tcb s t), t_status (sc_tcb s t))) (sc_all s)"

text \<open>Removing a task from all queues and recounting them.\<close>

definition purge :: "usize \<Rightarrow> Sched \<Rightarrow> Sched" where
  "purge pid s =
    (let qs = (\<lambda>c. if c < TASK_MAX_CPUS then filter (\<lambda>t. t_pid (sc_tcb s t) \<noteq> pid) (sc_ready s c) else sc_ready s c)
     in s\<lparr>sc_ready := qs, sc_counts := (\<lambda>c. if c < TASK_MAX_CPUS then of_nat (length (qs c)) else sc_counts s c)\<rparr>)"

text \<open>\<open>hook\<close> is the registered kill hook.\<close>

definition kill_task :: "(Sched \<Rightarrow> Sched) \<Rightarrow> nat \<Rightarrow> usize \<Rightarrow> i32 \<Rightarrow> Sched \<Rightarrow> (bool \<times> Sched) option" where
  "kill_task hook raw pid code s =
    (if (case current_task raw s of Some ct \<Rightarrow> t_pid (sc_tcb s ct) = pid | None \<Rightarrow> False)
     then map_option (Pair True) (exit_current_and_run_next raw code s)
     else case find (\<lambda>t. t_pid (sc_tcb s t) = pid) (sc_all s) of
       None \<Rightarrow> Some (False, s)
     | Some t \<Rightarrow>
         let s = upd_task t (\<lambda>b. b\<lparr>t_status := Exited, t_exit_code := code, t_in_run_queue := False\<rparr>) s;
             s = hook s;
             s = (case live_parent t s of
                    None \<Rightarrow> s
                  | Some p \<Rightarrow>
                      if t_status (sc_tcb s p) = Waiting
                      then let (b, s) = enqueue_ready raw p s in if b then notify_resched s else s
                      else s)
         in Some (True, purge pid s))"

section \<open>Preemption\<close>

text \<open>What \<open>preempt_from_interrupt\<close> does for an interrupt from user mode; \<open>proc_unlocked\<close> is the
  outcome of \<open>try_lock\<close> on the processor. The result is the task that is switched to.\<close>

definition preempt_from_interrupt :: "bool \<Rightarrow> (nat \<Rightarrow> bool) \<Rightarrow> nat \<Rightarrow> bool \<Rightarrow> Sched \<Rightarrow> tid option \<times> Sched" where
  "preempt_from_interrupt proc_unlocked unlocked raw user_mode s =
    (if \<not> user_mode then (None, s)
     else let cpu = task_cpu_id raw; (b, s) = take_need_resched cpu s
     in if \<not> b then (None, s)
        else if \<not> proc_unlocked then (None, set_need_resched cpu s)
        else case current_task raw s of
          None \<Rightarrow> (None, set_need_resched cpu s)
        | Some cur \<Rightarrow>
            (case fetch_next_task_try unlocked raw s of
               (None, s) \<Rightarrow> (None, set_need_resched cpu s)
             | (Some nxt, s) \<Rightarrow>
                 if cur = nxt then (None, s)
                 else (Some nxt, set_current_task raw nxt (snd (enqueue_ready raw cur s)))))"

definition handle_timer :: "bool \<Rightarrow> nat \<Rightarrow> bool \<Rightarrow> bool \<Rightarrow> (nat \<Rightarrow> bool) \<Rightarrow> nat \<Rightarrow> bool \<Rightarrow> Sched \<Rightarrow> tid option \<times> Sched" where
  "handle_timer preempt_enabled preempt_count interrupt_preempt proc_unlocked unlocked raw user_mode s =
    (if \<not> preempt_enabled \<or> preempt_count \<noteq> 0 then (None, s)
     else let s = set_need_resched (task_cpu_id raw) s
          in if interrupt_preempt then preempt_from_interrupt proc_unlocked unlocked raw user_mode s else (None, s))"

definition handle_resched_ipi :: "bool \<Rightarrow> nat \<Rightarrow> bool \<Rightarrow> bool \<Rightarrow> (nat \<Rightarrow> bool) \<Rightarrow> nat \<Rightarrow> bool \<Rightarrow> Sched \<Rightarrow> tid option \<times> Sched" where
  "handle_resched_ipi preempt_enabled preempt_count interrupt_preempt proc_unlocked unlocked raw user_mode s =
    (if \<not> preempt_enabled \<or> preempt_count \<noteq> 0 then (None, s)
     else let s = set_need_resched (task_cpu_id raw) s
          in if interrupt_preempt then preempt_from_interrupt proc_unlocked unlocked raw user_mode s else (None, s))"

definition check_preempt_from_syscall :: "bool \<Rightarrow> nat \<Rightarrow> nat \<Rightarrow> bool \<Rightarrow> Sched \<Rightarrow> Sched" where
  "check_preempt_from_syscall preempt_enabled preempt_count raw user_mode s =
    (if \<not> preempt_enabled \<or> preempt_count \<noteq> 0 \<or> \<not> user_mode then s
     else let (b, s) = take_need_resched (task_cpu_id raw) s
          in if b then suspend_current_and_run_next raw s else s)"

section \<open>Wait queues\<close>

type_synonym WaitQueue = "tid list"

text \<open>One round of \<open>wait_while\<close>: the condition is tested, and when it holds the current task is put on
  the queue and blocks. The flag says whether it sleeps; it tests again when it runs next.\<close>

definition wait_while :: "bool \<Rightarrow> nat \<Rightarrow> WaitQueue \<Rightarrow> Sched \<Rightarrow> bool \<times> WaitQueue \<times> Sched" where
  "wait_while condition raw q s =
    (case current_task raw s of
       None \<Rightarrow> (False, q, s)
     | Some t \<Rightarrow>
         if condition then
           let s = upd_task t (\<lambda>b. b\<lparr>t_status := Waiting, t_in_run_queue := False\<rparr>) s;
               q = (if \<exists>u\<in>set q. t_pid (sc_tcb s u) = t_pid (sc_tcb s t) then q else q @ [t])
           in (True, q, block_current_and_schedule raw s)
         else (False, q, s))"

definition wake_one :: "nat \<Rightarrow> WaitQueue \<Rightarrow> Sched \<Rightarrow> WaitQueue \<times> Sched" where
  "wake_one raw q s = (if q = [] then (q, s) else (butlast q, add_task_arc raw (last q) s))"

definition wake_all :: "nat \<Rightarrow> WaitQueue \<Rightarrow> Sched \<Rightarrow> WaitQueue \<times> Sched" where
  "wake_all raw q s = ([], fold (add_task_arc raw) q s)"

text \<open>One round of the loop of \<open>sys_waitpid\<close>: the first matching child that has exited is removed and
  returned with its code; with matching children but none exited the caller blocks.\<close>

datatype wait_result = WaitExited usize i32 | WaitNoChildren | WaitBlocked

fun scan_children :: "Sched \<Rightarrow> (usize \<Rightarrow> bool) \<Rightarrow> tid list \<Rightarrow> nat \<Rightarrow> bool \<Rightarrow> bool \<times> nat option" where
  "scan_children s matches [] idx found = (found, None)"
| "scan_children s matches (ch # chs) idx found =
    (if matches (t_pid (sc_tcb s ch)) then
       if t_status (sc_tcb s ch) = Exited then (True, Some idx) else scan_children s matches chs (idx + 1) True
     else scan_children s matches chs (idx + 1) found)"

definition waitpid_round :: "tid \<Rightarrow> usize \<Rightarrow> Sched \<Rightarrow> wait_result \<times> Sched" where
  "waitpid_round t pid s =
    (let children = t_children (sc_tcb s t)
     in case scan_children s (\<lambda>p. pid = - 1 \<or> p = pid) children 0 False of
          (_, Some i) \<Rightarrow>
            let ch = children ! i
            in (WaitExited (t_pid (sc_tcb s ch)) (t_exit_code (sc_tcb s ch)),
                upd_task t (\<lambda>b. b\<lparr>t_children := take i children @ drop (Suc i) children\<rparr>) s)
        | (found, None) \<Rightarrow>
            if \<not> found then (WaitNoChildren, s)
            else (WaitBlocked, upd_task t (\<lambda>b. b\<lparr>t_status := Waiting\<rparr>) s))"

section \<open>Fetching\<close>

definition scanned :: "(tid \<Rightarrow> usize) \<Rightarrow> tid list \<Rightarrow> usize \<Rightarrow> nat \<Rightarrow> bool" where
  "scanned pass pre min_pass min_idx \<longleftrightarrow>
     pre = [] \<and> min_idx = 0 \<and> min_pass = - 1
   \<or> min_idx < length pre \<and> pass (pre ! min_idx) = min_pass \<and> (\<forall>t\<in>set pre. min_pass \<le> pass t)
     \<and> (\<forall>t\<in>set (take min_idx pre). min_pass < pass t)"

lemma scanned_step:
  assumes "scanned pass pre mp mi"
  shows "pass t < mp \<Longrightarrow> scanned pass (pre @ [t]) (pass t) (length pre)"
    "\<not> pass t < mp \<Longrightarrow> scanned pass (pre @ [t]) mp mi"
proof -
  assume lt: "pass t < mp"
  have "mp \<le> pass u" if "u \<in> set pre" for u
    using assms that by (auto simp: scanned_def)
  then have "pass t < pass u" if "u \<in> set pre" for u
    using lt that order_less_le_trans by blast
  then show "scanned pass (pre @ [t]) (pass t) (length pre)"
    by (auto simp: scanned_def less_imp_le)
next
  assume ge: "\<not> pass t < mp"
  show "scanned pass (pre @ [t]) mp mi"
  proof (cases "pre = []")
    case True
    then have "mp = - 1" "mi = 0"
      using assms by (simp_all add: scanned_def)
    moreover from this ge have "pass t = - 1"
      by (simp add: not_less word_order.extremum_unique)
    ultimately show ?thesis
      using True by (simp add: scanned_def)
  next
    case False
    then show ?thesis
      using assms ge by (auto simp: scanned_def nth_append not_less)
  qed
qed

lemma min_scan_spec:
  "scanned pass pre mp mi \<Longrightarrow> idx = length pre \<Longrightarrow> \<exists>m. scanned pass (pre @ ts) m (min_scan pass ts idx mp mi)"
proof (induction ts arbitrary: pre mp mi idx)
  case (Cons t ts)
  show ?case
  proof (cases "pass t < mp")
    case True
    then show ?thesis
      using Cons.IH [OF scanned_step(1) [OF Cons.prems(1) True]] Cons.prems(2) by simp
  next
    case False
    then show ?thesis
      using Cons.IH [OF scanned_step(2) [OF Cons.prems(1) False]] Cons.prems(2) by simp
  qed
qed auto

abbreviation pass_of :: "Sched \<Rightarrow> tid \<Rightarrow> usize" where
  "pass_of s t \<equiv> t_pass (sc_tcb s t)"

lemma tm_fetch_Some:
  assumes "sc_ready s c \<noteq> []"
  obtains pre t post where "sc_ready s c = pre @ t # post"
    "\<And>u. u \<in> set pre \<Longrightarrow> pass_of s t < pass_of s u" "\<And>u. u \<in> set post \<Longrightarrow> pass_of s t \<le> pass_of s u"
    "tm_fetch c s = (Some t, s\<lparr>sc_ready := (sc_ready s)(c := pre @ post),
       sc_tcb := (sc_tcb s)(t := (sc_tcb s t)\<lparr>t_in_run_queue := False, t_pass := pass_of s t + t_stride (sc_tcb s t)\<rparr>)\<rparr>)"
proof -
  let ?q = "sc_ready s c"
  let ?i = "min_scan (pass_of s) ?q 0 (- 1) 0"
  have "scanned (pass_of s) [] (- 1) 0"
    by (simp add: scanned_def)
  then obtain m where m: "scanned (pass_of s) ?q m ?i"
    using min_scan_spec [of "pass_of s" "[]" "- 1" 0 0 ?q] by auto
  then have i: "?i < length ?q" "pass_of s (?q ! ?i) = m" "\<And>u. u \<in> set ?q \<Longrightarrow> m \<le> pass_of s u"
    "\<And>u. u \<in> set (take ?i ?q) \<Longrightarrow> m < pass_of s u"
    using assms by (auto simp: scanned_def)
  show thesis
  proof (rule that [of "take ?i ?q" "?q ! ?i" "drop (Suc ?i) ?q"])
    show "?q = take ?i ?q @ ?q ! ?i # drop (Suc ?i) ?q"
      by (rule id_take_nth_drop [OF i(1)])
    show "pass_of s (?q ! ?i) \<le> pass_of s u" if "u \<in> set (drop (Suc ?i) ?q)" for u
      using i(2,3) in_set_dropD [OF that] by simp
  qed (use assms i(2,4) in \<open>auto simp: tm_fetch_def Let_def\<close>)
qed

lemma tm_fetch_None: "sc_ready s c = [] \<Longrightarrow> tm_fetch c s = (None, s)"
  by (simp add: tm_fetch_def)

section \<open>Queues and counts\<close>

definition counts_ok :: "Sched \<Rightarrow> bool" where
  "counts_ok s \<longleftrightarrow> (\<forall>c<TASK_MAX_CPUS. sc_counts s c = of_nat (length (sc_ready s c)))"

definition queued :: "Sched \<Rightarrow> tid multiset" where
  "queued s = (\<Sum>c<TASK_MAX_CPUS. mset (sc_ready s c))"

definition opt_mset :: "'a option \<Rightarrow> 'a multiset" where
  "opt_mset x = (case x of None \<Rightarrow> {#} | Some a \<Rightarrow> {#a#})"

lemma opt_mset_simps [simp]: "opt_mset None = {#}" "opt_mset (Some a) = {#a#}"
  by (simp_all add: opt_mset_def)

lemma cpu_bound [simp]: "task_cpu_id raw < TASK_MAX_CPUS"
  by (simp add: task_cpu_id_def TASK_MAX_CPUS_def)

lemma sum_upd:
  fixes f :: "nat \<Rightarrow> tid list"
  assumes "c < n"
  shows "(\<Sum>i<n. mset ((f(c := q)) i)) + mset (f c) = (\<Sum>i<n. mset (f i)) + mset q"
proof -
  have "(\<Sum>i<n. mset ((f(c := q)) i)) = mset q + (\<Sum>i\<in>{..<n} - {c}. mset ((f(c := q)) i))"
    using assms by (simp add: sum.remove)
  moreover have "(\<Sum>i\<in>{..<n} - {c}. mset ((f(c := q)) i)) = (\<Sum>i\<in>{..<n} - {c}. mset (f i))"
    by (rule sum.cong) auto
  moreover have "(\<Sum>i<n. mset (f i)) = mset (f c) + (\<Sum>i\<in>{..<n} - {c}. mset (f i))"
    using assms by (simp add: sum.remove)
  ultimately show ?thesis
    by (simp add: ac_simps)
qed

text \<open>\<open>moves s s' gone came\<close>: some tasks have left the queues, others have joined them, and the counts
  have followed.\<close>

definition moves :: "Sched \<Rightarrow> Sched \<Rightarrow> tid multiset \<Rightarrow> tid multiset \<Rightarrow> bool" where
  "moves s s' gone came \<longleftrightarrow> queued s' + gone = queued s + came \<and> (counts_ok s \<longrightarrow> counts_ok s')"

lemma moves_refl [simp]: "moves s s {#} {#}"
  by (simp add: moves_def)

lemma moves_trans: "moves s s1 g c \<Longrightarrow> moves s1 s2 g' c' \<Longrightarrow> moves s s2 (g + g') (c + c')"
  by (auto simp: moves_def ac_simps)

lemma moves_cong:
  "sc_ready s' = sc_ready s \<Longrightarrow> sc_counts s' = sc_counts s \<Longrightarrow> moves s s' {#} {#}"
  by (simp add: moves_def queued_def counts_ok_def)

lemma moves_add:
  assumes "c < TASK_MAX_CPUS"
  shows "moves s (inc_ready c 1 (tm_add c t s)) {#} {#t#}"
proof -
  have "queued (inc_ready c 1 (tm_add c t s)) + mset (sc_ready s c) = queued s + mset (sc_ready s c @ [t])"
    using sum_upd [OF assms, of "sc_ready s" "sc_ready s c @ [t]"] assms
    by (simp add: queued_def inc_ready_def tm_add_def)
  then have "queued (inc_ready c 1 (tm_add c t s)) = queued s + {#t#}"
    by simp
  then show ?thesis
    using assms by (simp add: moves_def counts_ok_def inc_ready_def tm_add_def)
qed

lemma moves_fetch:
  assumes "c < TASK_MAX_CPUS" "tm_fetch c s = (Some t, s')"
  shows "moves s (dec_ready c 1 s') {#t#} {#}"
proof -
  have "sc_ready s c \<noteq> []"
    using assms(2) tm_fetch_None by fastforce
  then obtain pre u post where q: "sc_ready s c = pre @ u # post"
    and f: "tm_fetch c s = (Some u, s\<lparr>sc_ready := (sc_ready s)(c := pre @ post),
       sc_tcb := (sc_tcb s)(u := (sc_tcb s u)\<lparr>t_in_run_queue := False, t_pass := pass_of s u + t_stride (sc_tcb s u)\<rparr>)\<rparr>)"
    by (rule tm_fetch_Some)
  have s': "sc_ready s' = (sc_ready s)(c := pre @ post)" "sc_counts s' = sc_counts s" "u = t"
    using f assms(2) by auto
  have "queued (dec_ready c 1 s') + mset (sc_ready s c) = queued s + mset (pre @ post)"
    using sum_upd [OF assms(1), of "sc_ready s" "pre @ post"] assms(1) by (simp add: queued_def dec_ready_def s')
  then have "queued (dec_ready c 1 s') + {#t#} = queued s"
    using q s'(3) by (simp add: union_commute)
  moreover have "counts_ok s \<Longrightarrow> counts_ok (dec_ready c 1 s')"
    using assms(1) q by (auto simp: counts_ok_def dec_ready_def s')
  ultimately show ?thesis
    by (simp add: moves_def)
qed

lemma moves_enqueue:
  assumes "enqueue_ready raw t s = (b, s')"
  shows "moves s s' {#} (if b then {#t#} else {#})"
proof (cases "t_in_run_queue (sc_tcb s t) \<or> t_status (sc_tcb s t) = Exited")
  case True
  then show ?thesis
    using assms by (auto simp: enqueue_ready_def Let_def intro: moves_cong split: if_splits)
next
  case False
  let ?s = "upd_task t (\<lambda>b. b\<lparr>t_in_run_queue := True, t_status := Ready\<rparr>) s"
  have "moves s ?s {#} {#}"
    by (rule moves_cong) simp_all
  moreover have "b" "s' = inc_ready (task_cpu_id raw) 1 (tm_add (task_cpu_id raw) t ?s)"
    using assms False by (auto simp: enqueue_ready_def Let_def)
  ultimately show ?thesis
    using moves_trans [OF _ moves_add [OF cpu_bound], of s ?s "{#}" "{#}"] by simp
qed

lemma fetch_cases:
  obtains "tm_fetch c s = (None, s)" "sc_ready s c = []"
  | t s1 where "tm_fetch c s = (Some t, s1)" "t \<in> set (sc_ready s c)"
proof (cases "sc_ready s c = []")
  case True
  then show thesis
    using that(1) tm_fetch_None by blast
next
  case False
  then show thesis
    by (rule tm_fetch_Some) (rule that(2), auto)
qed

lemma steal_loop_moves:
  assumes "i < TASK_MAX_CPUS" "cpu < TASK_MAX_CPUS" "steal_loop n i cpu first s = (r, s')"
  shows "moves s s' (opt_mset r) (opt_mset first)"
  using assms(3)
proof (induction n arbitrary: first s)
  case (Suc n)
  show ?case
  proof (rule fetch_cases [of i s])
    assume "tm_fetch i s = (None, s)"
    then show ?thesis
      using Suc.prems by (auto simp: moves_def)
  next
    fix t s1
    assume t: "tm_fetch i s = (Some t, s1)"
    let ?s2 = "dec_ready i 1 s1"
    note m = moves_fetch [OF assms(1) t]
    have again: "moves s (inc_ready c 1 (tm_add c t ?s2)) {#t#} {#t#}" if "c < TASK_MAX_CPUS" for c
      using moves_trans [OF m moves_add [OF that]] by simp
    consider "t_status (sc_tcb ?s2 t) = Ready" "first = None"
      | f where "t_status (sc_tcb ?s2 t) = Ready" "first = Some f"
      | "t_status (sc_tcb ?s2 t) \<noteq> Ready"
      by (cases first) auto
    then show ?thesis
    proof cases
      case 1
      then have "moves ?s2 s' (opt_mset r) {#t#}"
        using Suc.IH [of "Some t" ?s2] Suc.prems t by (simp add: Let_def)
      then show ?thesis
        using moves_trans [OF m] 1 by (fastforce simp: moves_def)
    next
      case (2 f)
      then have "moves (inc_ready cpu 1 (tm_add cpu t ?s2)) s' (opt_mset r) {#f#}"
        using Suc.IH [of "Some f"] Suc.prems t by (simp add: Let_def)
      then show ?thesis
        using moves_trans [OF again [OF assms(2)]] 2 by (fastforce simp: moves_def)
    next
      case 3
      then have "moves (inc_ready i 1 (tm_add i t ?s2)) s' (opt_mset r) (opt_mset first)"
        using Suc.IH [of first] Suc.prems t by (simp add: Let_def)
      then show ?thesis
        using moves_trans [OF again [OF assms(1)]] by (fastforce simp: moves_def)
    qed
  qed
qed (auto simp: moves_def)

lemma steal_one_loop_moves:
  assumes "i < TASK_MAX_CPUS" "steal_one_loop n i s = (r, s')"
  shows "moves s s' (opt_mset r) {#}"
  using assms(2)
proof (induction n arbitrary: s)
  case (Suc n)
  show ?case
  proof (rule fetch_cases [of i s])
    assume "tm_fetch i s = (None, s)"
    then show ?thesis
      using Suc.prems by auto
  next
    fix t s1
    assume t: "tm_fetch i s = (Some t, s1)"
    let ?s2 = "dec_ready i 1 s1"
    note m = moves_fetch [OF assms(1) t]
    show ?thesis
    proof (cases "t_status (sc_tcb ?s2 t) = Ready")
      case True
      then show ?thesis
        using m Suc.prems t by (auto simp: Let_def)
    next
      case False
      then have "moves (inc_ready i 1 (tm_add i t ?s2)) s' (opt_mset r) {#}"
        using Suc.IH Suc.prems t by (simp add: Let_def)
      then show ?thesis
        using moves_trans [OF moves_trans [OF m moves_add [OF assms(1)]]] by (fastforce simp: moves_def)
    qed
  qed
qed auto

lemma pick_victim_bound:
  "pick_victim cpu s is best l = (Some i, l') \<Longrightarrow> best = Some i \<or> i \<in> set is \<and> i \<noteq> cpu"
  by (induction "is" arbitrary: best l) (auto simp: Let_def split: if_splits)

lemma victim_bound:
  assumes "pick_victim cpu s [0..<min n TASK_MAX_CPUS] None 0 = (Some i, l)"
  shows "i < TASK_MAX_CPUS" "i \<noteq> cpu"
  using pick_victim_bound [OF assms] by auto

lemma fetch_next_moves:
  assumes "fetch_next_task unlocked raw s = (r, s')"
  shows "moves s s' (opt_mset r) {#}"
proof (rule fetch_cases [of "task_cpu_id raw" s])
  fix t s1
  assume "tm_fetch (task_cpu_id raw) s = (Some t, s1)"
  then show ?thesis
    using assms moves_fetch [OF cpu_bound] by (auto simp: fetch_next_task_def Let_def)
next
  assume none: "tm_fetch (task_cpu_id raw) s = (None, s)"
  obtain v l where v: "pick_victim (task_cpu_id raw) s [0..<min (sc_cpu_count s) TASK_MAX_CPUS] None 0 = (v, l)"
    by force
  show ?thesis
  proof (cases v)
    case None
    then show ?thesis
      using assms none v by (auto simp: fetch_next_task_def)
  next
    case (Some i)
    then have "i < TASK_MAX_CPUS"
      using victim_bound v by blast
    then show ?thesis
      using assms none v Some steal_loop_moves [OF _ cpu_bound, of i _ raw None s r s']
      by (auto simp: fetch_next_task_def split: if_splits)
  qed
qed

lemma fetch_try_moves:
  assumes "fetch_next_task_try unlocked raw s = (r, s')"
  shows "moves s s' (opt_mset r) {#}"
proof (cases "unlocked (task_cpu_id raw)")
  case True
  show ?thesis
  proof (rule fetch_cases [of "task_cpu_id raw" s])
    fix t s1
    assume "tm_fetch (task_cpu_id raw) s = (Some t, s1)"
    then show ?thesis
      using assms True moves_fetch [OF cpu_bound] by (auto simp: fetch_next_task_try_def Let_def)
  next
    assume none: "tm_fetch (task_cpu_id raw) s = (None, s)"
    obtain v l where v: "pick_victim (task_cpu_id raw) s [0..<min (sc_cpu_count s) TASK_MAX_CPUS] None 0 = (v, l)"
      by force
    show ?thesis
    proof (cases v)
      case None
      then show ?thesis
        using assms True none v by (auto simp: fetch_next_task_try_def)
    next
      case (Some i)
      then have "i < TASK_MAX_CPUS"
        using victim_bound v by blast
      then show ?thesis
        using assms True none v Some steal_one_loop_moves [of i _ s r s']
        by (auto simp: fetch_next_task_try_def split: if_splits)
    qed
  qed
next
  case False
  then show ?thesis
    using assms by (simp add: fetch_next_task_try_def)
qed

section \<open>Steps of the system\<close>

lemma counts_ok_simps [simp]:
  "counts_ok (s\<lparr>sc_tcb := x\<rparr>) = counts_ok s" "counts_ok (s\<lparr>sc_current := y\<rparr>) = counts_ok s"
  "counts_ok (s\<lparr>sc_need_resched := z\<rparr>) = counts_ok s" "counts_ok (s\<lparr>sc_files := f\<rparr>) = counts_ok s"
  "counts_ok (s\<lparr>sc_all := a\<rparr>) = counts_ok s" "counts_ok (s\<lparr>sc_next_pid := p\<rparr>) = counts_ok s"
  "counts_ok (s\<lparr>sc_ipi_requests := n\<rparr>) = counts_ok s"
  by (simp_all add: counts_ok_def)

lemma counts_moves: "moves s s' g c \<Longrightarrow> counts_ok s \<Longrightarrow> counts_ok s'"
  by (simp add: moves_def)

lemma counts_resched [simp]:
  "counts_ok (set_need_resched c s) = counts_ok s" "counts_ok (notify_resched s) = counts_ok s"
  "counts_ok (snd (take_need_resched c s)) = counts_ok s" "counts_ok (set_current_task raw t s) = counts_ok s"
  "counts_ok (clear_current_task raw s) = counts_ok s"
  by (simp_all add: set_need_resched_def notify_resched_def take_need_resched_def set_current_task_def
      clear_current_task_def Let_def)

lemma counts_enqueue: "counts_ok s \<Longrightarrow> counts_ok (snd (enqueue_ready raw t s))"
  by (metis counts_moves moves_enqueue prod.collapse)

lemma counts_add_task_arc: "counts_ok s \<Longrightarrow> counts_ok (add_task_arc raw t s)"
  using counts_enqueue [of s raw t] by (auto simp: add_task_arc_def Let_def split: prod.splits)

lemma counts_wake_all: "counts_ok s \<Longrightarrow> counts_ok (snd (wake_all raw q s))"
  unfolding wake_all_def by (induction q arbitrary: s) (auto simp: counts_add_task_arc)

lemma counts_wake_one: "counts_ok s \<Longrightarrow> counts_ok (snd (wake_one raw q s))"
  by (simp add: wake_one_def counts_add_task_arc)

lemma counts_add_task: "counts_ok s \<Longrightarrow> counts_ok (add_task raw t s)"
proof -
  assume "counts_ok s"
  then have "counts_ok (inc_ready (task_cpu_id raw) 1 (tm_add (task_cpu_id raw) t
      (if \<exists>u\<in>set (sc_all s). t_pid (sc_tcb s u) = t_pid (sc_tcb s t) then s else s\<lparr>sc_all := sc_all s @ [t]\<rparr>)))"
    by (intro counts_moves [OF moves_add]) simp_all
  then show ?thesis
    by (simp add: add_task_def Let_def)
qed

lemma counts_suspend: "counts_ok s \<Longrightarrow> counts_ok (suspend_current_and_run_next raw s)"
  by (simp add: suspend_current_and_run_next_def counts_enqueue split: option.split)

lemma counts_run_next:
  assumes "counts_ok s"
  shows "counts_ok (run_next unlocked raw s)"
proof -
  obtain r s' where r: "fetch_next_task unlocked raw s = (r, s')"
    by force
  then show ?thesis
    using counts_moves [OF fetch_next_moves [OF r] assms] by (simp add: run_next_def split: option.split)
qed

lemma counts_exit: "exit_current_and_run_next raw code s = Some s' \<Longrightarrow> counts_ok s \<Longrightarrow> counts_ok s'"
  by (auto simp: exit_current_and_run_next_def Let_def split: option.splits prod.splits if_splits)

lemma counts_purge: "counts_ok (purge pid s)"
  by (simp add: purge_def counts_ok_def Let_def)

lemma counts_kill: "kill_task hook raw pid code s = Some (b, s') \<Longrightarrow> counts_ok s \<Longrightarrow> counts_ok s'"
  by (auto simp: kill_task_def Let_def counts_purge dest: counts_exit split: option.splits if_splits)

lemma counts_preempt:
  assumes "counts_ok s"
  shows "counts_ok (snd (preempt_from_interrupt pu unlocked raw user s))"
proof -
  obtain b s1 where t: "take_need_resched (task_cpu_id raw) s = (b, s1)"
    by force
  obtain r s2 where f: "fetch_next_task_try unlocked raw s1 = (r, s2)"
    by force
  have "counts_ok s1"
    using assms counts_resched(3) [of "task_cpu_id raw" s] t by simp
  moreover from this have "counts_ok s2"
    using counts_moves [OF fetch_try_moves [OF f]] by simp
  ultimately show ?thesis
    using assms t f by (auto simp: preempt_from_interrupt_def Let_def counts_enqueue split: option.split)
qed

lemma counts_timer:
  "counts_ok s \<Longrightarrow> counts_ok (snd (handle_timer pe pc ip pu unlocked raw user s))"
  "counts_ok s \<Longrightarrow> counts_ok (snd (handle_resched_ipi pe pc ip pu unlocked raw user s))"
  by (simp_all add: handle_timer_def handle_resched_ipi_def Let_def counts_preempt)

lemma counts_syscall: "counts_ok s \<Longrightarrow> counts_ok (check_preempt_from_syscall pe pc raw user s)"
  by (auto simp: check_preempt_from_syscall_def take_need_resched_def Let_def counts_suspend split: prod.split)

lemma counts_wait: "counts_ok s \<Longrightarrow> counts_ok (snd (snd (wait_while cond raw q s)))"
  by (simp add: wait_while_def Let_def block_current_and_schedule_def split: option.split)

lemma counts_waitpid: "counts_ok s \<Longrightarrow> counts_ok (snd (waitpid_round t pid s))"
  by (auto simp: waitpid_round_def Let_def split: prod.split option.split)

lemmas counts_steps = counts_run_next counts_suspend counts_exit counts_kill counts_add_task counts_add_task_arc
  counts_timer counts_syscall counts_wait counts_wake_one counts_wake_all counts_waitpid

text \<open>What the CPUs do, in any order. A new task is stored before it is added; the kill hook is the one
  that the keyboard driver registers, which wakes a wait queue.\<close>

inductive sched_step :: "Sched \<Rightarrow> Sched \<Rightarrow> bool" where
  Run: "sched_step s (run_next unlocked raw s)"
| Suspend: "sched_step s (suspend_current_and_run_next raw s)"
| ExitCurrent: "exit_current_and_run_next raw code s = Some s' \<Longrightarrow> sched_step s s'"
| Kill: "kill_task (\<lambda>s. snd (wake_all raw q s)) raw pid code s = Some (b, s') \<Longrightarrow> sched_step s s'"
| AddTask: "sched_step s (add_task raw t (s\<lparr>sc_tcb := (sc_tcb s)(t := b)\<rparr>))"
| AddForked: "sched_step s (add_task_arc raw t (s\<lparr>sc_tcb := (sc_tcb s)(t := b)\<rparr>))"
| Timer: "handle_timer pe pc ip pu unlocked raw user s = (r, s') \<Longrightarrow> sched_step s s'"
| ReschedIpi: "handle_resched_ipi pe pc ip pu unlocked raw user s = (r, s') \<Longrightarrow> sched_step s s'"
| Syscall: "sched_step s (check_preempt_from_syscall pe pc raw user s)"
| Wait: "wait_while cond raw q s = (b, q', s') \<Longrightarrow> sched_step s s'"
| WakeOne: "wake_one raw q s = (q', s') \<Longrightarrow> sched_step s s'"
| WakeAll: "wake_all raw q s = (q', s') \<Longrightarrow> sched_step s s'"
| Waitpid: "waitpid_round t pid s = (w, s') \<Longrightarrow> sched_step s s'"
| AllocatePid: "allocate_pid s = (pid, s') \<Longrightarrow> sched_step s s'"

lemma counts_step: "sched_step s s' \<Longrightarrow> counts_ok s \<Longrightarrow> counts_ok s'"
proof (induction rule: sched_step.induct)
  case (Timer pe pc ip pu unlocked raw user s r s')
  then show ?case
    using counts_timer(1) [of s pe pc ip pu unlocked raw user] by simp
next
  case (ReschedIpi pe pc ip pu unlocked raw user s r s')
  then show ?case
    using counts_timer(2) [of s pe pc ip pu unlocked raw user] by simp
next
  case (Wait cond raw q s b q' s')
  then show ?case
    using counts_wait [of s cond raw q] by simp
next
  case (WakeOne raw q s q' s')
  then show ?case
    using counts_wake_one [of s raw q] by simp
next
  case (WakeAll raw q s q' s')
  then show ?case
    using counts_wake_all [of s raw q] by simp
next
  case (Waitpid t pid s w s')
  then show ?case
    using counts_waitpid [of s t pid] by simp
next
  case (AllocatePid s pid s')
  then show ?case
    by (auto simp: allocate_pid_def)
qed (auto intro: counts_steps)

section \<open>Stolen and killed tasks\<close>

text \<open>Every task on the thief's queue lost its mark when it was taken from the victim.\<close>

lemma tm_fetch_marks:
  assumes "tm_fetch c s = (Some t, s')"
  shows "\<not> t_in_run_queue (sc_tcb s' t)"
    "\<And>u. \<not> t_in_run_queue (sc_tcb s u) \<Longrightarrow> \<not> t_in_run_queue (sc_tcb s' u)"
    "\<And>u. t_status (sc_tcb s' u) = t_status (sc_tcb s u)" "\<And>d. d \<noteq> c \<Longrightarrow> sc_ready s' d = sc_ready s d"
  using assms by (auto simp: tm_fetch_def Let_def split: if_splits)

lemma count_simps [simp]:
  "sc_tcb (inc_ready c n s) = sc_tcb s" "sc_tcb (dec_ready c n s) = sc_tcb s" "sc_tcb (tm_add c t s) = sc_tcb s"
  "sc_ready (inc_ready c n s) = sc_ready s" "sc_ready (dec_ready c n s) = sc_ready s"
  by (simp_all add: inc_ready_def dec_ready_def tm_add_def)

definition unmarked :: "nat \<Rightarrow> Sched \<Rightarrow> bool" where
  "unmarked c s \<longleftrightarrow> (\<forall>t\<in>set (sc_ready s c). \<not> t_in_run_queue (sc_tcb s t) \<and> t_status (sc_tcb s t) = Ready)"

lemma steal_loop_unmarked:
  assumes "i \<noteq> cpu" "steal_loop n i cpu first s = (r, s')" "unmarked cpu s"
  shows "unmarked cpu s'"
  using assms(2,3)
proof (induction n arbitrary: first s)
  case (Suc n)
  show ?case
  proof (rule fetch_cases [of i s])
    assume "tm_fetch i s = (None, s)"
    then show ?thesis
      using Suc.prems by simp
  next
    fix t s1
    assume t: "tm_fetch i s = (Some t, s1)"
    note f = tm_fetch_marks [OF t]
    have s1: "unmarked cpu s1"
      using Suc.prems(2) f(2-4) assms(1) by (auto simp: unmarked_def)
    show ?thesis
    proof (cases "t_status (sc_tcb s1 t) = Ready")
      case True
      have "unmarked cpu (dec_ready i 1 s1)" "unmarked cpu (inc_ready cpu 1 (tm_add cpu t (dec_ready i 1 s1)))"
        using s1 f(1) True by (auto simp: unmarked_def tm_add_def)
      then show ?thesis
        using Suc.IH Suc.prems(1) t True by (auto simp: Let_def split: option.splits)
    next
      case False
      have "unmarked cpu (inc_ready i 1 (tm_add i t (dec_ready i 1 s1)))"
        using s1 assms(1) by (auto simp: unmarked_def tm_add_def)
      then show ?thesis
        using Suc.IH Suc.prems(1) t False by (auto simp: Let_def)
    qed
  qed
qed simp

lemma fetch_next_unmarked:
  assumes "sc_ready s (task_cpu_id raw) = []" "fetch_next_task unlocked raw s = (r, s')"
  shows "unmarked (task_cpu_id raw) s'"
proof -
  have none: "tm_fetch (task_cpu_id raw) s = (None, s)" and start: "unmarked (task_cpu_id raw) s"
    using assms(1) by (simp_all add: tm_fetch_None unmarked_def)
  obtain v l where v: "pick_victim (task_cpu_id raw) s [0..<min (sc_cpu_count s) TASK_MAX_CPUS] None 0 = (v, l)"
    by force
  show ?thesis
  proof (cases v)
    case None
    then show ?thesis
      using assms(2) none v start by (auto simp: fetch_next_task_def)
  next
    case (Some i)
    then have "i \<noteq> task_cpu_id raw"
      using victim_bound v by blast
    then show ?thesis
      using assms(2) none v Some start steal_loop_unmarked [of i "task_cpu_id raw" _ None s r s']
      by (auto simp: fetch_next_task_def split: if_splits)
  qed
qed

lemma enqueue_exited:
  assumes "t_status (sc_tcb s t) = Exited"
  shows "t_status (sc_tcb (snd (enqueue_ready raw u s)) t) = Exited"
    "t_pid (sc_tcb (snd (enqueue_ready raw u s)) v) = t_pid (sc_tcb s v)"
  using assms by (auto simp: enqueue_ready_def Let_def tm_add_def inc_ready_def)

lemma add_arc_exited:
  assumes "t_status (sc_tcb s t) = Exited"
  shows "t_status (sc_tcb (add_task_arc raw u s) t) = Exited" "t_pid (sc_tcb (add_task_arc raw u s) v) = t_pid (sc_tcb s v)"
  using enqueue_exited [OF assms, of raw u]
  by (auto simp: add_task_arc_def notify_resched_def Let_def split: prod.split)

lemma wake_all_exited:
  "t_status (sc_tcb s t) = Exited \<Longrightarrow> t_status (sc_tcb (snd (wake_all raw q s)) t) = Exited
    \<and> t_pid (sc_tcb (snd (wake_all raw q s)) t) = t_pid (sc_tcb s t)"
  unfolding wake_all_def by (induction q arbitrary: s) (auto simp: add_arc_exited)

section \<open>Properties of the scheduler\<close>

text \<open>\<open>fetch\<close> takes from a non-empty queue the first task with the smallest pass, leaves the others
  in their order, and advances its pass by its stride, wrapping around.\<close>

theorem fetch_takes_minimum:
  assumes "sc_ready s c \<noteq> []"
  shows "\<exists>pre t post s'. sc_ready s c = pre @ t # post \<and> tm_fetch c s = (Some t, s')
    \<and> (\<forall>u \<in> set pre. t_pass (sc_tcb s t) < t_pass (sc_tcb s u)) \<and> (\<forall>u \<in> set post. t_pass (sc_tcb s t) \<le> t_pass (sc_tcb s u))
    \<and> sc_ready s' = (sc_ready s)(c := pre @ post) \<and> t_pass (sc_tcb s' t) = t_pass (sc_tcb s t) + t_stride (sc_tcb s t)
    \<and> \<not> t_in_run_queue (sc_tcb s' t)"
proof -
  obtain pre t post where *: "sc_ready s c = pre @ t # post"
    "\<And>u. u \<in> set pre \<Longrightarrow> pass_of s t < pass_of s u" "\<And>u. u \<in> set post \<Longrightarrow> pass_of s t \<le> pass_of s u"
    "tm_fetch c s = (Some t, s\<lparr>sc_ready := (sc_ready s)(c := pre @ post),
       sc_tcb := (sc_tcb s)(t := (sc_tcb s t)\<lparr>t_in_run_queue := False, t_pass := pass_of s t + t_stride (sc_tcb s t)\<rparr>)\<rparr>)"
    by (rule tm_fetch_Some [OF assms]) (rule that)
  let ?after = "snd (tm_fetch c s)"
  have "tm_fetch c s = (Some t, ?after)" "sc_ready ?after = (sc_ready s)(c := pre @ post)"
    "t_pass (sc_tcb ?after t) = t_pass (sc_tcb s t) + t_stride (sc_tcb s t)" "\<not> t_in_run_queue (sc_tcb ?after t)"
    by (simp_all add: *(4))
  then show ?thesis
    using *(1-3) by blast
qed

text \<open>C16: choosing the next task, with work stealing or without, neither loses nor duplicates a task:
  the tasks on the queues of all CPUs afterwards, together with the one that is returned, are the
  tasks that were on the queues before.\<close>

theorem fetch_next_conserves:
  "(case fetch_next_task unlocked raw s of (r, s') \<Rightarrow> queued s = queued s' + opt_mset r)
   \<and> (case fetch_next_task_try unlocked raw s of (r, s') \<Rightarrow> queued s = queued s' + opt_mset r)"
  using fetch_next_moves [of unlocked raw s] fetch_try_moves [of unlocked raw s]
  by (auto simp: moves_def split: prod.split)




text \<open>C20: when an idle CPU steals a batch of tasks, those it puts on its own queue are not marked as
  queued, so \<open>enqueue_ready\<close> accepts such a task once more and it is on the queue twice.\<close>

theorem stolen_tasks_unmarked:
  assumes "sc_ready s (task_cpu_id raw) = []" "fetch_next_task unlocked raw s = (r, s')"
    "t \<in> set (sc_ready s' (task_cpu_id raw))"
  shows "\<exists>s''. enqueue_ready raw t s' = (True, s'') \<and> count (queued s'') t = count (queued s') t + 1"
proof -
  have t: "\<not> t_in_run_queue (sc_tcb s' t)" "t_status (sc_tcb s' t) = Ready"
    using fetch_next_unmarked [OF assms(1,2)] assms(3) by (auto simp: unmarked_def)
  obtain b s'' where e: "enqueue_ready raw t s' = (b, s'')"
    by force
  then have "b"
    using t by (auto simp: enqueue_ready_def Let_def)
  then show ?thesis
    using moves_enqueue [OF e] e by (simp add: moves_def)
qed

subsection \<open>Instances\<close>

definition sample_task :: "nat \<Rightarrow> TaskStatus \<Rightarrow> usize \<Rightarrow> TaskControlBlock" where
  "sample_task pid st pass = \<lparr>t_pid = of_nat pid, t_status = st, t_in_run_queue = (st = Ready), t_exit_code = 0, t_parent = None,
     t_children = [], t_stride = 6250, t_pass = pass, t_fds = fd_table_new\<rparr>"

text \<open>CPU 1 has four tasks, CPU 0 none; task 5 runs on CPU 0 and its parent 6 waits for it.\<close>

definition sample_sched :: Sched where
  "sample_sched = \<lparr>sc_tcb = (\<lambda>t. if t = 5 then (sample_task 5 Running 0)\<lparr>t_parent := Some 6\<rparr>
       else if t = 6 then sample_task 6 Waiting 0 else sample_task t Ready (if t = 3 then 7 else 9)),
     sc_ready = (\<lambda>c. if c = 1 then [1, 2, 3, 4] else []), sc_counts = (\<lambda>c. if c = 1 then 4 else 0),
     sc_current = (\<lambda>c. if c = 0 then Some 5 else None), sc_all = [1, 2, 3, 4, 5, 6], sc_next_pid = 7,
     sc_need_resched = (\<lambda>_. False), sc_cpu_count = 2, sc_ipi_requests = 0,
     sc_files = (\<lambda>_. file_handle_new 0 0), sc_live = (\<lambda>_. True)\<rparr>"

theorem fetch_takes_minimum_witness: "fst (tm_fetch 1 sample_sched) = Some 3"
proof -
  have "sc_ready sample_sched 1 \<noteq> []"
    by (simp add: sample_sched_def)
  from fetch_takes_minimum [OF this] show ?thesis
    by (auto simp: sample_sched_def sample_task_def Cons_eq_append_conv split: if_splits)
qed




theorem stolen_tasks_unmarked_witness:
  "\<exists>r s' t s''. fetch_next_task (\<lambda>_. True) 0 sample_sched = (r, s') \<and> enqueue_ready 0 t s' = (True, s'')
     \<and> count (queued s'') t = count (queued s') t + 1"
proof -
  obtain r s' where f: "fetch_next_task (\<lambda>_. True) 0 sample_sched = (r, s')"
    by force
  have two: "steal_loop 2 1 0 None sample_sched = (r', s1) \<Longrightarrow> 1 \<in> set (sc_ready s1 0)" for r' s1
    by (subst (asm) numeral_2_eq_2) (auto simp: tm_fetch_def tm_add_def inc_ready_def dec_ready_def Let_def TASK_MAX_CPUS_def
        sample_sched_def sample_task_def)
  have "pick_victim 0 sample_sched [0..<2] None 0 = (Some 1, 4)"
    by (simp add: upt_rec get_ready_def TASK_MAX_CPUS_def sample_sched_def)
  moreover have "tm_fetch 0 sample_sched = (None, sample_sched)" "steal_count 4 = 2" "sc_cpu_count sample_sched = 2"
    by (simp_all add: tm_fetch_def steal_count_def sample_sched_def)
  ultimately have "1 \<in> set (sc_ready s' (task_cpu_id 0))"
    using f two by (simp add: fetch_next_task_def task_cpu_id_def TASK_MAX_CPUS_def)
  moreover have "sc_ready sample_sched (task_cpu_id 0) = []"
    by (simp add: task_cpu_id_def TASK_MAX_CPUS_def sample_sched_def)
  ultimately show ?thesis
    using stolen_tasks_unmarked [OF _ f] f by blast
qed

end
