(* ===== verification/Path.thy ===== *)
theory Path
  imports Prelude
begin

text \<open>
  Paths (\<open>kernel_fs/src/vfs/path.rs\<close>). A path is the list of its bytes; the code only looks for
  the bytes of \<open>/\<close> and \<open>.\<close>, which no multi-byte character contains.
\<close>

section \<open>Slices of the standard library\<close>

abbreviation slash :: char where
  "slash \<equiv> CHR ''/''"

text \<open>\<open>str::split('/')\<close>: the parts between the separators, an empty one for the empty string.\<close>

fun split_slash :: "string \<Rightarrow> string list" where
  "split_slash [] = [[]]"
| "split_slash (c # cs) =
    (if c = slash then [] # split_slash cs
     else case split_slash cs of [] \<Rightarrow> [[c]] | p # ps \<Rightarrow> (c # p) # ps)"

text \<open>\<open>join("/")\<close>.\<close>

fun join_slash :: "string list \<Rightarrow> string" where
  "join_slash [] = []"
| "join_slash [p] = p"
| "join_slash (p # q # ps) = p @ slash # join_slash (q # ps)"

definition trim_slashes :: "string \<Rightarrow> string" where
  "trim_slashes p = dropWhile (\<lambda>c. c = slash) p"

definition starts_with_slash :: "string \<Rightarrow> bool" where
  "starts_with_slash p = (p \<noteq> [] \<and> hd p = slash)"

definition ends_with_slash :: "string \<Rightarrow> bool" where
  "ends_with_slash p = (p \<noteq> [] \<and> last p = slash)"

section \<open>Normal forms\<close>

definition normalize_step :: "string list \<Rightarrow> string \<Rightarrow> string list" where
  "normalize_step parts part =
    (if part = [] \<or> part = ''.'' then parts
     else if part = ''..'' then (if parts \<noteq> [] then butlast parts else parts)
     else parts @ [part])"

definition normalize_parts :: "string \<Rightarrow> string list" where
  "normalize_parts path = foldl normalize_step [] (split_slash path)"

definition normalize_path :: "string \<Rightarrow> string" where
  "normalize_path path =
    (if path = [] then ''/''
     else
       let is_abs = (hd path = slash);
           parts = normalize_parts path;
           out = (if is_abs then ''/'' else []) @ join_slash parts
       in if out = [] then ''/'' else out)"

definition join_base :: "string \<Rightarrow> string" where
  "join_base base = (if \<not> ends_with_slash base then base @ ''/'' else base)"

definition path_join :: "string \<Rightarrow> string \<Rightarrow> string" where
  "path_join base rel =
    (if starts_with_slash rel then normalize_path rel else normalize_path (join_base base @ rel))"

section \<open>Splitting and joining\<close>

lemma split_slash_neq_Nil [simp]: "split_slash p \<noteq> []"
  by (cases p) (auto split: list.split)

lemma split_slash_no_slash: "x \<in> set (split_slash p) \<Longrightarrow> slash \<notin> set x"
  by (induction p arbitrary: x) (auto split: list.splits if_splits)

lemma split_slash_single: "slash \<notin> set p \<Longrightarrow> split_slash p = [p]"
  by (induction p) auto

lemma split_slash_append: "slash \<notin> set p \<Longrightarrow> split_slash (p @ slash # q) = p # split_slash q"
  by (induction p) auto

lemma split_join:
  "ps \<noteq> [] \<Longrightarrow> \<forall>p \<in> set ps. slash \<notin> set p \<Longrightarrow> split_slash (join_slash ps) = ps"
  by (induction ps rule: join_slash.induct) (simp_all add: split_slash_single split_slash_append)

lemma join_split [simp]: "join_slash (split_slash p) = p"
proof (induction p)
  case (Cons c p)
  then show ?case
    by (cases "split_slash p"; cases "tl (split_slash p)") auto
qed simp

lemma join_slash_eq_Nil: "\<forall>p \<in> set ps. p \<noteq> [] \<Longrightarrow> join_slash ps = [] \<longleftrightarrow> ps = []"
  by (cases ps rule: join_slash.cases) auto

lemma hd_join_slash: "ps \<noteq> [] \<Longrightarrow> hd ps \<noteq> [] \<Longrightarrow> hd (join_slash ps) = hd (hd ps)"
  by (cases ps rule: join_slash.cases) auto

lemma split_slash_snoc: "split_slash (p @ slash # q) = split_slash p @ split_slash q"
proof (induction p)
  case (Cons c p)
  then show ?case
    by (cases "split_slash p") auto
qed simp

section \<open>Names\<close>

text \<open>The parts that a normal form keeps.\<close>

definition is_name :: "string \<Rightarrow> bool" where
  "is_name p = (p \<noteq> [] \<and> p \<noteq> ''.'' \<and> p \<noteq> ''..'' \<and> slash \<notin> set p)"

lemma normalize_step_names:
  assumes "\<forall>p \<in> set ps. is_name p" "slash \<notin> set x"
  shows "\<forall>p \<in> set (normalize_step ps x). is_name p"
  using assms by (auto simp: normalize_step_def is_name_def dest: in_set_butlastD)

lemma foldl_names:
  assumes "\<forall>p \<in> set ps. is_name p" "\<forall>x \<in> set xs. slash \<notin> set x"
  shows "\<forall>p \<in> set (foldl normalize_step ps xs). is_name p"
  using assms
proof (induction xs arbitrary: ps)
  case (Cons x xs)
  then show ?case
    using Cons.IH [OF normalize_step_names [OF Cons.prems(1), of x]] by simp
qed simp

lemma normalize_parts_names: "p \<in> set (normalize_parts path) \<Longrightarrow> is_name p"
  using foldl_names [of "[]" "split_slash path"] split_slash_no_slash by (auto simp: normalize_parts_def)

lemma foldl_names_id: "\<forall>x \<in> set xs. is_name x \<Longrightarrow> foldl normalize_step ps xs = ps @ xs"
  by (induction xs arbitrary: ps) (auto simp: normalize_step_def is_name_def)

lemma normalize_parts_slash: "normalize_parts (slash # p) = normalize_parts p"
  by (simp add: normalize_parts_def normalize_step_def)

lemma normalize_parts_join:
  assumes "\<forall>p \<in> set ps. is_name p"
  shows "normalize_parts (join_slash ps) = ps"
proof (cases "ps = []")
  case False
  then have "split_slash (join_slash ps) = ps"
    using assms by (intro split_join) (auto simp: is_name_def)
  then show ?thesis
    using assms by (simp add: normalize_parts_def foldl_names_id)
qed (simp add: normalize_parts_def normalize_step_def)

lemma join_names_Nil: "\<forall>p \<in> set ps. is_name p \<Longrightarrow> join_slash ps = [] \<longleftrightarrow> ps = []"
  by (rule join_slash_eq_Nil) (simp add: is_name_def)

lemma hd_join_names:
  assumes "\<forall>p \<in> set ps. is_name p" "ps \<noteq> []"
  shows "hd (join_slash ps) \<noteq> slash"
proof -
  have "is_name (hd ps)"
    using assms by simp
  then have "hd (hd ps) \<noteq> slash"
    unfolding is_name_def by (metis hd_in_set)
  then show ?thesis
    using hd_join_slash [of ps] assms \<open>is_name (hd ps)\<close> by (simp add: is_name_def)
qed

text \<open>The two shapes of a normal form.\<close>

lemma normalize_path_abs: "starts_with_slash path \<Longrightarrow> normalize_path path = slash # join_slash (normalize_parts path)"
  by (auto simp: normalize_path_def starts_with_slash_def Let_def)

lemma normalize_path_rel:
  "\<not> starts_with_slash path \<Longrightarrow>
    normalize_path path = (if normalize_parts path = [] then ''/'' else join_slash (normalize_parts path))"
  using normalize_parts_names [of _ path] join_names_Nil [of "normalize_parts path"]
  by (auto simp: normalize_path_def starts_with_slash_def Let_def normalize_parts_def normalize_step_def)

lemma normalize_path_parts: "normalize_parts (normalize_path path) = normalize_parts path"
proof (cases "starts_with_slash path")
  case True
  then show ?thesis
    using normalize_parts_names [of _ path] by (simp add: normalize_path_abs normalize_parts_slash normalize_parts_join)
next
  case False
  then show ?thesis
    using normalize_parts_names [of _ path]
    by (simp add: normalize_path_rel normalize_parts_join) (simp add: normalize_parts_def normalize_step_def)
qed

lemma starts_with_normalize:
  "starts_with_slash (normalize_path path) \<longleftrightarrow> starts_with_slash path \<or> normalize_parts path = []"
proof (cases "starts_with_slash path")
  case False
  then show ?thesis
    using hd_join_names [of "normalize_parts path"] normalize_parts_names [of _ path]
    by (auto simp: normalize_path_rel) (auto simp: starts_with_slash_def)
qed (simp add: normalize_path_abs starts_with_slash_def)

lemma normalize_path_cong:
  "starts_with_slash p = starts_with_slash q \<Longrightarrow> normalize_parts p = normalize_parts q \<Longrightarrow> normalize_path p = normalize_path q"
  by (cases "starts_with_slash q") (simp_all add: normalize_path_abs normalize_path_rel)

lemma normalize_normalize: "normalize_path (normalize_path path) = normalize_path path"
proof (cases "starts_with_slash path \<longleftrightarrow> starts_with_slash (normalize_path path)")
  case True
  then show ?thesis
    by (intro normalize_path_cong normalize_path_parts) simp
next
  case False
  then have "normalize_parts path = []" "\<not> starts_with_slash path"
    using starts_with_normalize by auto
  then have "normalize_path path = ''/''"
    by (simp add: normalize_path_rel)
  then show ?thesis
    by (simp add: normalize_path_def Let_def normalize_parts_def normalize_step_def)
qed

lemma trim_normalize:
  "trim_slashes (normalize_path path) = join_slash (normalize_parts path)"
proof -
  have nms: "\<forall>p \<in> set (normalize_parts path). is_name p"
    using normalize_parts_names by blast
  have d: "dropWhile (\<lambda>c. c = slash) (join_slash (normalize_parts path)) = join_slash (normalize_parts path)"
  proof (cases "normalize_parts path = []")
    case False
    then have "hd (join_slash (normalize_parts path)) \<noteq> slash"
      using hd_join_names [OF nms] by blast
    then show ?thesis
      by (cases "join_slash (normalize_parts path)") auto
  qed simp
  show ?thesis
    by (cases "starts_with_slash path") (auto simp: trim_slashes_def normalize_path_abs normalize_path_rel d)
qed

text \<open>What the loops over the parts of a normal form see.\<close>

lemma split_trim_normalize:
  "split_slash (trim_slashes (normalize_path path)) = (if normalize_parts path = [] then [[]] else normalize_parts path)"
proof (cases "normalize_parts path = []")
  case False
  then have "split_slash (join_slash (normalize_parts path)) = normalize_parts path"
    using normalize_parts_names [of _ path] by (intro split_join) (auto simp: is_name_def)
  then show ?thesis
    using False by (simp add: trim_normalize)
qed (simp add: trim_normalize)

lemma normalize_eq_root: "normalize_path path = ''/'' \<longleftrightarrow> normalize_parts path = []"
proof
  assume "normalize_path path = ''/''"
  then have "normalize_parts path = normalize_parts ''/''"
    using normalize_path_parts [of path] by simp
  then show "normalize_parts path = []"
    by (simp add: normalize_parts_def normalize_step_def)
next
  assume "normalize_parts path = []"
  then show "normalize_path path = ''/''"
    by (cases "starts_with_slash path") (simp_all add: normalize_path_abs normalize_path_rel)
qed

section \<open>Joining\<close>

lemma normalize_parts_snoc: "normalize_parts (p @ slash # q) = foldl normalize_step (normalize_parts p) (split_slash q)"
  by (simp add: normalize_parts_def split_slash_snoc)

lemma join_base_parts: "normalize_parts (join_base base @ rel) = foldl normalize_step (normalize_parts base) (split_slash rel)"
proof (cases "ends_with_slash base")
  case True
  then obtain c where c: "base = c @ slash # []"
    unfolding ends_with_slash_def by (metis append_butlast_last_id)
  have "normalize_parts base = normalize_parts c"
    using normalize_parts_snoc [of c "[]"] by (simp add: c normalize_step_def)
  then show ?thesis
    using True normalize_parts_snoc [of c rel] by (simp add: join_base_def c)
qed (simp add: join_base_def normalize_parts_snoc)

lemma path_join_rel: "\<not> starts_with_slash rel \<Longrightarrow> path_join base rel = normalize_path (join_base base @ rel)"
  by (simp add: path_join_def)

lemma starts_with_join: "starts_with_slash base \<Longrightarrow> starts_with_slash (join_base base @ rel)"
  by (auto simp: join_base_def starts_with_slash_def)

text \<open>Joining only depends on the normal form of an absolute base.\<close>

lemma path_join_normalize:
  assumes "starts_with_slash base"
  shows "path_join (normalize_path base) rel = path_join base rel"
proof (cases "starts_with_slash rel")
  case False
  have "starts_with_slash (normalize_path base)"
    using assms by (simp add: starts_with_normalize)
  then show ?thesis
    using False assms by (simp add: path_join_rel, intro normalize_path_cong)
      (simp_all add: starts_with_join join_base_parts normalize_path_parts)
qed (simp add: path_join_def)


end
