(* ===== verification/Vfs.thy ===== *)
theory Vfs
  imports Path
begin

text \<open>
  The virtual file system (\<open>kernel_fs/src/vfs/mod.rs\<close> and \<open>node.rs\<close>). The nodes are a store indexed
  by references, so that a node is shared by everything that holds its reference; a file system is
  a record of its operations, over any state that extends the store of nodes. A value \<open>None\<close> is a
  call that does not return: a panic, an access to freed memory, or a recursion without an end.
\<close>

section \<open>Nodes\<close>

type_synonym nref = nat

datatype VfsError = Invalid | NotFound | NotDir | Exists | NoDev | Busy | NotEmpty | NotSupported | Io

datatype VfsNodeType = NodeNone | Dir | Block | Stream | Symlink | Pipe | Socket

type_synonym 'a VfsResult = "('a, VfsError) result"

record VfsNodeMeta =
  vn_name :: string
  vn_type :: VfsNodeType
  vn_fsid :: u16
  vn_size :: u64
  vn_mode :: u16
  vn_flags :: u64
  vn_dev :: u64
  vn_rdev :: u64
  vn_parent :: "nref option"
  vn_children :: "nref list"
  vn_linkto :: "nref option"
  vn_linkto_path :: "string option"
  vn_handle :: "nat option"
  vn_is_mount :: bool

text \<open>The store of nodes: the references below \<open>vs_next\<close> are allocated. A weak reference can be
  upgraded while the node has an owner; \<open>vs_live\<close> says for which nodes this is so.\<close>

record VfsState =
  vs_nodes :: "nref \<Rightarrow> VfsNodeMeta"
  vs_next :: nref
  vs_root :: "nref option"
  vs_live :: "nref \<Rightarrow> bool"

definition VFS_NODE_PRIVATE_FD :: u64 where
  "VFS_NODE_PRIVATE_FD = push_bit 63 1"

definition new_root :: VfsNodeMeta where
  "new_root = \<lparr>vn_name = ''/'', vn_type = Dir, vn_fsid = 0, vn_size = 0, vn_mode = 493, vn_flags = 0,
    vn_dev = 0, vn_rdev = 0, vn_parent = None, vn_children = [], vn_linkto = None, vn_linkto_path = None,
    vn_handle = None, vn_is_mount = False\<rparr>"

definition upgrade :: "('a VfsState_scheme) \<Rightarrow> nref \<Rightarrow> nref option" where
  "upgrade s n = (if vs_live s n then Some n else None)"

definition upd_node :: "nref \<Rightarrow> (VfsNodeMeta \<Rightarrow> VfsNodeMeta) \<Rightarrow> 'a VfsState_scheme \<Rightarrow> 'a VfsState_scheme" where
  "upd_node n f s = s\<lparr>vs_nodes := (vs_nodes s)(n := f (vs_nodes s n))\<rparr>"

section \<open>File systems\<close>

text \<open>The operations of a file system. A call that fills a buffer gives it back with the number of
  bytes; a buffer is left alone when the call fails.\<close>

record 's VfsOps =
  vo_mount :: "string option \<Rightarrow> nref \<Rightarrow> 's \<Rightarrow> (unit VfsResult \<times> 's) option"
  vo_unmount :: "nref \<Rightarrow> 's \<Rightarrow> (unit VfsResult \<times> 's) option"
  vo_open :: "nref option \<Rightarrow> string \<Rightarrow> nref \<Rightarrow> 's \<Rightarrow> (unit VfsResult \<times> 's) option"
  vo_close :: "nref \<Rightarrow> 's \<Rightarrow> (unit VfsResult \<times> 's) option"
  vo_read :: "nref \<Rightarrow> usize \<Rightarrow> u8 list \<Rightarrow> 's \<Rightarrow> ((nat \<times> u8 list) VfsResult \<times> 's) option"
  vo_write :: "nref \<Rightarrow> usize \<Rightarrow> u8 list \<Rightarrow> 's \<Rightarrow> (nat VfsResult \<times> 's) option"
  vo_readlink :: "nref \<Rightarrow> u8 list \<Rightarrow> 's \<Rightarrow> ((nat \<times> u8 list) VfsResult \<times> 's) option"
  vo_mkdir :: "nref \<Rightarrow> string \<Rightarrow> nref \<Rightarrow> 's \<Rightarrow> (unit VfsResult \<times> 's) option"
  vo_mkfile :: "nref \<Rightarrow> string \<Rightarrow> nref \<Rightarrow> 's \<Rightarrow> (unit VfsResult \<times> 's) option"
  vo_link :: "nref \<Rightarrow> string \<Rightarrow> nref \<Rightarrow> 's \<Rightarrow> (unit VfsResult \<times> 's) option"
  vo_symlink :: "nref \<Rightarrow> string \<Rightarrow> nref \<Rightarrow> 's \<Rightarrow> (unit VfsResult \<times> 's) option"
  vo_stat :: "nref \<Rightarrow> 's \<Rightarrow> (unit VfsResult \<times> 's) option"
  vo_ioctl :: "nref \<Rightarrow> usize \<Rightarrow> usize \<Rightarrow> 's \<Rightarrow> (unit VfsResult \<times> 's) option"
  vo_dup :: "nref \<Rightarrow> 's \<Rightarrow> (nref VfsResult \<times> 's) option"
  vo_poll :: "nref \<Rightarrow> u32 \<Rightarrow> 's \<Rightarrow> (u32 VfsResult \<times> 's) option"
  vo_map :: "nref \<Rightarrow> usize \<Rightarrow> usize \<Rightarrow> usize \<Rightarrow> 's \<Rightarrow> (unit VfsResult \<times> 's) option"
  vo_delete :: "nref \<Rightarrow> nref \<Rightarrow> 's \<Rightarrow> (unit VfsResult \<times> 's) option"
  vo_rename :: "nref \<Rightarrow> string \<Rightarrow> 's \<Rightarrow> (unit VfsResult \<times> 's) option"
  vo_free :: "nref \<Rightarrow> 's \<Rightarrow> (unit VfsResult \<times> 's) option"
  vo_mknod :: "nref \<Rightarrow> string \<Rightarrow> nref \<Rightarrow> u16 \<Rightarrow> u64 \<Rightarrow> 's \<Rightarrow> (unit VfsResult \<times> 's) option"
  vo_chmod :: "nref \<Rightarrow> u16 \<Rightarrow> 's \<Rightarrow> (unit VfsResult \<times> 's) option"

text \<open>The default methods of the trait.\<close>

definition default_ops :: "'s VfsOps" where
  "default_ops = \<lparr>
    vo_mount = \<lambda>_ _ s. Some (Err NotSupported, s),
    vo_unmount = \<lambda>_ s. Some (Err NotSupported, s),
    vo_open = \<lambda>_ _ _ s. Some (Err NotSupported, s),
    vo_close = \<lambda>_ s. Some (Ok (), s),
    vo_read = \<lambda>_ _ _ s. Some (Err NotSupported, s),
    vo_write = \<lambda>_ _ _ s. Some (Err NotSupported, s),
    vo_readlink = \<lambda>_ _ s. Some (Err NotSupported, s),
    vo_mkdir = \<lambda>_ _ _ s. Some (Ok (), s),
    vo_mkfile = \<lambda>_ _ _ s. Some (Ok (), s),
    vo_link = \<lambda>_ _ _ s. Some (Ok (), s),
    vo_symlink = \<lambda>_ _ _ s. Some (Ok (), s),
    vo_stat = \<lambda>_ s. Some (Ok (), s),
    vo_ioctl = \<lambda>_ _ _ s. Some (Err NotSupported, s),
    vo_dup = \<lambda>_ s. Some (Err NotSupported, s),
    vo_poll = \<lambda>_ _ s. Some (Err NotSupported, s),
    vo_map = \<lambda>_ _ _ _ s. Some (Err NotSupported, s),
    vo_delete = \<lambda>_ _ s. Some (Ok (), s),
    vo_rename = \<lambda>_ _ s. Some (Ok (), s),
    vo_free = \<lambda>_ s. Some (Ok (), s),
    vo_mknod = \<lambda>_ _ _ _ _ s. Some (Ok (), s),
    vo_chmod = \<lambda>_ _ s. Some (Ok (), s)\<rparr>"

record 's VfsFs =
  fs_name :: string
  fs_fsid :: u16
  fs_magic :: u64
  fs_flags :: u64
  fs_ops :: "'s VfsOps"

text \<open>The registry is the list of the registered file systems and the next identifier to give.\<close>

type_synonym 's fs_registry = "'s VfsFs list"

definition vfs_register_fs ::
  "string \<Rightarrow> 's VfsOps \<Rightarrow> u64 \<Rightarrow> u64 \<Rightarrow> 's fs_registry \<times> u16 \<Rightarrow> u16 \<times> 's fs_registry \<times> u16" where
  "vfs_register_fs name ops magic flags r =
    (case r of (reg, next_fsid) \<Rightarrow>
      (next_fsid,
       reg @ [\<lparr>fs_name = name, fs_fsid = next_fsid, fs_magic = magic, fs_flags = flags, fs_ops = ops\<rparr>],
       next_fsid + 1))"

definition get_filesystem :: "'s fs_registry \<Rightarrow> string \<Rightarrow> 's VfsFs option" where
  "get_filesystem reg name = List.find (\<lambda>f. fs_name f = name) reg"

definition get_filesystem_by_id :: "'s fs_registry \<Rightarrow> u16 \<Rightarrow> 's VfsFs option" where
  "get_filesystem_by_id reg fsid = List.find (\<lambda>f. fs_fsid f = fsid) reg"

section \<open>The tree\<close>

definition vfs_init :: "'a VfsState_scheme \<Rightarrow> nref \<times> 'a VfsState_scheme" where
  "vfs_init s =
    (let root = vs_next s in
     (root, s\<lparr>vs_nodes := (vs_nodes s)(root := new_root), vs_next := root + 1, vs_root := Some root,
       vs_live := (vs_live s)(root := True)\<rparr>))"

definition vfs_node_alloc :: "nref option \<Rightarrow> string \<Rightarrow> 'a VfsState_scheme \<Rightarrow> nref \<times> 'a VfsState_scheme" where
  "vfs_node_alloc parent name s =
    (let fsid = (case parent of Some p \<Rightarrow> vn_fsid (vs_nodes s p) | None \<Rightarrow> 0);
         node = vs_next s;
         meta = \<lparr>vn_name = name, vn_type = NodeNone, vn_fsid = fsid, vn_size = 0, vn_mode = 511, vn_flags = 0,
           vn_dev = 0, vn_rdev = 0, vn_parent = parent, vn_children = [], vn_linkto = None,
           vn_linkto_path = None, vn_handle = None, vn_is_mount = False\<rparr>;
         s = s\<lparr>vs_nodes := (vs_nodes s)(node := meta), vs_next := node + 1, vs_live := (vs_live s)(node := True)\<rparr>
     in (node, case parent of Some p \<Rightarrow> upd_node p (vn_children_update (\<lambda>cs. cs @ [node])) s | None \<Rightarrow> s))"

definition vfs_child_append :: "nref \<Rightarrow> string \<Rightarrow> 'a VfsState_scheme \<Rightarrow> nref \<times> 'a VfsState_scheme" where
  "vfs_child_append parent name s = vfs_node_alloc (Some parent) name s"

definition vfs_child_find :: "nref \<Rightarrow> string \<Rightarrow> 'a VfsState_scheme \<Rightarrow> nref option" where
  "vfs_child_find parent name s =
    List.find (\<lambda>n. vn_name (vs_nodes s n) = name) (vn_children (vs_nodes s parent))"

definition vfs_list_dir :: "nref \<Rightarrow> 'a VfsState_scheme \<Rightarrow> string list VfsResult" where
  "vfs_list_dir node s =
    (if vn_type (vs_nodes s node) \<noteq> Dir then Err NotDir
     else Ok (map (\<lambda>c. vn_name (vs_nodes s c)) (vn_children (vs_nodes s node))))"

definition unlink_child :: "nref \<Rightarrow> nref \<Rightarrow> 'a VfsState_scheme \<Rightarrow> 'a VfsState_scheme" where
  "unlink_child parent node s = upd_node parent (vn_children_update (filter (\<lambda>c. c \<noteq> node))) s"

definition vfs_free :: "nref \<Rightarrow> 'a VfsState_scheme \<Rightarrow> 'a VfsState_scheme" where
  "vfs_free node s =
    (let s = (case Option.bind (vn_parent (vs_nodes s node)) (upgrade s) of
                Some parent \<Rightarrow> unlink_child parent node s
              | None \<Rightarrow> s)
     in upd_node node (\<lambda>m. m\<lparr>vn_children := [], vn_handle := None\<rparr>) s)"

text \<open>The loop of \<open>vfs_get_fullpath\<close> up the parents, and the path it builds.\<close>

partial_function (option) fullpath_loop :: "'a VfsState_scheme \<Rightarrow> nref option \<Rightarrow> string list \<Rightarrow> string list option" where
  "fullpath_loop s cur parts =
    (case cur of
       None \<Rightarrow> Some parts
     | Some n \<Rightarrow>
         let name = vn_name (vs_nodes s n)
         in fullpath_loop s (Option.bind (vn_parent (vs_nodes s n)) (upgrade s))
              (if name \<noteq> ''/'' then parts @ [name] else parts))"

definition vfs_get_fullpath :: "nref \<Rightarrow> 'a VfsState_scheme \<Rightarrow> string option" where
  "vfs_get_fullpath node s =
    do {
      parts \<leftarrow> fullpath_loop s (Some node) [];
      let out = ''/'' @ join_slash (rev parts);
      Some (if 1 < length out \<and> ends_with_slash out then butlast out else out)
    }"

definition vfs_cwd_path_build :: "string \<Rightarrow> string" where
  "vfs_cwd_path_build path = (if starts_with_slash path then normalize_path path else path_join ''/'' path)"

section \<open>Opening\<close>

text \<open>The step to a child that \<open>vfs_open\<close> and \<open>vfs_open_nofollow\<close> share: a child that is not in the
  tree yet is looked up by the file system of the directory.\<close>

definition open_child ::
  "('a VfsState_scheme) fs_registry \<Rightarrow> nref \<Rightarrow> string \<Rightarrow> 'a VfsState_scheme \<Rightarrow> (nref VfsResult \<times> 'a VfsState_scheme) option" where
  "open_child reg current part s =
    (case vfs_child_find current part s of
       Some n \<Rightarrow> Some (Ok n, s)
     | None \<Rightarrow>
         (case get_filesystem_by_id reg (vn_fsid (vs_nodes s current)) of
            None \<Rightarrow> Some (Err NoDev, s)
          | Some fs \<Rightarrow>
              (let (node, s) = vfs_child_append current part s in
               do {
                 (r, s) \<leftarrow> vo_open (fs_ops fs) (Some current) part node s;
                 (case r of
                    Ok _ \<Rightarrow> Some (Ok node, s)
                  | Err e \<Rightarrow>
                      Some (Err (if e = NotSupported \<or> e = NotFound then NotFound else e), vfs_free node s))
               })))"

text \<open>\<open>vfs_resolve_symlink\<close>, over the function that opens the target's path.\<close>

definition resolve_symlink ::
  "(string \<Rightarrow> 'a VfsState_scheme \<Rightarrow> (nref VfsResult \<times> 'a VfsState_scheme) option) \<Rightarrow> nref \<Rightarrow>
    'a VfsState_scheme \<Rightarrow> (nref option VfsResult \<times> 'a VfsState_scheme) option" where
  "resolve_symlink opn node s =
    (let meta = vs_nodes s node in
     case Option.bind (vn_linkto meta) (upgrade s) of
       Some link \<Rightarrow> Some (Ok (Some link), s)
     | None \<Rightarrow>
         (case vn_linkto_path meta of
            None \<Rightarrow> Some (Ok None, s)
          | Some path \<Rightarrow>
              do {
                base \<leftarrow> (case Option.bind (vn_parent meta) (upgrade s) of
                           Some p \<Rightarrow> vfs_get_fullpath p s
                         | None \<Rightarrow> Some ''/'');
                let full = (if starts_with_slash path then path else path_join base path);
                ebind (opn full s) (\<lambda>n s. Some (Ok (Some n), s))
              }))"

fun open_parts ::
  "('a VfsState_scheme) fs_registry \<Rightarrow> (string \<Rightarrow> 'a VfsState_scheme \<Rightarrow> (nref VfsResult \<times> 'a VfsState_scheme) option) \<Rightarrow>
    string list \<Rightarrow> nat \<Rightarrow> nref \<Rightarrow> 'a VfsState_scheme \<Rightarrow> (nref VfsResult \<times> 'a VfsState_scheme) option" where
  "open_parts reg opn [] follow_budget current s = Some (Ok current, s)"
| "open_parts reg opn (part # rest) follow_budget current s =
    (if part = [] then open_parts reg opn rest follow_budget current s
     else
       ebind (open_child reg current part s) (\<lambda>nxt s.
         if vn_type (vs_nodes s nxt) = Symlink then
           if follow_budget = 0 then Some (Err Invalid, s)
           else
             ebind (resolve_symlink opn nxt s) (\<lambda>t s.
               case t of
                 Some target \<Rightarrow>
                   if rest = [] then Some (Ok target, s)
                   else open_parts reg opn rest (follow_budget - 1) target s
               | None \<Rightarrow> Some (Err NotFound, s))
         else open_parts reg opn rest follow_budget nxt s))"

lemma resolve_symlink_mono [partial_function_mono]:
  assumes "\<And>p s. mono_option (\<lambda>f. opn f p s)"
  shows "mono_option (\<lambda>f. resolve_symlink (\<lambda>p s. opn f p s) node s)"
proof (cases "Option.bind (vn_linkto (vs_nodes s node)) (upgrade s)")
  case None
  then show ?thesis
    using assms
    by (cases "vn_linkto_path (vs_nodes s node)")
      (auto simp: resolve_symlink_def Let_def intro!: partial_function_mono option.const_mono)
qed (simp add: resolve_symlink_def option.const_mono)

lemma open_parts_mono [partial_function_mono]:
  assumes "\<And>p s. mono_option (\<lambda>f. opn f p s)"
  shows "mono_option (\<lambda>f. open_parts reg (\<lambda>p s. opn f p s) parts follow_budget current s)"
proof (induction parts arbitrary: follow_budget current s)
  case (Cons part rest)
  show ?case
  proof (cases "part = []")
    case False
    have "mono_option (\<lambda>f. case t of
        Some target \<Rightarrow> if rest = [] then Some (Ok target, s')
          else open_parts reg (\<lambda>p s. opn f p s) rest (follow_budget - 1) target s'
      | None \<Rightarrow> Some (Err NotFound, s'))" for t s'
      using Cons.IH by (cases t; cases "rest = []") (auto intro: option.const_mono)
    then show ?thesis
      using False Cons.IH assms by (auto intro!: partial_function_mono option.const_mono)
  qed (use Cons.IH in simp)
qed (simp add: option.const_mono)

partial_function (option) vfs_open ::
  "('a VfsState_scheme) fs_registry \<Rightarrow> string \<Rightarrow> 'a VfsState_scheme \<Rightarrow> (nref VfsResult \<times> 'a VfsState_scheme) option" where
  "vfs_open reg path s =
    (case vs_root s of
       None \<Rightarrow> None
     | Some root \<Rightarrow>
         if normalize_path path = ''/'' then Some (Ok root, s)
         else open_parts reg (\<lambda>p s. vfs_open reg p s) (split_slash (trim_slashes (normalize_path path))) 8 root s)"

definition vfs_resolve_symlink ::
  "('a VfsState_scheme) fs_registry \<Rightarrow> nref \<Rightarrow> 'a VfsState_scheme \<Rightarrow> (nref option VfsResult \<times> 'a VfsState_scheme) option" where
  "vfs_resolve_symlink reg node s = resolve_symlink (vfs_open reg) node s"

fun open_nofollow_parts ::
  "('a VfsState_scheme) fs_registry \<Rightarrow> string list \<Rightarrow> nref \<Rightarrow> 'a VfsState_scheme \<Rightarrow> (nref VfsResult \<times> 'a VfsState_scheme) option" where
  "open_nofollow_parts reg [] current s = Some (Ok current, s)"
| "open_nofollow_parts reg (part # rest) current s =
    (if part = [] then open_nofollow_parts reg rest current s
     else
       ebind (open_child reg current part s) (\<lambda>nxt s.
         if rest = [] then Some (Ok nxt, s)
         else if vn_type (vs_nodes s nxt) = Symlink then
           ebind (vfs_resolve_symlink reg nxt s) (\<lambda>t s.
             case t of
               Some target \<Rightarrow> open_nofollow_parts reg rest target s
             | None \<Rightarrow> Some (Err NotFound, s))
         else open_nofollow_parts reg rest nxt s))"

definition vfs_open_nofollow ::
  "('a VfsState_scheme) fs_registry \<Rightarrow> string \<Rightarrow> 'a VfsState_scheme \<Rightarrow> (nref VfsResult \<times> 'a VfsState_scheme) option" where
  "vfs_open_nofollow reg path s =
    (case vs_root s of
       None \<Rightarrow> None
     | Some root \<Rightarrow>
         if normalize_path path = ''/'' then Some (Ok root, s)
         else open_nofollow_parts reg (split_slash (trim_slashes (normalize_path path))) root s)"

section \<open>Making and removing nodes\<close>

text \<open>The call into the file system of a directory, which is skipped when it has none.\<close>

definition with_fs ::
  "('a VfsState_scheme) fs_registry \<Rightarrow> u16 \<Rightarrow> (('a VfsState_scheme) VfsOps \<Rightarrow> 'a VfsState_scheme \<Rightarrow> (unit VfsResult \<times> 'a VfsState_scheme) option) \<Rightarrow>
    'a VfsState_scheme \<Rightarrow> (unit VfsResult \<times> 'a VfsState_scheme) option" where
  "with_fs reg fsid call s =
    (case get_filesystem_by_id reg fsid of Some fs \<Rightarrow> call (fs_ops fs) s | None \<Rightarrow> Some (Ok (), s))"

definition abs_path :: "string \<Rightarrow> string" where
  "abs_path path =
    (let path = normalize_path path in if \<not> starts_with_slash path then ''/'' @ path else path)"

fun mkdir_parts ::
  "('a VfsState_scheme) fs_registry \<Rightarrow> string list \<Rightarrow> nref \<Rightarrow> 'a VfsState_scheme \<Rightarrow> (unit VfsResult \<times> 'a VfsState_scheme) option" where
  "mkdir_parts reg [] current s = Some (Ok (), s)"
| "mkdir_parts reg (part # rest) current s =
    (if part = [] then mkdir_parts reg rest current s
     else
       case vfs_child_find current part s of
         Some existing \<Rightarrow>
           if vn_type (vs_nodes s existing) \<noteq> Dir then Some (Err NotDir, s)
           else mkdir_parts reg rest existing s
       | None \<Rightarrow>
           (let (node, s) = vfs_child_append current part s;
                s = upd_node node (vn_type_update (\<lambda>_. Dir)) s
            in ebind (with_fs reg (vn_fsid (vs_nodes s current)) (\<lambda>ops. vo_mkdir ops current part node) s) (\<lambda>_ s.
                 mkdir_parts reg rest node s)))"

definition vfs_mkdir ::
  "('a VfsState_scheme) fs_registry \<Rightarrow> string \<Rightarrow> 'a VfsState_scheme \<Rightarrow> (unit VfsResult \<times> 'a VfsState_scheme) option" where
  "vfs_mkdir reg path s =
    (case vs_root s of
       None \<Rightarrow> None
     | Some root \<Rightarrow> mkdir_parts reg (split_slash (trim_slashes (abs_path path))) root s)"

definition vfs_mkfile ::
  "('a VfsState_scheme) fs_registry \<Rightarrow> string \<Rightarrow> 'a VfsState_scheme \<Rightarrow> (nref VfsResult \<times> 'a VfsState_scheme) option" where
  "vfs_mkfile reg path s =
    (let parts = split_slash (trim_slashes (abs_path path)) in
     if parts = [] then Some (Err Invalid, s)
     else
       let name = last parts;
           parent_path = ''/'' @ join_slash (butlast parts)
       in ebind (vfs_open reg parent_path s) (\<lambda>parent s.
            if vfs_child_find parent name s \<noteq> None then Some (Err Exists, s)
            else
              let (node, s) = vfs_child_append parent name s
              in ebind (with_fs reg (vn_fsid (vs_nodes s parent)) (\<lambda>ops. vo_mkfile ops parent name node) s) (\<lambda>_ s.
                   Some (Ok node, s))))"

definition vfs_link ::
  "('a VfsState_scheme) fs_registry \<Rightarrow> string \<Rightarrow> string \<Rightarrow> 'a VfsState_scheme \<Rightarrow> (nref VfsResult \<times> 'a VfsState_scheme) option" where
  "vfs_link reg target link_path s =
    ebind (vfs_open reg target s) (\<lambda>target_node s.
    ebind (vfs_mkfile reg link_path s) (\<lambda>link_node s.
      let t = vs_nodes s target_node
      in Some (Ok link_node,
           upd_node link_node (\<lambda>m. m\<lparr>vn_linkto := Some target_node, vn_type := vn_type t, vn_handle := vn_handle t,
             vn_size := vn_size t, vn_mode := vn_mode t\<rparr>) s)))"

definition vfs_symlink ::
  "('a VfsState_scheme) fs_registry \<Rightarrow> string \<Rightarrow> string \<Rightarrow> 'a VfsState_scheme \<Rightarrow> (nref VfsResult \<times> 'a VfsState_scheme) option" where
  "vfs_symlink reg target link_path s =
    ebind (vfs_mkfile reg link_path s) (\<lambda>link_node s.
      Some (Ok link_node, upd_node link_node (\<lambda>m. m\<lparr>vn_type := Symlink, vn_linkto_path := Some target\<rparr>) s))"

definition vfs_mknod ::
  "('a VfsState_scheme) fs_registry \<Rightarrow> string \<Rightarrow> u16 \<Rightarrow> u64 \<Rightarrow> 'a VfsState_scheme \<Rightarrow> (nref VfsResult \<times> 'a VfsState_scheme) option" where
  "vfs_mknod reg path mode dev s =
    ebind (vfs_mkfile reg path s) (\<lambda>node s.
      Some (Ok node, upd_node node (\<lambda>m. m\<lparr>vn_mode := mode, vn_dev := dev, vn_rdev := dev\<rparr>) s))"

definition vfs_delete ::
  "('a VfsState_scheme) fs_registry \<Rightarrow> string \<Rightarrow> 'a VfsState_scheme \<Rightarrow> (unit VfsResult \<times> 'a VfsState_scheme) option" where
  "vfs_delete reg path s =
    ebind (vfs_open reg path s) (\<lambda>node s.
      case Option.bind (vn_parent (vs_nodes s node)) (upgrade s) of
        None \<Rightarrow> Some (Err Invalid, s)
      | Some parent \<Rightarrow>
          if vn_type (vs_nodes s node) = Dir \<and> vn_children (vs_nodes s node) \<noteq> [] then Some (Err NotEmpty, s)
          else
            ebind (with_fs reg (vn_fsid (vs_nodes s parent)) (\<lambda>ops. vo_delete ops parent node) s) (\<lambda>_ s.
              Some (Ok (), unlink_child parent node s)))"

definition vfs_rename ::
  "('a VfsState_scheme) fs_registry \<Rightarrow> string \<Rightarrow> string \<Rightarrow> 'a VfsState_scheme \<Rightarrow> (unit VfsResult \<times> 'a VfsState_scheme) option" where
  "vfs_rename reg path new_name s =
    ebind (vfs_open reg path s) (\<lambda>node s.
    ebind (with_fs reg (vn_fsid (vs_nodes s node)) (\<lambda>ops. vo_rename ops node new_name) s) (\<lambda>_ s.
      Some (Ok (), upd_node node (vn_name_update (\<lambda>_. new_name)) s)))"

section \<open>Dispatch to the file systems\<close>

definition node_ops :: "('a VfsState_scheme) fs_registry \<Rightarrow> nref \<Rightarrow> 'a VfsState_scheme \<Rightarrow> ('a VfsState_scheme) VfsOps VfsResult" where
  "node_ops reg node s =
    (case get_filesystem_by_id reg (vn_fsid (vs_nodes s node)) of Some fs \<Rightarrow> Ok (fs_ops fs) | None \<Rightarrow> Err NoDev)"

definition vfs_read ::
  "('a VfsState_scheme) fs_registry \<Rightarrow> nref \<Rightarrow> usize \<Rightarrow> u8 list \<Rightarrow> 'a VfsState_scheme \<Rightarrow> ((nat \<times> u8 list) VfsResult \<times> 'a VfsState_scheme) option" where
  "vfs_read reg node offset buf s =
    (case node_ops reg node s of Ok ops \<Rightarrow> vo_read ops node offset buf s | Err e \<Rightarrow> Some (Err e, s))"

definition vfs_write ::
  "('a VfsState_scheme) fs_registry \<Rightarrow> nref \<Rightarrow> usize \<Rightarrow> u8 list \<Rightarrow> 'a VfsState_scheme \<Rightarrow> (nat VfsResult \<times> 'a VfsState_scheme) option" where
  "vfs_write reg node offset buf s =
    (case node_ops reg node s of Ok ops \<Rightarrow> vo_write ops node offset buf s | Err e \<Rightarrow> Some (Err e, s))"

definition vfs_ioctl ::
  "('a VfsState_scheme) fs_registry \<Rightarrow> nref \<Rightarrow> usize \<Rightarrow> usize \<Rightarrow> 'a VfsState_scheme \<Rightarrow> (unit VfsResult \<times> 'a VfsState_scheme) option" where
  "vfs_ioctl reg node req arg s =
    (case node_ops reg node s of Ok ops \<Rightarrow> vo_ioctl ops node req arg s | Err e \<Rightarrow> Some (Err e, s))"

definition vfs_poll ::
  "('a VfsState_scheme) fs_registry \<Rightarrow> nref \<Rightarrow> u32 \<Rightarrow> 'a VfsState_scheme \<Rightarrow> (u32 VfsResult \<times> 'a VfsState_scheme) option" where
  "vfs_poll reg node events s =
    (case node_ops reg node s of Ok ops \<Rightarrow> vo_poll ops node events s | Err e \<Rightarrow> Some (Err e, s))"

definition vfs_map ::
  "('a VfsState_scheme) fs_registry \<Rightarrow> nref \<Rightarrow> usize \<Rightarrow> usize \<Rightarrow> usize \<Rightarrow> 'a VfsState_scheme \<Rightarrow> (unit VfsResult \<times> 'a VfsState_scheme) option" where
  "vfs_map reg node addr len offset s =
    (case node_ops reg node s of Ok ops \<Rightarrow> vo_map ops node addr len offset s | Err e \<Rightarrow> Some (Err e, s))"

definition vfs_mount ::
  "('a VfsState_scheme) fs_registry \<Rightarrow> string option \<Rightarrow> string \<Rightarrow> nref \<Rightarrow> 'a VfsState_scheme \<Rightarrow> (unit VfsResult \<times> 'a VfsState_scheme) option" where
  "vfs_mount reg src fstype mountpoint s =
    (case get_filesystem reg fstype of
       None \<Rightarrow> Some (Err NoDev, s)
     | Some fs \<Rightarrow>
         let prev_fsid = vn_fsid (vs_nodes s mountpoint);
             prev_mount = vn_is_mount (vs_nodes s mountpoint);
             s = upd_node mountpoint (\<lambda>m. m\<lparr>vn_fsid := fs_fsid fs, vn_is_mount := True\<rparr>) s
         in do {
              (r, s) \<leftarrow> vo_mount (fs_ops fs) src mountpoint s;
              (case r of
                 Ok _ \<Rightarrow> Some (Ok (), s)
               | Err e \<Rightarrow> Some (Err e, upd_node mountpoint (\<lambda>m. m\<lparr>vn_fsid := prev_fsid, vn_is_mount := prev_mount\<rparr>) s))
            })"

definition vfs_unmount ::
  "('a VfsState_scheme) fs_registry \<Rightarrow> string \<Rightarrow> 'a VfsState_scheme \<Rightarrow> (unit VfsResult \<times> 'a VfsState_scheme) option" where
  "vfs_unmount reg path s =
    ebind (vfs_open reg path s) (\<lambda>node s.
      case node_ops reg node s of
        Err e \<Rightarrow> Some (Err e, s)
      | Ok ops \<Rightarrow>
          ebind (vo_unmount ops node s) (\<lambda>_ s. Some (Ok (), upd_node node (vn_is_mount_update (\<lambda>_. False)) s)))"

end
