(* ===== verification/VfsTree.thy ===== *)
theory VfsTree
  imports Vfs "HOL-Library.Sublist"
begin

text \<open>
  The tree of the virtual file system: the contract of a file system's operations, the invariant of
  the tree and that every operation of \<open>vfs/mod.rs\<close> keeps it, that a directory that was made can be
  opened under its path, and that a symbolic link to itself is never resolved.
\<close>

section \<open>The invariant\<close>

text \<open>The children of a node name it as their parent and have an owner; the weak references of a node
  point to nodes that were allocated.\<close>

definition node_ok :: "'a VfsState_scheme \<Rightarrow> nref \<Rightarrow> bool" where
  "node_ok s n \<longleftrightarrow>
    (\<forall>c \<in> set (vn_children (vs_nodes s n)). c < vs_next s \<and> vn_parent (vs_nodes s c) = Some n \<and> vs_live s c)
    \<and> distinct (vn_children (vs_nodes s n))
    \<and> (vn_children (vs_nodes s n) \<noteq> [] \<longrightarrow> vs_live s n)
    \<and> (\<forall>t. vn_linkto (vs_nodes s n) = Some t \<longrightarrow> t < vs_next s)
    \<and> (\<forall>p. vn_parent (vs_nodes s n) = Some p \<longrightarrow> p < vs_next s)"

definition held_node :: "'a VfsState_scheme \<Rightarrow> nref \<Rightarrow> bool" where
  "held_node s n \<longleftrightarrow> n < vs_next s \<and> vs_live s n"

definition tree_ok :: "'a VfsState_scheme \<Rightarrow> bool" where
  "tree_ok s \<longleftrightarrow>
    (\<exists>r. vs_root s = Some r \<and> held_node s r \<and> vn_parent (vs_nodes s r) = None) \<and> (\<forall>n < vs_next s. node_ok s n)"

text \<open>The parts of a state that make up the tree.\<close>

definition same_tree :: "'a VfsState_scheme \<Rightarrow> 'a VfsState_scheme \<Rightarrow> bool" where
  "same_tree s s' \<longleftrightarrow>
    vs_root s' = vs_root s \<and> vs_next s' = vs_next s \<and> vs_live s' = vs_live s
    \<and> (\<forall>n. vn_parent (vs_nodes s' n) = vn_parent (vs_nodes s n) \<and> vn_children (vs_nodes s' n) = vn_children (vs_nodes s n)
         \<and> vn_linkto (vs_nodes s' n) = vn_linkto (vs_nodes s n))"

definition same_names :: "'a VfsState_scheme \<Rightarrow> 'a VfsState_scheme \<Rightarrow> bool" where
  "same_names s s' \<longleftrightarrow> (\<forall>n. vn_name (vs_nodes s' n) = vn_name (vs_nodes s n))"

definition same_types :: "nref \<Rightarrow> 'a VfsState_scheme \<Rightarrow> 'a VfsState_scheme \<Rightarrow> bool" where
  "same_types node s s' \<longleftrightarrow> (\<forall>n. n \<noteq> node \<longrightarrow> vn_type (vs_nodes s' n) = vn_type (vs_nodes s n))"

lemma same_tree_refl [simp]: "same_tree s s" "same_names s s" "same_types n s s"
  by (simp_all add: same_tree_def same_names_def same_types_def)

lemma tree_ok_cong: "same_tree s s' \<Longrightarrow> tree_ok s' = tree_ok s"
  by (simp add: same_tree_def tree_ok_def node_ok_def held_node_def)

lemma tree_ok_root:
  assumes "tree_ok s"
  obtains r where "vs_root s = Some r" "held_node s r" "vn_parent (vs_nodes s r) = None"
  using assms by (auto simp: tree_ok_def)

lemma tree_ok_rootD: "tree_ok s \<Longrightarrow> vs_root s = Some r \<Longrightarrow> held_node s r \<and> vn_parent (vs_nodes s r) = None"
  by (auto simp: tree_ok_def)

lemma tree_ok_node: "tree_ok s \<Longrightarrow> n < vs_next s \<Longrightarrow> node_ok s n"
  by (simp add: tree_ok_def)

lemma tree_ok_child:
  "tree_ok s \<Longrightarrow> n < vs_next s \<Longrightarrow> c \<in> set (vn_children (vs_nodes s n)) \<Longrightarrow>
    held_node s c \<and> vn_parent (vs_nodes s c) = Some n \<and> held_node s n"
  using tree_ok_node [of s n] by (auto simp: node_ok_def held_node_def)

text \<open>A step that keeps the invariant, the root and every node that has an owner.\<close>

definition kept :: "'a VfsState_scheme \<Rightarrow> 'a VfsState_scheme \<Rightarrow> bool" where
  "kept s s' \<longleftrightarrow> tree_ok s' \<and> vs_root s' = vs_root s \<and> (\<forall>n. held_node s n \<longrightarrow> held_node s' n)"

lemma kept_refl: "tree_ok s \<Longrightarrow> kept s s"
  by (simp add: kept_def)

section \<open>The contract of a file system\<close>

text \<open>The operations of a file system may change what a node holds, its type and its size, but they
  leave the tree to the layer above; only \<open>rename\<close> may change the name, and only \<open>mount\<close> may add
  nodes below its own.\<close>

locale fs_backend =
  fixes ops :: "('a VfsState_scheme) VfsOps"
  assumes open_ok: "\<exists>r s'. vo_open ops par name n s = Some (r, s') \<and> same_tree s s' \<and> same_names s s' \<and> same_types n s s'"
    and mkdir_ok: "\<exists>r s'. vo_mkdir ops p name n s = Some (r, s') \<and> same_tree s s' \<and> same_names s s' \<and> same_types n s s'
      \<and> (vn_type (vs_nodes s n) = Dir \<longrightarrow> vn_type (vs_nodes s' n) = Dir)"
    and mkfile_ok: "\<exists>r s'. vo_mkfile ops p name n s = Some (r, s') \<and> same_tree s s' \<and> same_names s s' \<and> same_types n s s'"
    and delete_ok: "vo_delete ops p n s = Some (r, s') \<Longrightarrow> same_tree s s' \<and> same_names s s'"
    and rename_ok: "vo_rename ops n name s = Some (r, s') \<Longrightarrow> same_tree s s'"
    and mount_ok: "tree_ok s \<Longrightarrow> held_node s n \<Longrightarrow> vo_mount ops src n s = Some (r, s') \<Longrightarrow> kept s s'"
    and unmount_ok: "vo_unmount ops n s = Some (r, s') \<Longrightarrow> same_tree s s' \<and> same_names s s'"

text \<open>A registry of such file systems.\<close>

locale fs_backends =
  fixes reg :: "('a VfsState_scheme) fs_registry"
  assumes backend: "f \<in> set reg \<Longrightarrow> fs_backend (fs_ops f)"

lemma fs_backend_default: "fs_backend default_ops"
  by unfold_locales (auto simp: default_ops_def kept_refl)

section \<open>Allocating and freeing nodes\<close>

lemma kept_trans: "kept s s1 \<Longrightarrow> kept s1 s2 \<Longrightarrow> kept s s2"
  by (simp add: kept_def)

lemma kept_same: "kept s s1 \<Longrightarrow> same_tree s1 s2 \<Longrightarrow> kept s s2"
  using tree_ok_cong [of s1 s2] by (auto simp: kept_def same_tree_def held_node_def)

lemma kept_same': "tree_ok s \<Longrightarrow> same_tree s s' \<Longrightarrow> kept s s'"
  using kept_same [OF kept_refl] .

lemma upd_node_simps [simp]:
  "vs_nodes (upd_node n f s) m = (if m = n then f (vs_nodes s n) else vs_nodes s m)"
  "vs_root (upd_node n f s) = vs_root s" "vs_next (upd_node n f s) = vs_next s" "vs_live (upd_node n f s) = vs_live s"
  by (simp_all add: upd_node_def)

lemma held_upd_node [simp]: "held_node (upd_node n f s) m = held_node s m"
  by (simp add: held_node_def)

lemma same_tree_upd:
  assumes "\<And>m. vn_parent (f m) = vn_parent m" "\<And>m. vn_children (f m) = vn_children m" "\<And>m. vn_linkto (f m) = vn_linkto m"
  shows "same_tree s (upd_node n f s)"
  using assms by (simp add: same_tree_def)

lemma find_child:
  assumes "vfs_child_find p name s = Some c"
  shows "c \<in> set (vn_children (vs_nodes s p))" "vn_name (vs_nodes s c) = name"
  using assms by (auto simp: vfs_child_find_def find_Some_iff)

lemma find_child_held:
  assumes "tree_ok s" "held_node s p" "vfs_child_find p name s = Some c"
  shows "held_node s c" "vn_parent (vs_nodes s c) = Some p"
  using tree_ok_child [OF assms(1) _ find_child(1) [OF assms(3)]] assms(2) by (auto simp: held_node_def)

lemma child_append_simps:
  assumes "vfs_child_append p name s = (n, s')" "held_node s p"
  shows "n = vs_next s" "vs_next s' = vs_next s + 1" "vs_root s' = vs_root s" "vs_live s' = (vs_live s)(n := True)"
    "m \<noteq> n \<Longrightarrow> m \<noteq> p \<Longrightarrow> vs_nodes s' m = vs_nodes s m"
    "vs_nodes s' p = (vs_nodes s p)\<lparr>vn_children := vn_children (vs_nodes s p) @ [n]\<rparr>"
    "vn_name (vs_nodes s' n) = name" "vn_type (vs_nodes s' n) = NodeNone" "vn_parent (vs_nodes s' n) = Some p"
    "vn_children (vs_nodes s' n) = []" "vn_linkto (vs_nodes s' n) = None" "n \<noteq> p" "vn_fsid (vs_nodes s' n) = vn_fsid (vs_nodes s p)"
    "vn_linkto_path (vs_nodes s' n) = None"
  using assms by (auto simp: vfs_child_append_def vfs_node_alloc_def Let_def held_node_def)

lemma child_append_kept:
  assumes "tree_ok s" "held_node s p" "vfs_child_append p name s = (n, s')"
  shows "kept s s'" "held_node s' n"
proof -
  note sim = child_append_simps [OF assms(3,2)]
  show held: "held_node s' n"
    by (simp add: held_node_def sim)
  obtain r where r: "vs_root s = Some r" "held_node s r" "vn_parent (vs_nodes s r) = None"
    by (rule tree_ok_root [OF assms(1)])
  have "node_ok s' m" if "m < vs_next s'" for m
  proof (cases "m = n")
    case True
    then show ?thesis
      using assms(2) sim by (simp add: node_ok_def held_node_def)
  next
    case False
    then have m: "m < vs_next s"
      using that sim(1,2) by simp
    have fresh: "c \<noteq> n" if "c \<in> set (vn_children (vs_nodes s m))" for c
      using tree_ok_child [OF assms(1) m that] sim(1) by (simp add: held_node_def)
    show ?thesis
    proof (cases "m = p")
      case True
      have "vn_parent (vs_nodes s' c) = Some p" if "c \<in> set (vn_children (vs_nodes s p))" for c
        using tree_ok_child [OF assms(1) m] that True fresh sim(5) [of c] sim(6) by (cases "c = p") auto
      then show ?thesis
        using tree_ok_node [OF assms(1) m] fresh True sim assms(2) by (auto simp: node_ok_def held_node_def)
    next
      case mp: False
      have "vn_parent (vs_nodes s' c) = Some m" if "c \<in> set (vn_children (vs_nodes s m))" for c
        using tree_ok_child [OF assms(1) m that] fresh [OF that] sim(5) [of c] sim(6) by (cases "c = p") auto
      then show ?thesis
        using tree_ok_node [OF assms(1) m] fresh sim(1-4) sim(5) [OF False mp] by (auto simp: node_ok_def)
    qed
  qed
  moreover have "held_node s' m" if "held_node s m" for m
    using that sim by (simp add: held_node_def)
  moreover have "vn_parent (vs_nodes s' r) = None"
    using r sim(5) [of r] sim(6) sim(1) by (cases "r = p") (auto simp: held_node_def)
  ultimately show "kept s s'"
    using r sim(3) by (auto simp: kept_def tree_ok_def)
qed

lemma unlink_child_kept:
  assumes "tree_ok s"
  shows "kept s (unlink_child p n s)"
proof -
  obtain r where r: "vs_root s = Some r" "held_node s r" "vn_parent (vs_nodes s r) = None"
    by (rule tree_ok_root [OF assms])
  have "node_ok (unlink_child p n s) m" if "m < vs_next s" for m
    using tree_ok_node [OF assms that] by (auto simp: unlink_child_def node_ok_def)
  then show ?thesis
    using r by (auto simp: kept_def tree_ok_def unlink_child_def)
qed

lemma clear_node_kept:
  assumes "tree_ok s"
  shows "kept s (upd_node n (\<lambda>m. m\<lparr>vn_children := [], vn_handle := None\<rparr>) s)"
proof -
  obtain r where r: "vs_root s = Some r" "held_node s r" "vn_parent (vs_nodes s r) = None"
    by (rule tree_ok_root [OF assms])
  have "node_ok (upd_node n (\<lambda>m. m\<lparr>vn_children := [], vn_handle := None\<rparr>) s) m" if "m < vs_next s" for m
    using tree_ok_node [OF assms that] by (auto simp: node_ok_def)
  then show ?thesis
    using r by (auto simp: kept_def tree_ok_def)
qed

lemma vfs_free_kept:
  assumes "tree_ok s"
  shows "kept s (vfs_free n s)"
proof (cases "Option.bind (vn_parent (vs_nodes s n)) (upgrade s)")
  case (Some p)
  have "kept s (unlink_child p n s)"
    by (rule unlink_child_kept [OF assms])
  moreover from this have "kept (unlink_child p n s) (vfs_free n s)"
    using clear_node_kept [of "unlink_child p n s" n] Some by (simp add: kept_def vfs_free_def Let_def)
  ultimately show ?thesis
    by (rule kept_trans)
next
  case None
  then show ?thesis
    using clear_node_kept [OF assms, of n] by (simp add: vfs_free_def Let_def)
qed

section \<open>Calls that keep the tree\<close>

text \<open>A call in a state with a well-formed tree leaves one behind, if it returns, and what it gives
  back satisfies a predicate; the rule for sequences of such calls.\<close>

definition keeps :: "('a VfsState_scheme \<Rightarrow> 'r \<Rightarrow> bool) \<Rightarrow> 'a VfsState_scheme \<Rightarrow> (('r, 'e) result \<times> 'a VfsState_scheme) option \<Rightarrow> bool" where
  "keeps Q s m \<longleftrightarrow> (\<forall>r s'. m = Some (r, s') \<longrightarrow> kept s s' \<and> (\<forall>a. r = Ok a \<longrightarrow> Q s' a))"

lemma kept_ok: "kept s s' \<Longrightarrow> tree_ok s'"
  by (simp add: kept_def)

lemma kept_held: "kept s s' \<Longrightarrow> held_node s n \<Longrightarrow> held_node s' n"
  by (simp add: kept_def)

lemma keeps_simps [simp]:
  "keeps Q s None"
  "keeps Q s (Some (Ok a, s')) \<longleftrightarrow> kept s s' \<and> Q s' a"
  "keeps Q s (Some (Err e, s')) \<longleftrightarrow> kept s s'"
  by (simp_all add: keeps_def)

lemma keepsD: "keeps Q s m \<Longrightarrow> m = Some (r, s') \<Longrightarrow> kept s s'"
  by (simp add: keeps_def)

lemma keeps_step: "kept s s1 \<Longrightarrow> keeps Q s1 m \<Longrightarrow> keeps Q s m"
  by (auto simp: keeps_def intro: kept_trans)

lemma keeps_ebind:
  assumes m: "keeps Q s m" and f: "\<And>a s'. kept s s' \<Longrightarrow> Q s' a \<Longrightarrow> keeps R s' (f a s')"
  shows "keeps R s (ebind m f)"
proof (cases m)
  case (Some x)
  obtain r s' where x: "x = (r, s')"
    by force
  have k: "kept s s'" "\<And>a. r = Ok a \<Longrightarrow> Q s' a"
    using m Some x by (auto simp: keeps_def)
  show ?thesis
  proof (cases r)
    case (Ok a)
    show ?thesis
      using keeps_step [OF k(1) f [OF k(1) k(2) [OF Ok]]] by (simp add: Some x Ok)
  qed (use k in \<open>simp add: Some x\<close>)
qed simp

section \<open>Opening keeps the tree\<close>

lemma filesystem_in: "get_filesystem_by_id reg i = Some f \<Longrightarrow> f \<in> set reg" "get_filesystem reg nm = Some f \<Longrightarrow> f \<in> set reg"
  by (auto simp: get_filesystem_by_id_def get_filesystem_def find_Some_iff)

lemma upgrade_SomeD: "Option.bind x (upgrade s) = Some p \<Longrightarrow> x = Some p \<and> vs_live s p"
  by (cases x) (auto simp: upgrade_def split: if_splits)

lemma tree_ok_weak:
  assumes "tree_ok s" "n < vs_next s"
  shows "vn_parent (vs_nodes s n) = Some p \<Longrightarrow> p < vs_next s" "vn_linkto (vs_nodes s n) = Some t \<Longrightarrow> t < vs_next s"
  using tree_ok_node [OF assms] unfolding node_ok_def by blast+

lemma upgrade_held:
  assumes "tree_ok s" "held_node s n" "Option.bind (vn_parent (vs_nodes s n)) (upgrade s) = Some p"
  shows "held_node s p"
  using tree_ok_weak(1) [OF assms(1), of n p] assms(2) upgrade_SomeD [OF assms(3)] by (simp add: held_node_def)

lemma linkto_held:
  assumes "tree_ok s" "held_node s n" "Option.bind (vn_linkto (vs_nodes s n)) (upgrade s) = Some t"
  shows "held_node s t"
  using tree_ok_weak(2) [OF assms(1), of n t] assms(2) upgrade_SomeD [OF assms(3)] by (simp add: held_node_def)

lemma resolve_symlink_keeps:
  assumes "tree_ok s" "held_node s n" and opn: "\<And>p. keeps held_node s (opn p s)"
  shows "keeps (\<lambda>s. pred_option (held_node s)) s (resolve_symlink opn n s)"
proof (cases "Option.bind (vn_linkto (vs_nodes s n)) (upgrade s)")
  case (Some t)
  then show ?thesis
    using linkto_held [OF assms(1,2) Some] assms(1) by (simp add: resolve_symlink_def kept_refl)
next
  case None
  have step: "keeps (\<lambda>s. pred_option (held_node s)) s (ebind (opn q s) (\<lambda>n s. Some (Ok (Some n), s)))" for q
    by (rule keeps_ebind [OF opn]) (simp add: kept_refl kept_ok)
  show ?thesis
  proof (cases "vn_linkto_path (vs_nodes s n)")
    case (Some path)
    then show ?thesis
      using None
      by (cases "case Option.bind (vn_parent (vs_nodes s n)) (upgrade s) of Some p \<Rightarrow> vfs_get_fullpath p s | None \<Rightarrow> Some ''/''")
        (simp_all add: resolve_symlink_def Let_def step)
  qed (use None assms(1) in \<open>simp add: resolve_symlink_def kept_refl\<close>)
qed

lemma kept_upd:
  assumes "tree_ok s" "\<And>m. vn_parent (f m) = vn_parent m" "\<And>m. vn_children (f m) = vn_children m" "\<And>m. vn_linkto (f m) = vn_linkto m"
  shows "kept s (upd_node n f s)"
  using kept_same' [OF assms(1) same_tree_upd [OF assms(2-4)]] .

lemma kept_link:
  assumes "tree_ok s" "held_node s t"
    "\<And>m. vn_parent (f m) = vn_parent m" "\<And>m. vn_children (f m) = vn_children m" "\<And>m. vn_linkto (f m) = Some t"
  shows "kept s (upd_node n f s)"
proof -
  obtain r where r: "vs_root s = Some r" "held_node s r" "vn_parent (vs_nodes s r) = None"
    by (rule tree_ok_root [OF assms(1)])
  have "node_ok (upd_node n f s) m" if "m < vs_next s" for m
    using tree_ok_node [OF assms(1) that] assms(2-5) unfolding node_ok_def held_node_def by auto
  then show ?thesis
    using r assms(3) by (auto simp: kept_def tree_ok_def)
qed

context fs_backends
begin

lemma open_child_returns:
  assumes "tree_ok s" "held_node s cur"
  shows "\<exists>r s'. open_child reg cur part s = Some (r, s') \<and> kept s s' \<and> (\<forall>n. r = Ok n \<longrightarrow> held_node s' n)"
proof (cases "vfs_child_find cur part s")
  case (Some c)
  then show ?thesis
    using find_child_held [OF assms Some] assms by (simp add: open_child_def kept_refl)
next
  case None
  show ?thesis
  proof (cases "get_filesystem_by_id reg (vn_fsid (vs_nodes s cur))")
    case (Some f)
    obtain n s1 where a: "vfs_child_append cur part s = (n, s1)"
      by force
    note k = child_append_kept [OF assms a]
    obtain r s2 where o: "vo_open (fs_ops f) (Some cur) part n s1 = Some (r, s2)" "same_tree s1 s2"
      using fs_backend.open_ok [OF backend [OF filesystem_in(1) [OF Some]], of "Some cur" part n s1] by blast
    have "kept s s2"
      by (rule kept_same [OF k(1) o(2)])
    moreover have "held_node s2 n"
      using k(2) o(2) by (simp add: held_node_def same_tree_def)
    moreover have "kept s (vfs_free n s2)"
      using \<open>kept s s2\<close> vfs_free_kept [OF kept_ok] kept_trans by blast
    ultimately show ?thesis
      using None Some a o by (cases r) (auto simp: open_child_def)
  qed (use None assms in \<open>simp add: open_child_def kept_refl\<close>)
qed

lemma open_child_keeps: "tree_ok s \<Longrightarrow> held_node s cur \<Longrightarrow> keeps held_node s (open_child reg cur part s)"
  using open_child_returns [of s cur part] by (auto simp: keeps_def)

lemma open_parts_keeps:
  assumes opn: "\<And>p s. tree_ok s \<Longrightarrow> keeps held_node s (opn p s)"
  shows "tree_ok s \<Longrightarrow> held_node s cur \<Longrightarrow> keeps held_node s (open_parts reg opn parts budget cur s)"
proof (induction parts arbitrary: budget cur s)
  case (Cons part rest)
  show ?case
  proof (cases "part = []")
    case False
    have sym: "keeps held_node s' (ebind (resolve_symlink opn n s') (\<lambda>t s.
        case t of
          Some target \<Rightarrow> if rest = [] then Some (Ok target, s) else open_parts reg opn rest (budget - 1) target s
        | None \<Rightarrow> Some (Err NotFound, s)))" if "tree_ok s'" "held_node s' n" for s' n
    proof (rule keeps_ebind [OF resolve_symlink_keeps [where opn = opn, OF that opn [OF that(1)]]])
      fix t s2
      assume "kept s' s2" "pred_option (held_node s2) t"
      then show "keeps held_node s2 (case t of
          Some target \<Rightarrow> if rest = [] then Some (Ok target, s2) else open_parts reg opn rest (budget - 1) target s2
        | None \<Rightarrow> Some (Err NotFound, s2))"
        using Cons.IH [of s2] kept_refl [of s2] kept_ok [of s' s2] by (cases t) simp_all
    qed
    have "keeps held_node s' (if vn_type (vs_nodes s' nxt) = Symlink then
           if budget = 0 then Some (Err Invalid, s')
           else ebind (resolve_symlink opn nxt s') (\<lambda>t s.
               case t of
                 Some target \<Rightarrow> if rest = [] then Some (Ok target, s) else open_parts reg opn rest (budget - 1) target s
               | None \<Rightarrow> Some (Err NotFound, s))
         else open_parts reg opn rest budget nxt s')" if "kept s s'" "held_node s' nxt" for s' nxt
      using sym [of s' nxt] Cons.IH [of s' nxt budget] kept_refl [of s'] kept_ok [OF that(1)] that(2) by simp
    from keeps_ebind [OF open_child_keeps [OF Cons.prems] this]
    show ?thesis
      using False by simp
  qed (use Cons in simp)
qed (simp add: kept_refl)

text \<open>\<open>vfs_open\<close> keeps the tree, by induction on the approximations of the recursion.\<close>

lemma vfs_open_keeps:
  assumes "tree_ok s"
  shows "keeps held_node s (vfs_open reg path s)"
proof -
  have step: "g = reg \<longrightarrow> tree_ok s \<longrightarrow> keeps held_node s (Some y)" if "vfs_open g path s = Some y" for g path s y
  proof (rule vfs_open.raw_induct [where P = "\<lambda>g p s y. g = reg \<longrightarrow> tree_ok s \<longrightarrow> keeps held_node s (Some y)", OF _ that], goal_cases)
    case (1 opn g p s y)
    show ?case
    proof (intro impI)
      assume g: "g = reg" and s: "tree_ok s"
      have opn: "keeps held_node s (opn reg p s)" if "tree_ok s" for p s
        using 1(1) [of reg p s] that by (cases "opn reg p s") auto
      obtain r where r: "vs_root s = Some r" "held_node s r" "vn_parent (vs_nodes s r) = None"
        by (rule tree_ok_root [OF s])
      have "keeps held_node s (open_parts reg (opn reg) (split_slash (trim_slashes (normalize_path p))) 8 r s)"
        by (rule open_parts_keeps [OF opn s r(2)])
      then show "keeps held_node s (Some y)"
        using 1(2) g r kept_refl [OF s] by (cases "normalize_path p = ''/''") auto
    qed
  qed
  show ?thesis
  proof (cases "vfs_open reg path s")
    case (Some y)
    then show ?thesis
      using step [OF Some] assms by simp
  qed simp
qed

lemma open_nofollow_parts_keeps:
  "tree_ok s \<Longrightarrow> held_node s cur \<Longrightarrow> keeps held_node s (open_nofollow_parts reg parts cur s)"
proof (induction parts arbitrary: cur s)
  case (Cons part rest)
  let ?cont = "\<lambda>t s. case t of Some target \<Rightarrow> open_nofollow_parts reg rest target s | None \<Rightarrow> Some (Err NotFound, s)"
  show ?case
  proof (cases "part = []")
    case False
    have sym: "keeps held_node s' (ebind (vfs_resolve_symlink reg n s') ?cont)" if ok: "tree_ok s'" "held_node s' n" for s' n
      unfolding vfs_resolve_symlink_def
    proof (rule keeps_ebind [OF resolve_symlink_keeps [where opn = "vfs_open reg", OF ok vfs_open_keeps [OF ok(1)]]])
      fix t s2
      assume "kept s' s2" "pred_option (held_node s2) t"
      then show "keeps held_node s2 (?cont t s2)"
        using Cons.IH [of s2] kept_refl [of s2] kept_ok [of s' s2] by (cases t) simp_all
    qed
    have "keeps held_node s' (if rest = [] then Some (Ok nxt, s')
         else if vn_type (vs_nodes s' nxt) = Symlink then ebind (vfs_resolve_symlink reg nxt s') ?cont
         else open_nofollow_parts reg rest nxt s')" if "kept s s'" "held_node s' nxt" for s' nxt
      using sym [of s' nxt] Cons.IH [of s' nxt] kept_refl [of s'] kept_ok [OF that(1)] that(2) by simp
    from keeps_ebind [OF open_child_keeps [OF Cons.prems] this]
    show ?thesis
      using False by simp
  qed (use Cons in simp)
qed (simp add: kept_refl)

lemma vfs_open_nofollow_keeps:
  assumes "tree_ok s"
  shows "keeps held_node s (vfs_open_nofollow reg path s)"
proof -
  obtain r where r: "vs_root s = Some r" "held_node s r" "vn_parent (vs_nodes s r) = None"
    by (rule tree_ok_root [OF assms])
  show ?thesis
    using open_nofollow_parts_keeps [OF assms r(2)] kept_refl [OF assms] r(1,2) by (simp add: vfs_open_nofollow_def)
qed

section \<open>The other operations keep the tree\<close>

text \<open>A call into a file system that leaves the tree alone.\<close>

lemma with_fs_keeps:
  assumes "tree_ok s" "\<And>f r s'. f \<in> set reg \<Longrightarrow> call (fs_ops f) s = Some (r, s') \<Longrightarrow> same_tree s s'"
  shows "keeps (\<lambda>s' _. same_tree s s') s (with_fs reg fsid call s)"
proof (cases "get_filesystem_by_id reg fsid")
  case (Some f)
  have "same_tree s s'" if "call (fs_ops f) s = Some (r, s')" for r s'
    by (rule assms(2) [OF filesystem_in(1) [OF Some] that])
  then show ?thesis
    using kept_same' [OF assms(1)] by (simp add: with_fs_def Some keeps_def)
qed (simp add: with_fs_def kept_refl [OF assms(1)])

lemma same_tree_op:
  assumes "\<exists>r s'. m = Some (r, s') \<and> same_tree s s' \<and> Q s'" "m = Some (r, s')"
  shows "same_tree s s'"
  using assms by auto

lemmas mkdir_tree = same_tree_op [OF fs_backend.mkdir_ok [OF backend]]
  and mkfile_tree = same_tree_op [OF fs_backend.mkfile_ok [OF backend]]

lemma mkdir_parts_keeps:
  "tree_ok s \<Longrightarrow> held_node s cur \<Longrightarrow> keeps (\<lambda>_ _. True) s (mkdir_parts reg parts cur s)"
proof (induction parts arbitrary: cur s)
  case (Cons part rest)
  show ?case
  proof (cases "part = [] \<or> vfs_child_find cur part s \<noteq> None")
    case True
    then show ?thesis
      using Cons.IH [OF Cons.prems] Cons.IH [OF Cons.prems(1)] find_child_held [OF Cons.prems] kept_refl [OF Cons.prems(1)]
      by (cases "part = []") auto
  next
    case False
    obtain n s1 where a: "vfs_child_append cur part s = (n, s1)"
      by force
    define s2 where "s2 = upd_node n (vn_type_update (\<lambda>_. Dir)) s1"
    note k = child_append_kept [OF Cons.prems a]
    have k2: "kept s s2"
      unfolding s2_def by (rule kept_same [OF k(1) same_tree_upd]) simp_all
    have ok2: "tree_ok s2" "held_node s2 n"
      using kept_ok [OF k2] k(2) by (simp_all add: s2_def)
    have "keeps (\<lambda>_ _. True) s2 (ebind (with_fs reg (vn_fsid (vs_nodes s2 cur)) (\<lambda>ops. vo_mkdir ops cur part n) s2) (\<lambda>_ s.
        mkdir_parts reg rest n s))"
    proof (rule keeps_ebind [OF with_fs_keeps [OF ok2(1)]])
      show "same_tree s2 s'" if "f \<in> set reg" "vo_mkdir (fs_ops f) cur part n s2 = Some (r, s')" for f r s'
        by (rule mkdir_tree [OF that])
      show "keeps (\<lambda>_ _. True) s' (mkdir_parts reg rest n s')" if "kept s2 s'" for s'
        by (rule Cons.IH [OF kept_ok [OF that] kept_held [OF that ok2(2)]])
    qed
    from keeps_step [OF k2 this] show ?thesis
      using False by (simp add: a s2_def)
  qed
qed (simp add: kept_refl)

lemma vfs_mkdir_keeps:
  assumes "tree_ok s"
  shows "keeps (\<lambda>_ _. True) s (vfs_mkdir reg path s)"
proof -
  obtain r where r: "vs_root s = Some r" "held_node s r" "vn_parent (vs_nodes s r) = None"
    by (rule tree_ok_root [OF assms])
  show ?thesis
    using mkdir_parts_keeps [OF assms r(2)] r(1) by (simp add: vfs_mkdir_def)
qed

lemma vfs_mkfile_keeps:
  assumes "tree_ok s"
  shows "keeps held_node s (vfs_mkfile reg path s)"
proof -
  have fs: "keeps held_node s' (ebind (with_fs reg i (\<lambda>ops. vo_mkfile ops p name n) s') (\<lambda>_ s. Some (Ok n, s)))"
    if "tree_ok s'" "held_node s' n" for s' n p name i
  proof (rule keeps_ebind [OF with_fs_keeps [OF that(1)]])
    show "same_tree s' s2" if "f \<in> set reg" "vo_mkfile (fs_ops f) p name n s' = Some (r, s2)" for f r s2
      by (rule mkfile_tree [OF that])
    show "keeps held_node s2 (Some (Ok n, s2))" if "kept s' s2" for s2
      using kept_refl [OF kept_ok [OF that]] kept_held [OF that \<open>held_node s' n\<close>] by simp
  qed
  have "keeps held_node s' (if vfs_child_find p name s' \<noteq> None then Some (Err Exists, s')
      else let (node, s) = vfs_child_append p name s'
           in ebind (with_fs reg (vn_fsid (vs_nodes s p)) (\<lambda>ops. vo_mkfile ops p name node) s) (\<lambda>_ s. Some (Ok node, s)))"
    if "kept s s'" "held_node s' p" for s' p name
  proof -
    obtain n s2 where a: "vfs_child_append p name s' = (n, s2)"
      by force
    note k = child_append_kept [OF kept_ok [OF that(1)] that(2) a]
    show ?thesis
      using keeps_step [OF k(1) fs [OF kept_ok [OF k(1)] k(2)]] kept_refl [OF kept_ok [OF that(1)]] by (simp add: a)
  qed
  from keeps_ebind [OF vfs_open_keeps [OF assms] this] show ?thesis
    unfolding vfs_mkfile_def Let_def using kept_refl [OF assms] by simp
qed

text \<open>An operation that makes a node and then fills in fields outside the tree.\<close>

lemma mkfile_then:
  assumes "tree_ok s" "\<And>m. vn_parent (f m) = vn_parent m" "\<And>m. vn_children (f m) = vn_children m" "\<And>m. vn_linkto (f m) = vn_linkto m"
  shows "keeps held_node s (ebind (vfs_mkfile reg path s) (\<lambda>n s. Some (Ok n, upd_node n f s)))"
  by (rule keeps_ebind [OF vfs_mkfile_keeps [OF assms(1)]]) (simp add: kept_upd [OF _ assms(2-4)] kept_ok)

lemma vfs_symlink_keeps: "tree_ok s \<Longrightarrow> keeps held_node s (vfs_symlink reg target link_path s)"
  unfolding vfs_symlink_def by (rule mkfile_then) simp_all

lemma vfs_mknod_keeps: "tree_ok s \<Longrightarrow> keeps held_node s (vfs_mknod reg path mode dev s)"
  unfolding vfs_mknod_def by (rule mkfile_then) simp_all

lemma vfs_link_keeps:
  assumes "tree_ok s"
  shows "keeps held_node s (vfs_link reg target link_path s)"
  unfolding vfs_link_def
proof (rule keeps_ebind [OF vfs_open_keeps [OF assms]])
  fix t s1
  assume k1: "kept s s1" and t: "held_node s1 t"
  show "keeps held_node s1 (ebind (vfs_mkfile reg link_path s1) (\<lambda>n s.
      let m = vs_nodes s t in Some (Ok n, upd_node n (\<lambda>k. k\<lparr>vn_linkto := Some t, vn_type := vn_type m, vn_handle := vn_handle m,
             vn_size := vn_size m, vn_mode := vn_mode m\<rparr>) s)))"
  proof (rule keeps_ebind [OF vfs_mkfile_keeps [OF kept_ok [OF k1]]])
    fix n s2
    assume k2: "kept s1 s2" and n: "held_node s2 n"
    show "keeps held_node s2 (let m = vs_nodes s2 t in Some (Ok n, upd_node n (\<lambda>k. k\<lparr>vn_linkto := Some t, vn_type := vn_type m,
        vn_handle := vn_handle m, vn_size := vn_size m, vn_mode := vn_mode m\<rparr>) s2))"
      using n kept_link [OF kept_ok [OF k2] kept_held [OF k2 t]] by (simp add: Let_def)
  qed
qed

lemma vfs_delete_keeps:
  assumes "tree_ok s"
  shows "keeps (\<lambda>_ _. True) s (vfs_delete reg path s)"
  unfolding vfs_delete_def
proof (rule keeps_ebind [OF vfs_open_keeps [OF assms]])
  fix n s1
  assume k1: "kept s s1"
  have "keeps (\<lambda>_ _. True) s1 (ebind (with_fs reg i (\<lambda>ops. vo_delete ops p n) s1) (\<lambda>_ s. Some (Ok (), unlink_child p n s)))" for i p
  proof (rule keeps_ebind [OF with_fs_keeps [OF kept_ok [OF k1]]])
    show "same_tree s1 s2" if "f \<in> set reg" "vo_delete (fs_ops f) p n s1 = Some (r, s2)" for f r s2
      using fs_backend.delete_ok [OF backend [OF that(1)] that(2)] by simp
    show "keeps (\<lambda>_ _. True) s2 (Some (Ok (), unlink_child p n s2))" if "kept s1 s2" for s2
      using unlink_child_kept [OF kept_ok [OF that]] by simp
  qed
  then show "keeps (\<lambda>_ _. True) s1 (case Option.bind (vn_parent (vs_nodes s1 n)) (upgrade s1) of
        None \<Rightarrow> Some (Err Invalid, s1)
      | Some parent \<Rightarrow>
          if vn_type (vs_nodes s1 n) = Dir \<and> vn_children (vs_nodes s1 n) \<noteq> [] then Some (Err NotEmpty, s1)
          else ebind (with_fs reg (vn_fsid (vs_nodes s1 parent)) (\<lambda>ops. vo_delete ops parent n) s1) (\<lambda>_ s.
              Some (Ok (), unlink_child parent n s)))"
    using kept_refl [OF kept_ok [OF k1]] by (simp split: option.split)
qed

lemma vfs_rename_keeps:
  assumes "tree_ok s"
  shows "keeps (\<lambda>_ _. True) s (vfs_rename reg path new_name s)"
  unfolding vfs_rename_def
proof (rule keeps_ebind [OF vfs_open_keeps [OF assms]])
  fix n s1
  assume k1: "kept s s1"
  show "keeps (\<lambda>_ _. True) s1 (ebind (with_fs reg (vn_fsid (vs_nodes s1 n)) (\<lambda>ops. vo_rename ops n new_name) s1) (\<lambda>_ s.
      Some (Ok (), upd_node n (vn_name_update (\<lambda>_. new_name)) s)))"
  proof (rule keeps_ebind [OF with_fs_keeps [OF kept_ok [OF k1]]])
    show "same_tree s1 s2" if "f \<in> set reg" "vo_rename (fs_ops f) n new_name s1 = Some (r, s2)" for f r s2
      by (rule fs_backend.rename_ok [OF backend [OF that(1)] that(2)])
    show "keeps (\<lambda>_ _. True) s2 (Some (Ok (), upd_node n (vn_name_update (\<lambda>_. new_name)) s2))" if "kept s1 s2" for s2
      by (simp add: kept_upd kept_ok [OF that])
  qed
qed

lemma vfs_mount_keeps:
  assumes "tree_ok s" "held_node s n"
  shows "keeps (\<lambda>_ _. True) s (vfs_mount reg src fstype n s)"
proof (cases "get_filesystem reg fstype")
  case (Some f)
  define s1 where "s1 = upd_node n (\<lambda>m. m\<lparr>vn_fsid := fs_fsid f, vn_is_mount := True\<rparr>) s"
  have k1: "kept s s1"
    unfolding s1_def by (rule kept_upd [OF assms(1)]) simp_all
  show ?thesis
  proof (cases "vo_mount (fs_ops f) src n s1")
    case m: (Some x)
    obtain r s2 where x: "x = (r, s2)"
      by force
    have "kept s1 s2"
      using fs_backend.mount_ok [OF backend [OF filesystem_in(2) [OF Some]] kept_ok [OF k1] kept_held [OF k1 assms(2)]] m x
      by blast
    then have k2: "kept s s2"
      by (rule kept_trans [OF k1])
    have "kept s (upd_node n g s2)" if "g = (\<lambda>m. m\<lparr>vn_fsid := i, vn_is_mount := b\<rparr>)" for g i b
      unfolding that by (rule kept_trans [OF k2 kept_upd [OF kept_ok [OF k2]]]) simp_all
    then show ?thesis
      using k2 by (cases r) (simp_all add: vfs_mount_def Some Let_def m x flip: s1_def)
  qed (simp add: vfs_mount_def Some Let_def flip: s1_def)
qed (simp add: vfs_mount_def kept_refl [OF assms(1)])

lemma vfs_unmount_keeps:
  assumes "tree_ok s"
  shows "keeps (\<lambda>_ _. True) s (vfs_unmount reg path s)"
  unfolding vfs_unmount_def
proof (rule keeps_ebind [OF vfs_open_keeps [OF assms]])
  fix n s1
  assume k1: "kept s s1"
  let ?clear = "upd_node n (vn_is_mount_update (\<lambda>_. False))"
  show "keeps (\<lambda>_ _. True) s1 (case node_ops reg n s1 of
      Err e \<Rightarrow> Some (Err e, s1)
    | Ok ops \<Rightarrow> ebind (vo_unmount ops n s1) (\<lambda>_ s. Some (Ok (), ?clear s)))"
  proof (cases "get_filesystem_by_id reg (vn_fsid (vs_nodes s1 n))")
    case (Some f)
    have "keeps (\<lambda>_ _. True) s1 (vo_unmount (fs_ops f) n s1)"
      using fs_backend.unmount_ok [OF backend [OF filesystem_in(1) [OF Some]], of n s1] kept_same' [OF kept_ok [OF k1]]
      by (auto simp: keeps_def)
    then have "keeps (\<lambda>_ _. True) s1 (ebind (vo_unmount (fs_ops f) n s1) (\<lambda>_ s. Some (Ok (), ?clear s)))"
      by (rule keeps_ebind) (simp add: kept_upd kept_ok)
    then show ?thesis
      by (simp add: node_ops_def Some)
  qed (simp add: node_ops_def kept_refl [OF kept_ok [OF k1]])
qed

end

section \<open>Reachable states\<close>

text \<open>The last owner of a node that is in no directory lets go of it: its weak references are dead
  from then on, and the references to its children are dropped.\<close>

definition drop_node :: "nref \<Rightarrow> 'a VfsState_scheme \<Rightarrow> 'a VfsState_scheme" where
  "drop_node n s = (upd_node n (vn_children_update (\<lambda>_. [])) s)\<lparr>vs_live := (vs_live s)(n := False)\<rparr>"

inductive vfs_step :: "('a VfsState_scheme) fs_registry \<Rightarrow> 'a VfsState_scheme \<Rightarrow> 'a VfsState_scheme \<Rightarrow> bool" for reg where
  opens: "vfs_open reg path s = Some (r, s') \<Longrightarrow> vfs_step reg s s'"
| opens_nofollow: "vfs_open_nofollow reg path s = Some (r, s') \<Longrightarrow> vfs_step reg s s'"
| makes_dir: "vfs_mkdir reg path s = Some (d, s') \<Longrightarrow> vfs_step reg s s'"
| makes_file: "vfs_mkfile reg path s = Some (r, s') \<Longrightarrow> vfs_step reg s s'"
| links: "vfs_link reg target path s = Some (r, s') \<Longrightarrow> vfs_step reg s s'"
| symlinks: "vfs_symlink reg target path s = Some (r, s') \<Longrightarrow> vfs_step reg s s'"
| makes_device: "vfs_mknod reg path mode dev s = Some (r, s') \<Longrightarrow> vfs_step reg s s'"
| deletes: "vfs_delete reg path s = Some (d, s') \<Longrightarrow> vfs_step reg s s'"
| renames: "vfs_rename reg path name s = Some (d, s') \<Longrightarrow> vfs_step reg s s'"
| mounts: "held_node s n \<Longrightarrow> vfs_mount reg src fstype n s = Some (d, s') \<Longrightarrow> vfs_step reg s s'"
| unmounts: "vfs_unmount reg path s = Some (d, s') \<Longrightarrow> vfs_step reg s s'"
| drops: "vs_root s \<noteq> Some n \<Longrightarrow> (\<forall>m < vs_next s. n \<notin> set (vn_children (vs_nodes s m))) \<Longrightarrow> vfs_step reg s (drop_node n s)"

lemma drop_node_tree_ok:
  assumes "tree_ok s" "vs_root s \<noteq> Some n" "\<forall>m < vs_next s. n \<notin> set (vn_children (vs_nodes s m))"
  shows "tree_ok (drop_node n s)"
proof -
  obtain r where r: "vs_root s = Some r" "held_node s r" "vn_parent (vs_nodes s r) = None"
    by (rule tree_ok_root [OF assms(1)])
  have "node_ok (drop_node n s) m" if "m < vs_next s" for m
  proof -
    have "n \<notin> set (vn_children (vs_nodes s m))"
      using assms(3) that by blast
    then show ?thesis
      by (cases "m = n"; simp add: node_ok_def drop_node_def)
        (use tree_ok_node [OF assms(1) that] in \<open>unfold node_ok_def, blast\<close>)+
  qed
  then show ?thesis
    using r assms(2) by (auto simp: tree_ok_def drop_node_def held_node_def)
qed

context fs_backends
begin

lemmas step_keeps = vfs_open_keeps vfs_open_nofollow_keeps vfs_mkdir_keeps vfs_mkfile_keeps vfs_link_keeps vfs_symlink_keeps
  vfs_mknod_keeps vfs_delete_keeps vfs_rename_keeps vfs_mount_keeps vfs_unmount_keeps

lemma step_tree_ok: "vfs_step reg s s' \<Longrightarrow> tree_ok s \<Longrightarrow> tree_ok s'"
  by (induction rule: vfs_step.induct) (blast dest: step_keeps [THEN keepsD] kept_ok intro: drop_node_tree_ok)+

lemma reachable_tree_ok: "(vfs_step reg)\<^sup>*\<^sup>* s s' \<Longrightarrow> tree_ok s \<Longrightarrow> tree_ok s'"
  by (induction rule: rtranclp_induct) (auto intro: step_tree_ok)

end

section \<open>Paths through directories\<close>

text \<open>The directory that a list of names leads to.\<close>

fun descend :: "'a VfsState_scheme \<Rightarrow> nref \<Rightarrow> string list \<Rightarrow> nref option" where
  "descend s n [] = Some n"
| "descend s n (p # ps) =
    (case vfs_child_find n p s of
       Some c \<Rightarrow> if vn_type (vs_nodes s c) = Dir then descend s c ps else None
     | None \<Rightarrow> None)"

lemma not_name: "\<not> is_name []" "\<not> is_name ''/''"
  by (simp_all add: is_name_def)

lemma descend_snoc:
  "descend s n (ps @ [p]) = Option.bind (descend s n ps) (\<lambda>m.
    case vfs_child_find m p s of Some c \<Rightarrow> if vn_type (vs_nodes s c) = Dir then Some c else None | None \<Rightarrow> None)"
  by (induction ps arbitrary: n) (auto split: option.split)

lemma descend_held:
  "tree_ok s \<Longrightarrow> held_node s n \<Longrightarrow> descend s n ps = Some m \<Longrightarrow> held_node s m"
proof (induction ps arbitrary: n)
  case (Cons p ps)
  then obtain c where c: "vfs_child_find n p s = Some c" "descend s c ps = Some m"
    by (auto split: option.splits if_splits)
  show ?case
    by (rule Cons.IH [OF Cons.prems(1) find_child_held(1) [OF Cons.prems(1,2) c(1)] c(2)])
qed simp

lemma open_parts_descend:
  assumes "[] \<notin> set ps" "descend s n ps = Some m"
  shows "open_parts reg opn ps budget n s = Some (Ok m, s)"
  using assms by (induction ps arbitrary: n) (auto simp: open_child_def split: option.splits if_splits)

lemma vfs_open_descend:
  assumes "vs_root s = Some r" "descend s r (normalize_parts path) = Some n"
  shows "vfs_open reg path s = Some (Ok n, s)"
proof -
  have "[] \<notin> set (normalize_parts path)"
    using normalize_parts_names not_name(1) by blast
  then show ?thesis
    using assms open_parts_descend [of "normalize_parts path" s r n]
    by (subst vfs_open.simps) (auto simp: normalize_eq_root split_trim_normalize)
qed

text \<open>Going up again gives the names back.\<close>

lemma fullpath_descend:
  assumes "tree_ok s" "held_node s r" "vn_name (vs_nodes s r) = ''/''" "vn_parent (vs_nodes s r) = None"
    "descend s r ps = Some n" "''/'' \<notin> set ps"
  shows "fullpath_loop s (Some n) acc = Some (acc @ rev ps)"
  using assms(5,6)
proof (induction ps arbitrary: n acc rule: rev_induct)
  case Nil
  then show ?case
    using assms(3,4) by (subst fullpath_loop.simps) (simp add: fullpath_loop.simps)
next
  case (snoc p ps)
  then obtain m where m: "descend s r ps = Some m" "vfs_child_find m p s = Some n"
    by (auto simp: descend_snoc bind_eq_Some_conv split: option.splits if_splits)
  have h: "held_node s m"
    by (rule descend_held [OF assms(1,2) m(1)])
  have "p \<noteq> ''/''"
    using snoc.prems(2) by auto
  have "fullpath_loop s (Some n) acc = fullpath_loop s (Some m) (acc @ [p])"
    using find_child [OF m(2)] find_child_held [OF assms(1) h m(2)] h \<open>p \<noteq> ''/''\<close>
    by (subst fullpath_loop.simps) (simp add: upgrade_def held_node_def)
  also have "\<dots> = Some (acc @ rev (ps @ [p]))"
    using snoc.IH [OF m(1)] snoc.prems(2) by simp
  finally show ?case .
qed

lemma last_join_names:
  assumes "\<forall>p \<in> set ps. is_name p" "ps \<noteq> []"
  shows "last (join_slash ps) \<noteq> slash"
  using assms
proof (induction ps rule: join_slash.induct)
  case (2 p)
  then show ?case
    unfolding is_name_def by (metis join_slash.simps(2) last_in_set list.set_intros(1))
next
  case (3 p q ps)
  then show ?case
    using join_names_Nil [of "q # ps"] by simp
qed simp

lemma get_fullpath_descend:
  assumes "tree_ok s" "vs_root s = Some r" "vn_name (vs_nodes s r) = ''/''" "descend s r (normalize_parts path) = Some n"
  shows "vfs_get_fullpath n s = Some (abs_path path)"
proof -
  let ?ps = "normalize_parts path"
  have nms: "\<forall>p \<in> set ?ps. is_name p"
    using normalize_parts_names by blast
  then have ns: "''/'' \<notin> set ?ps"
    using not_name(2) by blast
  have r: "held_node s r" "vn_parent (vs_nodes s r) = None"
    using tree_ok_rootD [OF assms(1,2)] by blast+
  have "\<not> (1 < length (slash # join_slash ?ps) \<and> ends_with_slash (slash # join_slash ?ps))"
    using last_join_names [OF nms] by (cases "?ps = []") (auto simp: ends_with_slash_def)
  then have "vfs_get_fullpath n s = Some (slash # join_slash ?ps)"
    using fullpath_descend [OF assms(1) r(1) assms(3) r(2) assms(4) ns, of "[]"] by (auto simp: vfs_get_fullpath_def Let_def)
  also have "slash # join_slash ?ps = abs_path path"
    using starts_with_normalize [of path]
    by (cases "starts_with_slash path"; cases "?ps = []") (simp_all add: abs_path_def Let_def normalize_path_abs normalize_path_rel)
  finally show ?thesis .
qed

lemma parts_abs_path: "split_slash (trim_slashes (abs_path path)) = (if normalize_parts path = [] then [[]] else normalize_parts path)"
proof -
  have "trim_slashes (abs_path path) = trim_slashes (normalize_path path)"
    by (simp add: abs_path_def Let_def trim_slashes_def)
  then show ?thesis
    by (simp add: split_trim_normalize)
qed

section \<open>Making a directory\<close>

text \<open>Nodes are only added: names stay, directories stay directories, and new children come last.\<close>

definition node_grows :: "VfsNodeMeta \<Rightarrow> VfsNodeMeta \<Rightarrow> bool" where
  "node_grows m m' \<longleftrightarrow> vn_name m' = vn_name m \<and> (vn_type m = Dir \<longrightarrow> vn_type m' = Dir) \<and> prefix (vn_children m) (vn_children m')"

definition grows :: "'a VfsState_scheme \<Rightarrow> 'a VfsState_scheme \<Rightarrow> bool" where
  "grows s s' \<longleftrightarrow> vs_next s \<le> vs_next s' \<and> vs_root s' = vs_root s \<and> (\<forall>n < vs_next s. node_grows (vs_nodes s n) (vs_nodes s' n))"

lemma node_grows_refl [simp]: "node_grows m m"
  by (simp add: node_grows_def)

lemma node_grows_trans: "node_grows a b \<Longrightarrow> node_grows b c \<Longrightarrow> node_grows a c"
  by (auto simp: node_grows_def)

lemma grows_refl [simp]: "grows s s"
  by (simp add: grows_def)

lemma growsD: "grows s s' \<Longrightarrow> n < vs_next s \<Longrightarrow> node_grows (vs_nodes s n) (vs_nodes s' n)"
  by (simp add: grows_def)

lemma grows_trans:
  assumes "grows s s1" "grows s1 s2"
  shows "grows s s2"
proof -
  have "node_grows (vs_nodes s n) (vs_nodes s2 n)" if "n < vs_next s" for n
    using growsD [OF assms(1) that] growsD [OF assms(2), of n] assms(1) that node_grows_trans
    unfolding grows_def by (meson order_less_le_trans)
  then show ?thesis
    using assms by (simp add: grows_def)
qed

lemma find_append: "List.find P xs = Some x \<Longrightarrow> List.find P (xs @ ys) = Some x"
  by (induction xs) auto

lemma find_append_None: "List.find P xs = None \<Longrightarrow> List.find P (xs @ ys) = List.find P ys"
  by (induction xs) (auto split: if_splits)

lemma find_cong: "(\<And>x. x \<in> set xs \<Longrightarrow> P x = Q x) \<Longrightarrow> List.find P xs = List.find Q xs"
  by (induction xs) auto

lemma find_child_grows:
  assumes "tree_ok s" "held_node s n" "grows s s'" "vfs_child_find n p s = Some c"
  shows "vfs_child_find n p s' = Some c"
proof -
  have n: "n < vs_next s"
    using assms(2) by (simp add: held_node_def)
  obtain new where new: "vn_children (vs_nodes s' n) = vn_children (vs_nodes s n) @ new"
    using growsD [OF assms(3) n] unfolding node_grows_def prefix_def by blast
  have "List.find (\<lambda>m. vn_name (vs_nodes s' m) = p) (vn_children (vs_nodes s n))
      = List.find (\<lambda>m. vn_name (vs_nodes s m) = p) (vn_children (vs_nodes s n))"
  proof (rule find_cong)
    fix x
    assume "x \<in> set (vn_children (vs_nodes s n))"
    then have "x < vs_next s"
      using tree_ok_child [OF assms(1) n, of x] by (simp add: held_node_def)
    then show "(vn_name (vs_nodes s' x) = p) = (vn_name (vs_nodes s x) = p)"
      using growsD [OF assms(3), of x] by (simp add: node_grows_def)
  qed
  then show ?thesis
    using assms(4) by (simp add: vfs_child_find_def new find_append)
qed

lemma type_grows: "grows s s' \<Longrightarrow> held_node s n \<Longrightarrow> vn_type (vs_nodes s n) = Dir \<Longrightarrow> vn_type (vs_nodes s' n) = Dir"
  using growsD [of s s' n] by (simp add: held_node_def node_grows_def)

text \<open>A directory added to another one, and the call into the file system.\<close>

definition same_dirs :: "'a VfsState_scheme \<Rightarrow> 'a VfsState_scheme \<Rightarrow> bool" where
  "same_dirs s s' \<longleftrightarrow> vs_root s' = vs_root s \<and> vs_next s' = vs_next s \<and> (\<forall>n. vn_children (vs_nodes s' n) = vn_children (vs_nodes s n))"

lemma same_tree_dirs: "same_tree s s' \<Longrightarrow> same_dirs s s'"
  by (simp add: same_tree_def same_dirs_def)

lemma append_find:
  assumes "tree_ok s" "held_node s cur" "vfs_child_find cur part s = None" "vfs_child_append cur part s = (n, s1)"
    "same_dirs s1 s3" "same_names s1 s3"
  shows "vfs_child_find cur part s3 = Some n"
proof -
  note sim = child_append_simps [OF assms(4,2)]
  have nm: "vn_name (vs_nodes s3 m) = vn_name (vs_nodes s m)" if "m \<noteq> n" for m
    using assms(6) sim(5) [OF that] sim(6) by (cases "m = cur") (simp_all add: same_names_def)
  have "vn_name (vs_nodes s3 x) \<noteq> part" if x: "x \<in> set (vn_children (vs_nodes s cur))" for x
  proof -
    have "x < vs_next s"
      using tree_ok_child [OF assms(1) _ x] assms(2) unfolding held_node_def by blast
    then have "vn_name (vs_nodes s3 x) = vn_name (vs_nodes s x)"
      using nm [of x] sim(1) by simp
    then show ?thesis
      using assms(3) x by (simp add: vfs_child_find_def find_None_iff)
  qed
  then have "List.find (\<lambda>m. vn_name (vs_nodes s3 m) = part) (vn_children (vs_nodes s cur)) = None"
    by (simp add: find_None_iff)
  moreover have "vn_name (vs_nodes s3 n) = part"
    using assms(6) sim(7) by (simp add: same_names_def)
  moreover have "vn_children (vs_nodes s3 cur) = vn_children (vs_nodes s cur) @ [n]"
    using assms(5) sim(6) by (simp add: same_dirs_def)
  ultimately show ?thesis
    by (simp add: vfs_child_find_def find_append_None)
qed

lemma append_grows:
  assumes "held_node s cur" "vfs_child_append cur part s = (n, s1)" "same_dirs s1 s3" "same_names s1 s3" "same_types n s1 s3"
  shows "grows s s3"
proof -
  note sim = child_append_simps [OF assms(2,1)]
  have "node_grows (vs_nodes s m) (vs_nodes s3 m)" if "m < vs_next s" for m
  proof (cases "m = cur")
    case True
    then show ?thesis
      using assms(3-5) sim(6,12) by (simp add: node_grows_def same_dirs_def same_names_def same_types_def)
  next
    case False
    then show ?thesis
      using assms(3-5) sim(1) sim(5) [of m] that by (simp add: node_grows_def same_dirs_def same_names_def same_types_def)
  qed
  then show ?thesis
    using assms(3) sim(2,3) by (simp add: grows_def same_dirs_def)
qed

lemma set_type_same:
  "same_tree s (upd_node n (vn_type_update f) s)" "same_names s (upd_node n (vn_type_update f) s)"
  "same_types n s (upd_node n (vn_type_update f) s)"
  by (simp_all add: same_tree_def same_names_def same_types_def)

lemma same_trans:
  "same_tree s s1 \<Longrightarrow> same_tree s1 s2 \<Longrightarrow> same_tree s s2"
  "same_names s s1 \<Longrightarrow> same_names s1 s2 \<Longrightarrow> same_names s s2"
  "same_types n s s1 \<Longrightarrow> same_types n s1 s2 \<Longrightarrow> same_types n s s2"
  by (simp_all add: same_tree_def same_names_def same_types_def)

context fs_backends
begin

text \<open>The call of \<open>mkdir\<close> on a fresh directory returns and leaves it a directory.\<close>

lemma with_mkdir_returns:
  "\<exists>r s'. with_fs reg i (\<lambda>ops. vo_mkdir ops cur part n) s = Some (r, s') \<and> same_tree s s' \<and> same_names s s' \<and> same_types n s s'
    \<and> (vn_type (vs_nodes s n) = Dir \<longrightarrow> vn_type (vs_nodes s' n) = Dir)"
proof (cases "get_filesystem_by_id reg i")
  case (Some f)
  show ?thesis
    using fs_backend.mkdir_ok [OF backend [OF filesystem_in(1) [OF Some]], of cur part n s] by (simp add: with_fs_def Some)
qed (simp add: with_fs_def)

lemma with_mkfile_returns:
  "\<exists>r s'. with_fs reg i (\<lambda>ops. vo_mkfile ops cur part n) s = Some (r, s') \<and> same_tree s s' \<and> same_names s s'"
proof (cases "get_filesystem_by_id reg i")
  case (Some f)
  show ?thesis
    using fs_backend.mkfile_ok [OF backend [OF filesystem_in(1) [OF Some]], of cur part n s] by (auto simp: with_fs_def Some)
qed (simp add: with_fs_def)

lemma mkdir_parts_returns:
  assumes "tree_ok s" "held_node s cur" "[] \<notin> set parts"
  shows "\<exists>r s'. mkdir_parts reg parts cur s = Some (r, s') \<and> grows s s'
    \<and> (r = Ok () \<longrightarrow> (\<exists>n. descend s' cur parts = Some n \<and> (parts \<noteq> [] \<longrightarrow> vn_type (vs_nodes s' n) = Dir)))"
  using assms
proof (induction parts arbitrary: cur s)
  case (Cons part rest)
  have part: "part \<noteq> []" "[] \<notin> set rest"
    using Cons.prems(3) by auto
  have below: "\<exists>r s'. mkdir_parts reg rest n s3 = Some (r, s') \<and> grows s s'
      \<and> (r = Ok () \<longrightarrow> (\<exists>m. descend s' cur (part # rest) = Some m \<and> vn_type (vs_nodes s' m) = Dir))"
    if s3: "kept s s3" "grows s s3" "vfs_child_find cur part s3 = Some n" "vn_type (vs_nodes s3 n) = Dir" for n s3
  proof -
    have ok3: "tree_ok s3" "held_node s3 cur"
      using kept_ok [OF s3(1)] kept_held [OF s3(1) Cons.prems(2)] .
    have n: "held_node s3 n"
      by (rule find_child_held(1) [OF ok3 s3(3)])
    obtain r s' where IH: "mkdir_parts reg rest n s3 = Some (r, s')" "grows s3 s'"
        "r = Ok () \<longrightarrow> (\<exists>m. descend s' n rest = Some m \<and> (rest \<noteq> [] \<longrightarrow> vn_type (vs_nodes s' m) = Dir))"
      using Cons.IH [OF ok3(1) n part(2)] by blast
    have "vfs_child_find cur part s' = Some n" "vn_type (vs_nodes s' n) = Dir"
      using find_child_grows [OF ok3 IH(2) s3(3)] type_grows [OF IH(2) n s3(4)] by simp_all
    moreover have "m = n" if "descend s' n rest = Some m" "rest = []" for m
      using that by simp
    ultimately show ?thesis
      using IH grows_trans [OF s3(2) IH(2)] by (cases "rest = []") auto
  qed
  show ?case
  proof (cases "vfs_child_find cur part s")
    case (Some c)
    then show ?thesis
      using below [OF kept_refl [OF Cons.prems(1)] grows_refl Some] part(1) by (cases "vn_type (vs_nodes s c) = Dir") auto
  next
    case None
    obtain n s1 where a: "vfs_child_append cur part s = (n, s1)"
      by force
    let ?s2 = "upd_node n (vn_type_update (\<lambda>_. Dir)) s1"
    obtain r s3 where w: "with_fs reg (vn_fsid (vs_nodes ?s2 cur)) (\<lambda>ops. vo_mkdir ops cur part n) ?s2 = Some (r, s3)"
        "same_tree ?s2 s3" "same_names ?s2 s3" "same_types n ?s2 s3" "vn_type (vs_nodes s3 n) = Dir"
      using with_mkdir_returns [of "vn_fsid (vs_nodes ?s2 cur)" cur part n ?s2] by auto
    have same: "same_tree s1 s3" "same_names s1 s3" "same_types n s1 s3"
      using same_trans(1) [OF set_type_same(1) w(2)] same_trans(2) [OF set_type_same(2) w(3)] same_trans(3) [OF set_type_same(3) w(4)] .
    note g = append_grows [OF Cons.prems(2) a same_tree_dirs [OF same(1)] same(2,3)]
      append_find [OF Cons.prems(1,2) None a same_tree_dirs [OF same(1)] same(2)]
    have "kept s ?s2"
      by (rule kept_same [OF child_append_kept(1) [OF Cons.prems(1,2) a] same_tree_upd]) simp_all
    then have k: "kept s s3"
      by (rule kept_same [OF _ w(2)])
    have eq: "mkdir_parts reg (part # rest) cur s = ebind (Some (r, s3)) (\<lambda>_ s. mkdir_parts reg rest n s)"
      using None part(1) a w(1) by simp
    show ?thesis
      using below [OF k g w(5)] g(1) unfolding eq by (cases r) auto
  qed
qed simp

lemma mkdir_then_open:
  assumes "tree_ok s" "vs_root s = Some r" "vn_name (vs_nodes s r) = ''/''" "vn_type (vs_nodes s r) = Dir"
  shows "\<exists>d s'. vfs_mkdir reg path s = Some (d, s') \<and> (d = Ok () \<longrightarrow> (\<exists>n. vfs_open reg path s' = Some (Ok n, s')
    \<and> vn_type (vs_nodes s' n) = Dir \<and> vfs_get_fullpath n s' = Some (abs_path path)))"
proof -
  let ?parts = "normalize_parts path"
  have r: "held_node s r"
    using tree_ok_rootD [OF assms(1,2)] by blast
  have ne: "[] \<notin> set ?parts"
    using normalize_parts_names not_name(1) by blast
  have eq: "vfs_mkdir reg path s = mkdir_parts reg ?parts r s"
    by (simp add: vfs_mkdir_def assms(2) parts_abs_path)
  obtain d s' where d: "mkdir_parts reg ?parts r s = Some (d, s')" "grows s s'"
      "d = Ok () \<longrightarrow> (\<exists>n. descend s' r ?parts = Some n \<and> (?parts \<noteq> [] \<longrightarrow> vn_type (vs_nodes s' n) = Dir))"
    using mkdir_parts_returns [OF assms(1) r ne] by blast
  have ok: "tree_ok s'"
    using mkdir_parts_keeps [OF assms(1) r, of ?parts] keepsD [OF _ d(1)] kept_ok by blast
  have root: "vs_root s' = Some r" "vn_name (vs_nodes s' r) = ''/''" "vn_type (vs_nodes s' r) = Dir"
    using d(2) growsD [OF d(2), of r] r assms(2-4) by (simp_all add: grows_def node_grows_def held_node_def)
  have "\<exists>n. vfs_open reg path s' = Some (Ok n, s') \<and> vn_type (vs_nodes s' n) = Dir \<and> vfs_get_fullpath n s' = Some (abs_path path)"
    if dir: "d = Ok ()"
  proof -
    obtain n where n: "descend s' r ?parts = Some n" "?parts \<noteq> [] \<longrightarrow> vn_type (vs_nodes s' n) = Dir"
      using d(3) dir by blast
    then have "vn_type (vs_nodes s' n) = Dir"
      using root(3) by (cases "?parts = []") auto
    then show ?thesis
      using vfs_open_descend [OF root(1) n(1)] get_fullpath_descend [OF ok root(1,2) n(1)] by blast
  qed
  then show ?thesis
    using eq d(1) by auto
qed

end

section \<open>A symbolic link to itself\<close>

lemma name_parts: "is_name p \<Longrightarrow> normalize_parts (slash # p) = [p]"
  using normalize_parts_join [of "[p]"] by (simp add: normalize_parts_slash)

text \<open>Files in the root directory.\<close>

lemma vfs_open_name:
  assumes "vs_root s = Some r" "is_name nm" "vfs_child_find r nm s = Some n" "vn_type (vs_nodes s n) \<noteq> Symlink"
  shows "vfs_open reg (slash # nm) s = Some (Ok n, s)"
proof -
  have "normalize_path (slash # nm) \<noteq> ''/''" "split_slash (trim_slashes (normalize_path (slash # nm))) = [nm]"
    using name_parts [OF assms(2)] by (simp_all add: normalize_eq_root split_trim_normalize)
  then show ?thesis
    using assms by (subst vfs_open.simps) (simp add: open_child_def is_name_def)
qed

lemma vfs_mkfile_name:
  assumes "vs_root s = Some r" "is_name nm"
  shows "vfs_mkfile reg (slash # nm) s =
    (if vfs_child_find r nm s \<noteq> None then Some (Err Exists, s)
     else let (node, s1) = vfs_child_append r nm s
          in ebind (with_fs reg (vn_fsid (vs_nodes s1 r)) (\<lambda>ops. vo_mkfile ops r nm node) s1) (\<lambda>_ s. Some (Ok node, s)))"
proof -
  have "vfs_open reg ''/'' s = Some (Ok r, s)"
    by (subst vfs_open.simps) (simp add: assms(1) normalize_path_def Let_def normalize_parts_def normalize_step_def)
  moreover have "split_slash (trim_slashes (abs_path (slash # nm))) = [nm]"
    by (simp add: parts_abs_path name_parts [OF assms(2)])
  ultimately show ?thesis
    by (simp add: vfs_mkfile_def)
qed

text \<open>Resolving the link opens the path that is being opened, with a fresh budget: no approximation of
  the recursion gives a result.\<close>

lemma symlink_loop_None:
  assumes root: "vs_root s = Some r" and name: "is_name nm" and find: "vfs_child_find r nm s = Some n"
    and n: "vn_type (vs_nodes s n) = Symlink" "vn_linkto (vs_nodes s n) = None" "vn_linkto_path (vs_nodes s n) = Some (slash # nm)"
  shows "vfs_open reg (slash # nm) s = None"
proof -
  have no: "p = slash # nm \<longrightarrow> s1 \<noteq> s" if "vfs_open g p s1 = Some y" for g p s1 y
  proof (rule vfs_open.raw_induct [where P = "\<lambda>g p s1 y. p = slash # nm \<longrightarrow> s1 \<noteq> s", OF _ that], goal_cases)
    case (1 opn g p s1 y)
    have opn: "opn g (slash # nm) s = None"
      using 1(1) [of g "slash # nm" s] by (cases "opn g (slash # nm) s") auto
    have parts: "normalize_path (slash # nm) \<noteq> ''/''" "split_slash (trim_slashes (normalize_path (slash # nm))) = [nm]"
      using name_parts [OF name] by (simp_all add: normalize_eq_root split_trim_normalize)
    have "resolve_symlink (opn g) n s = None"
      using n opn
      by (cases "case Option.bind (vn_parent (vs_nodes s n)) (upgrade s) of Some p \<Rightarrow> vfs_get_fullpath p s | None \<Rightarrow> Some ''/''")
        (simp_all add: resolve_symlink_def Let_def starts_with_slash_def)
    then have "open_parts g (opn g) [nm] 8 r s = None"
      using find n(1) name by (simp add: open_child_def is_name_def)
    then show ?case
      using 1(2) parts root by auto
  qed
  show ?thesis
    using no [of reg "slash # nm" s] by (cases "vfs_open reg (slash # nm) s") auto
qed

context fs_backends
begin

lemma symlink_to_itself:
  assumes "tree_ok s" "is_name nm" "vfs_symlink reg (slash # nm) (slash # nm) s = Some (Ok n, s')"
  shows "vfs_open reg (slash # nm) s' = None"
proof -
  obtain r where r: "vs_root s = Some r" "held_node s r" "vn_parent (vs_nodes s r) = None"
    by (rule tree_ok_root [OF assms(1)])
  obtain m s1 where a: "vfs_child_append r nm s = (m, s1)"
    by force
  note sim = child_append_simps [OF a r(2)]
  obtain q s2 where w: "with_fs reg (vn_fsid (vs_nodes s1 r)) (\<lambda>ops. vo_mkfile ops r nm m) s1 = Some (q, s2)"
      "same_tree s1 s2" "same_names s1 s2"
    using with_mkfile_returns by blast
  have mk: "vfs_mkfile reg (slash # nm) s
      = (if vfs_child_find r nm s \<noteq> None then Some (Err Exists, s) else ebind (Some (q, s2)) (\<lambda>_ s. Some (Ok m, s)))"
    using w(1) by (simp add: vfs_mkfile_name [OF r(1) assms(2)] a)
  have none: "vfs_child_find r nm s = None" and n: "n = m"
    and s': "s' = upd_node m (\<lambda>k. k\<lparr>vn_type := Symlink, vn_linkto_path := Some (slash # nm)\<rparr>) s2"
    using assms(3) by (cases q; auto simp: vfs_symlink_def mk split: if_splits)+
  have s2: "vs_root s2 = Some r" "vn_linkto (vs_nodes s2 m) = None"
    using w(2) r(1) sim(3,11) by (simp_all add: same_tree_def)
  have "vfs_child_find r nm s' = Some m"
  proof (rule append_find [OF assms(1) r(2) none a])
    show "same_dirs s1 s'" "same_names s1 s'"
      using w(2,3) by (simp_all add: s' same_tree_def same_dirs_def same_names_def)
  qed
  then show ?thesis
    using symlink_loop_None [OF _ assms(2), of s' r m] s2 by (simp add: s')
qed

end

end
