(* ===== verification/Tmpfs.thy ===== *)
theory Tmpfs
  imports VfsTree
begin

text \<open>
  The file system in memory (\<open>kernel_fs/src/fs/tmpfs.rs\<close>) and the heap of boxes that the handles of
  all file systems point into. A handle is an address; reading it as a box of the wrong file system,
  or after the box was freed, is undefined in the source and has no result here. The memory for the
  boxes and the data of files is taken to be there, up to the size limit of a vector.
\<close>

section \<open>The boxes behind the handles\<close>

datatype TmpfsKind = TDir | TFile | TSymlink | TChar | TBlock

record TmpfsFile =
  tf_kind :: TmpfsKind
  tf_data :: "u8 list"
  tf_link_count :: nat

datatype DevTmpKind = DDir | DFile | DSymlink | DDevice

record DevTmpHandle =
  dt_kind :: DevTmpKind
  dt_dev :: "nat option"
  dt_open_fn :: "nat option"

record PipeEnd =
  pe_pipe :: nat
  pe_write :: bool

datatype fs_box = TmpfsBox TmpfsFile | DevTmpBox DevTmpHandle | PipeBox PipeEnd | SockBox nat

record FsState = VfsState +
  fs_boxes :: "nat \<Rightarrow> fs_box option"
  fs_next_box :: nat

text \<open>\<open>Box::into_raw(Box::new(..))\<close> stored in a node, and \<open>drop(Box::from_raw(..))\<close>; a box is freed
  once.\<close>

definition store_box :: "nref \<Rightarrow> fs_box \<Rightarrow> 'a FsState_scheme \<Rightarrow> 'a FsState_scheme" where
  "store_box node b s =
    (let ptr = Suc (fs_next_box s)
     in upd_node node (vn_handle_update (\<lambda>_. Some ptr))
          (s\<lparr>fs_boxes := (fs_boxes s)(ptr \<mapsto> b), fs_next_box := ptr\<rparr>))"

definition free_box :: "nat \<Rightarrow> 'a FsState_scheme \<Rightarrow> 'a FsState_scheme option" where
  "free_box ptr s = (if fs_boxes s ptr = None then None else Some (s\<lparr>fs_boxes := (fs_boxes s)(ptr := None)\<rparr>))"

text \<open>The box of a node's handle, for the file system that knows how to read it.\<close>

definition read_handle :: "(fs_box \<Rightarrow> 'b option) \<Rightarrow> nref \<Rightarrow> 'a FsState_scheme \<Rightarrow> 'b VfsResult option" where
  "read_handle cast node s =
    (case vn_handle (vs_nodes s node) of
       None \<Rightarrow> Some (Err Invalid)
     | Some ptr \<Rightarrow>
         if ptr = 0 then Some (Err Invalid)
         else case Option.bind (fs_boxes s ptr) cast of Some b \<Rightarrow> Some (Ok b) | None \<Rightarrow> None)"

definition drop_handle :: "nref \<Rightarrow> 'a FsState_scheme \<Rightarrow> 'a FsState_scheme option" where
  "drop_handle node s =
    (let ptr = (case vn_handle (vs_nodes s node) of Some p \<Rightarrow> p | None \<Rightarrow> 0);
         s = upd_node node (vn_handle_update (\<lambda>_. None)) s
     in if ptr \<noteq> 0 then free_box ptr s else Some s)"

section \<open>Handles of tmpfs\<close>

definition tmpfs_new_file :: "TmpfsKind \<Rightarrow> TmpfsFile" where
  "tmpfs_new_file kind = \<lparr>tf_kind = kind, tf_data = [], tf_link_count = 1\<rparr>"

fun as_tmpfs :: "fs_box \<Rightarrow> TmpfsFile option" where
  "as_tmpfs (TmpfsBox f) = Some f"
| "as_tmpfs _ = None"

definition tmpfs_get_handle :: "nref \<Rightarrow> 'a FsState_scheme \<Rightarrow> TmpfsFile VfsResult option" where
  "tmpfs_get_handle = read_handle as_tmpfs"

definition tmpfs_set_handle :: "nref \<Rightarrow> TmpfsFile \<Rightarrow> 'a FsState_scheme \<Rightarrow> 'a FsState_scheme" where
  "tmpfs_set_handle node file s = store_box node (TmpfsBox file) s"

text \<open>Writing through the reference that \<open>get_handle\<close> gave.\<close>

definition tmpfs_put_file :: "nref \<Rightarrow> TmpfsFile \<Rightarrow> 'a FsState_scheme \<Rightarrow> 'a FsState_scheme" where
  "tmpfs_put_file node file s =
    (case vn_handle (vs_nodes s node) of
       Some ptr \<Rightarrow> s\<lparr>fs_boxes := (fs_boxes s)(ptr \<mapsto> TmpfsBox file)\<rparr>
     | None \<Rightarrow> s)"

definition dec_link :: "TmpfsFile \<Rightarrow> bool \<times> TmpfsFile" where
  "dec_link file =
    (if tf_link_count file > 1 then (False, file\<lparr>tf_link_count := tf_link_count file - 1\<rparr>) else (True, file))"

text \<open>The step that \<open>delete\<close> and the walk of \<open>unmount\<close> share.\<close>

definition tmpfs_unlink :: "nref \<Rightarrow> 'a FsState_scheme \<Rightarrow> 'a FsState_scheme option" where
  "tmpfs_unlink node s =
    (case vn_handle (vs_nodes s node) of
       None \<Rightarrow> Some s
     | Some ptr \<Rightarrow>
         (case Option.bind (fs_boxes s ptr) as_tmpfs of
            None \<Rightarrow> None
          | Some file \<Rightarrow>
              (let (gone, file) = dec_link file;
                   s = s\<lparr>fs_boxes := (fs_boxes s)(ptr \<mapsto> TmpfsBox file)\<rparr>
               in if gone then free_box ptr (upd_node node (vn_handle_update (\<lambda>_. None)) s) else Some s)))"

section \<open>Operations\<close>

definition tmpfs_mount :: "string option \<Rightarrow> nref \<Rightarrow> 'a FsState_scheme \<Rightarrow> (unit VfsResult \<times> 'a FsState_scheme) option" where
  "tmpfs_mount src node s =
    Some (Ok (), upd_node node (vn_type_update (\<lambda>_. Dir)) (tmpfs_set_handle node (tmpfs_new_file TDir) s))"

fun fold_opt :: "('x \<Rightarrow> 's \<Rightarrow> 's option) \<Rightarrow> 'x list \<Rightarrow> 's \<Rightarrow> 's option" where
  "fold_opt f [] s = Some s"
| "fold_opt f (x # xs) s = Option.bind (f x s) (fold_opt f xs)"

lemma fold_opt_mono [partial_function_mono]:
  assumes "\<And>x s. mono_option (\<lambda>g. F g x s)"
  shows "mono_option (\<lambda>g. fold_opt (\<lambda>x s. F g x s) xs s)"
  using assms by (induction xs arbitrary: s) (auto intro!: bind_mono option.const_mono)

text \<open>The walk of \<open>unmount\<close> from a node: its children first, then its own handle.\<close>

partial_function (option) tmpfs_walk :: "nref \<Rightarrow> 'a FsState_scheme \<Rightarrow> 'a FsState_scheme option" where
  "tmpfs_walk n s =
    Option.bind (fold_opt (\<lambda>c s. tmpfs_walk c s) (vn_children (vs_nodes s n)) s) (\<lambda>s. tmpfs_unlink n s)"

definition tmpfs_unmount :: "nref \<Rightarrow> 'a FsState_scheme \<Rightarrow> (unit VfsResult \<times> 'a FsState_scheme) option" where
  "tmpfs_unmount node s = do { s \<leftarrow> tmpfs_walk node s; Some (Ok (), s) }"

text \<open>A fresh file of some kind for a node, and the node's type.\<close>

definition tmpfs_make :: "TmpfsKind \<Rightarrow> VfsNodeType \<Rightarrow> nref \<Rightarrow> 'a FsState_scheme \<Rightarrow> (unit VfsResult \<times> 'a FsState_scheme) option" where
  "tmpfs_make kind ty node s =
    Some (Ok (), upd_node node (vn_type_update (\<lambda>_. ty)) (tmpfs_set_handle node (tmpfs_new_file kind) s))"

definition tmpfs_node_type :: "TmpfsKind \<Rightarrow> VfsNodeType" where
  "tmpfs_node_type kind =
    (case kind of TDir \<Rightarrow> Dir | TFile \<Rightarrow> NodeNone | TSymlink \<Rightarrow> Symlink | TChar \<Rightarrow> Stream | TBlock \<Rightarrow> Block)"

definition tmpfs_stat :: "nref \<Rightarrow> 'a FsState_scheme \<Rightarrow> (unit VfsResult \<times> 'a FsState_scheme) option" where
  "tmpfs_stat node s =
    do {
      h \<leftarrow> tmpfs_get_handle node s;
      (case h of
         Err e \<Rightarrow> Some (Err e, s)
       | Ok file \<Rightarrow>
           Some (Ok (), upd_node node (\<lambda>m. m\<lparr>vn_type := tmpfs_node_type (tf_kind file),
             vn_size := (if tf_kind file = TDir then 0 else word_of_nat (length (tf_data file)))\<rparr>) s))
    }"

definition tmpfs_read :: "nref \<Rightarrow> usize \<Rightarrow> u8 list \<Rightarrow> 'a FsState_scheme \<Rightarrow> ((nat \<times> u8 list) VfsResult \<times> 'a FsState_scheme) option" where
  "tmpfs_read node offset buf s =
    do {
      h \<leftarrow> tmpfs_get_handle node s;
      (case h of
         Err e \<Rightarrow> Some (Err e, s)
       | Ok file \<Rightarrow>
           if tf_kind file \<noteq> TFile then Some (Err Invalid, s)
           else if length (tf_data file) \<le> unat offset then Some (Ok (0, buf), s)
           else
             let fin = min (length (tf_data file)) (unat (offset + word_of_nat (length buf))) in
             if fin < unat offset then None
             else
               let src = take (fin - unat offset) (drop (unat offset) (tf_data file))
               in Some (Ok (length src, src @ drop (length src) buf), s))
    }"

text \<open>A vector holds at most \<open>isize::MAX\<close> bytes; growing it further panics.\<close>

definition VEC_MAX :: nat where
  "VEC_MAX = 2 ^ 63 - 1"

definition vec_resize :: "nat \<Rightarrow> u8 list \<Rightarrow> u8 list option" where
  "vec_resize n xs = (if n \<le> VEC_MAX then Some (take n xs @ replicate (n - length xs) 0) else None)"

definition tmpfs_write :: "nref \<Rightarrow> usize \<Rightarrow> u8 list \<Rightarrow> 'a FsState_scheme \<Rightarrow> (nat VfsResult \<times> 'a FsState_scheme) option" where
  "tmpfs_write node offset buf s =
    do {
      h \<leftarrow> tmpfs_get_handle node s;
      (case h of
         Err e \<Rightarrow> Some (Err e, s)
       | Ok file \<Rightarrow>
           if tf_kind file \<noteq> TFile then Some (Err Invalid, s)
           else
             let fin = unat (offset + word_of_nat (length buf)) in
             do {
               data \<leftarrow> (if length (tf_data file) < fin then vec_resize fin (tf_data file) else Some (tf_data file));
               (if fin < unat offset then None
                else
                  let data = take (unat offset) data @ buf @ drop fin data
                  in Some (Ok (length buf),
                       upd_node node (vn_size_update (\<lambda>_. word_of_nat (length data)))
                         (tmpfs_put_file node (file\<lparr>tf_data := data\<rparr>) s)))
             })
    }"

definition string_bytes :: "string \<Rightarrow> u8 list" where
  "string_bytes cs = map of_char cs"

definition tmpfs_readlink :: "nref \<Rightarrow> u8 list \<Rightarrow> 'a FsState_scheme \<Rightarrow> ((nat \<times> u8 list) VfsResult \<times> 'a FsState_scheme) option" where
  "tmpfs_readlink node buf s =
    (let target = (case vn_linkto_path (vs_nodes s node) of Some p \<Rightarrow> p | None \<Rightarrow> []);
         bytes = string_bytes target;
         n = min (length buf) (length bytes)
     in Some (Ok (n, take n bytes @ drop n buf), s))"

definition tmpfs_delete :: "nref \<Rightarrow> nref \<Rightarrow> 'a FsState_scheme \<Rightarrow> (unit VfsResult \<times> 'a FsState_scheme) option" where
  "tmpfs_delete parent node s = do { s \<leftarrow> tmpfs_unlink node s; Some (Ok (), s) }"

definition tmpfs_rename :: "nref \<Rightarrow> string \<Rightarrow> 'a FsState_scheme \<Rightarrow> (unit VfsResult \<times> 'a FsState_scheme) option" where
  "tmpfs_rename node new_name s = Some (Ok (), upd_node node (vn_name_update (\<lambda>_. new_name)) s)"

definition tmpfs_free :: "nref \<Rightarrow> 'a FsState_scheme \<Rightarrow> (unit VfsResult \<times> 'a FsState_scheme) option" where
  "tmpfs_free node s = do { s \<leftarrow> drop_handle node s; Some (Ok (), s) }"

definition tmpfs_chmod :: "nref \<Rightarrow> u16 \<Rightarrow> 'a FsState_scheme \<Rightarrow> (unit VfsResult \<times> 'a FsState_scheme) option" where
  "tmpfs_chmod node mode s = Some (Ok (), upd_node node (vn_mode_update (\<lambda>_. mode)) s)"

text \<open>The type bits of a mode are \<open>0o170000\<close>; \<open>0o020000\<close> is a character device and \<open>0o060000\<close> a block device.\<close>

definition tmpfs_mknod :: "nref \<Rightarrow> string \<Rightarrow> nref \<Rightarrow> u16 \<Rightarrow> u64 \<Rightarrow> 'a FsState_scheme \<Rightarrow> (unit VfsResult \<times> 'a FsState_scheme) option" where
  "tmpfs_mknod parent name node mode dev s =
    (let ty = and mode 0xF000;
         kind = (if ty = 0x2000 then TChar else if ty = 0x6000 then TBlock else TFile)
     in Some (Ok (), upd_node node (\<lambda>m. m\<lparr>vn_type := tmpfs_node_type kind, vn_mode := mode, vn_dev := dev, vn_rdev := dev\<rparr>)
          (tmpfs_set_handle node (tmpfs_new_file kind) s)))"

definition tmpfs_ops :: "('a FsState_scheme) VfsOps" where
  "tmpfs_ops = default_ops\<lparr>
    vo_mount := tmpfs_mount,
    vo_unmount := tmpfs_unmount,
    vo_mkdir := \<lambda>_ _ node. tmpfs_make TDir Dir node,
    vo_mkfile := \<lambda>_ _ node. tmpfs_make TFile NodeNone node,
    vo_symlink := \<lambda>_ _ node. tmpfs_make TSymlink Symlink node,
    vo_stat := tmpfs_stat,
    vo_read := tmpfs_read,
    vo_write := tmpfs_write,
    vo_readlink := tmpfs_readlink,
    vo_delete := tmpfs_delete,
    vo_rename := tmpfs_rename,
    vo_free := tmpfs_free,
    vo_chmod := tmpfs_chmod,
    vo_mknod := tmpfs_mknod\<rparr>"

section \<open>Tmpfs leaves the tree alone\<close>

lemma store_box_simps [simp]:
  "vs_nodes (store_box n b s) = (vs_nodes s)(n := (vs_nodes s n)\<lparr>vn_handle := Some (Suc (fs_next_box s))\<rparr>)"
  "vs_root (store_box n b s) = vs_root s" "vs_next (store_box n b s) = vs_next s" "vs_live (store_box n b s) = vs_live s"
  "fs_boxes (store_box n b s) = (fs_boxes s)(Suc (fs_next_box s) \<mapsto> b)" "fs_next_box (store_box n b s) = Suc (fs_next_box s)"
  by (simp_all add: store_box_def Let_def upd_node_def)

lemma store_box_same: "same_tree s (store_box n b s)" "same_names s (store_box n b s)" "same_types n s (store_box n b s)"
  by (simp_all add: same_tree_def same_names_def same_types_def)

text \<open>A change of boxes and of the handles, types and sizes of nodes.\<close>

lemma unlink_same: "tmpfs_unlink n s = Some s' \<Longrightarrow> same_tree s s' \<and> same_names s s'"
  by (auto simp: tmpfs_unlink_def free_box_def dec_link_def same_tree_def same_names_def Let_def split: option.splits if_splits prod.splits)

lemma fold_opt_same:
  assumes "\<And>x s s'. f x s = Some s' \<Longrightarrow> same_tree s s' \<and> same_names s s'"
  shows "fold_opt f xs s = Some s' \<Longrightarrow> same_tree s s' \<and> same_names s s'"
proof (induction xs arbitrary: s)
  case (Cons x xs)
  then obtain s1 where "f x s = Some s1" "fold_opt f xs s1 = Some s'"
    by (auto simp: bind_eq_Some_conv)
  then show ?case
    using Cons.IH [of s1] assms [of x s s1] same_trans by blast
qed simp

lemma tmpfs_walk_same:
  assumes "tmpfs_walk n s = Some s'"
  shows "same_tree s s' \<and> same_names s s'"
proof (rule tmpfs_walk.raw_induct [where P = "\<lambda>_ s s'. same_tree s s' \<and> same_names s s'", OF _ assms], goal_cases)
  case (1 walk n s s')
  obtain s1 where s1: "fold_opt walk (vn_children (vs_nodes s n)) s = Some s1" "tmpfs_unlink n s1 = Some s'"
    using 1(2) by (auto simp: bind_eq_Some_conv)
  have "same_tree s s1 \<and> same_names s s1"
    by (rule fold_opt_same [OF 1(1) s1(1)])
  then show ?case
    using unlink_same [OF s1(2)] same_trans by blast
qed

interpretation tmp: fs_backend "tmpfs_ops :: ('a FsState_scheme) VfsOps"
proof
  fix s :: "'a FsState_scheme" and n p name par r s' src
  show "\<exists>r s'. vo_open tmpfs_ops par name n s = Some (r, s') \<and> same_tree s s' \<and> same_names s s' \<and> same_types n s s'"
    by (simp add: tmpfs_ops_def default_ops_def)
  show "\<exists>r s'. vo_mkdir tmpfs_ops p name n s = Some (r, s') \<and> same_tree s s' \<and> same_names s s' \<and> same_types n s s'
      \<and> (vn_type (vs_nodes s n) = Dir \<longrightarrow> vn_type (vs_nodes s' n) = Dir)"
    by (simp add: tmpfs_ops_def tmpfs_make_def tmpfs_set_handle_def same_tree_def same_names_def same_types_def)
  show "\<exists>r s'. vo_mkfile tmpfs_ops p name n s = Some (r, s') \<and> same_tree s s' \<and> same_names s s' \<and> same_types n s s'"
    by (simp add: tmpfs_ops_def tmpfs_make_def tmpfs_set_handle_def same_tree_def same_names_def same_types_def)
  show "same_tree s s' \<and> same_names s s'" if "vo_delete tmpfs_ops p n s = Some (r, s')"
    using that unlink_same by (auto simp: tmpfs_ops_def tmpfs_delete_def bind_eq_Some_conv)
  show "same_tree s s'" if "vo_rename tmpfs_ops n name s = Some (r, s')"
    using that by (auto simp: tmpfs_ops_def tmpfs_rename_def same_tree_def)
  show "kept s s'" if "tree_ok s" "vo_mount tmpfs_ops src n s = Some (r, s')"
  proof (rule kept_same' [OF that(1)])
    show "same_tree s s'"
      using that(2) by (auto simp: tmpfs_ops_def tmpfs_mount_def tmpfs_set_handle_def same_tree_def)
  qed
  show "same_tree s s' \<and> same_names s s'" if "vo_unmount tmpfs_ops n s = Some (r, s')"
    using that tmpfs_walk_same by (auto simp: tmpfs_ops_def tmpfs_unmount_def bind_eq_Some_conv)
qed

section \<open>Reading and writing\<close>

text \<open>What a write at an offset makes of the bytes of a file: a gap is filled with zeros.\<close>

definition overlay :: "nat \<Rightarrow> u8 list \<Rightarrow> u8 list \<Rightarrow> u8 list" where
  "overlay off buf data = map (\<lambda>i. if off \<le> i \<and> i < off + length buf then buf ! (i - off) else if i < length data then data ! i else 0)
    [0..<max (length data) (off + length buf)]"

lemma length_overlay [simp]: "length (overlay off buf data) = max (length data) (off + length buf)"
  by (simp add: overlay_def)

lemma overlay_same: "take (length buf) (drop off (overlay off buf data)) = buf"
  by (rule nth_equalityI) (auto simp: overlay_def)

lemma resize_overlay:
  assumes "data' = (if length data < off + length buf then take (off + length buf) data @ replicate (off + length buf - length data) 0 else data)"
  shows "take off data' @ buf @ drop (off + length buf) data' = overlay off buf data"
  by (rule nth_equalityI) (auto simp: assms overlay_def nth_append min_def)

lemma unat_offset_add:
  assumes "unat (off :: usize) + n < 2 ^ 64"
  shows "unat (off + word_of_nat n) = unat off + n"
proof -
  have "unat (word_of_nat n :: usize) = n"
    using assms by (simp add: unsigned_of_nat take_bit_nat_eq_self)
  then show ?thesis
    using assms by (simp add: unat_add_no_wrap)
qed

lemma get_handle_SomeD:
  assumes "tmpfs_get_handle n s = Some (Ok file)"
  obtains ptr where "vn_handle (vs_nodes s n) = Some ptr" "ptr \<noteq> 0" "fs_boxes s ptr = Some (TmpfsBox file)"
proof -
  have "\<exists>ptr. vn_handle (vs_nodes s n) = Some ptr \<and> ptr \<noteq> 0 \<and> fs_boxes s ptr = Some (TmpfsBox file)"
    using assms unfolding tmpfs_get_handle_def read_handle_def
    by (auto simp: bind_eq_Some_conv elim!: as_tmpfs.elims split: option.splits if_splits)
  then show ?thesis
    using that by blast
qed

lemma get_handle_put:
  assumes "tmpfs_get_handle n s = Some (Ok file)"
  shows "tmpfs_get_handle n (upd_node n (vn_size_update f) (tmpfs_put_file n file' s)) = Some (Ok file')"
  using assms by (rule get_handle_SomeD) (simp add: tmpfs_get_handle_def read_handle_def tmpfs_put_file_def upd_node_def)

lemma tmpfs_write_eq:
  assumes "tmpfs_get_handle n s = Some (Ok file)" "tf_kind file = TFile" "unat off + length buf \<le> VEC_MAX"
  shows "tmpfs_write n off buf s = Some (Ok (length buf),
    upd_node n (vn_size_update (\<lambda>_. word_of_nat (length (overlay (unat off) buf (tf_data file)))))
      (tmpfs_put_file n (file\<lparr>tf_data := overlay (unat off) buf (tf_data file)\<rparr>) s))"
proof -
  have e: "unat (off + word_of_nat (length buf)) = unat off + length buf"
    using assms(3) by (intro unat_offset_add) (simp add: VEC_MAX_def)
  show ?thesis
    using assms resize_overlay [OF refl, where data = "tf_data file" and off = "unat off" and buf = buf]
    by (auto simp: tmpfs_write_def Let_def e vec_resize_def)
qed

lemma tmpfs_read_eq:
  assumes "tmpfs_get_handle n s = Some (Ok file)" "tf_kind file = TFile" "unat off + length buf \<le> VEC_MAX"
  shows "tmpfs_read n off buf s =
    (let src = take (length buf) (drop (unat off) (tf_data file)) in Some (Ok (length src, src @ drop (length src) buf), s))"
proof -
  have e: "unat (off + word_of_nat (length buf)) = unat off + length buf"
    using assms(3) by (intro unat_offset_add) (simp add: VEC_MAX_def)
  show ?thesis
    using assms by (auto simp: tmpfs_read_def Let_def e min_def)
qed

text \<open>C32: Writing to a file of tmpfs returns when the end of the write is within the size limit of a
  vector: it stores the bytes at the offset, fills a gap before it with zeros, leaves every other byte
  of the file as it was, and sets the size of the node; reading the same range gives the bytes back.\<close>

theorem tmpfs_write_then_read:
  assumes "tmpfs_get_handle n s = Some (Ok file)" "tf_kind file = TFile" "unat off + length buf \<le> VEC_MAX" "length out = length buf"
  shows "\<exists>s'. tmpfs_write n off buf s = Some (Ok (length buf), s')
    \<and> tmpfs_get_handle n s' = Some (Ok (file\<lparr>tf_data := overlay (unat off) buf (tf_data file)\<rparr>))
    \<and> vn_size (vs_nodes s' n) = word_of_nat (max (length (tf_data file)) (unat off + length buf))
    \<and> tmpfs_read n off out s' = Some (Ok (length buf, buf), s')"
proof -
  let ?file = "file\<lparr>tf_data := overlay (unat off) buf (tf_data file)\<rparr>"
  let ?s = "upd_node n (vn_size_update (\<lambda>_. word_of_nat (length (tf_data ?file)))) (tmpfs_put_file n ?file s)"
  have w: "tmpfs_write n off buf s = Some (Ok (length buf), ?s)"
    using tmpfs_write_eq [OF assms(1-3)] by simp
  have g: "tmpfs_get_handle n ?s = Some (Ok ?file)"
    by (rule get_handle_put [OF assms(1)])
  have "tmpfs_read n off out ?s = Some (Ok (length buf, buf), ?s)"
    using tmpfs_read_eq [OF g, of off out] assms(2-4) overlay_same [of buf "unat off" "tf_data file"] by (simp add: Let_def)
  then show ?thesis
    using w g by auto
qed

text \<open>A file of two bytes, and a write past its end.\<close>

definition sample_node :: VfsNodeMeta where
  "sample_node = new_root\<lparr>vn_type := NodeNone, vn_fsid := 1, vn_handle := Some 1\<rparr>"

definition sample_fs :: FsState where
  "sample_fs = \<lparr>vs_nodes = \<lambda>_. sample_node, vs_next = 1, vs_root = None, vs_live = \<lambda>_. True,
    fs_boxes = [1 \<mapsto> TmpfsBox \<lparr>tf_kind = TFile, tf_data = [1, 2], tf_link_count = 1\<rparr>], fs_next_box = 1\<rparr>"

theorem tmpfs_write_then_read_witness:
  "tmpfs_get_handle 0 sample_fs = Some (Ok \<lparr>tf_kind = TFile, tf_data = [1, 2], tf_link_count = 1\<rparr>)
    \<and> overlay 3 [7] [1, 2] = [1, 2, 0, 7]
    \<and> (\<exists>s'. tmpfs_write 0 3 [7] sample_fs = Some (Ok 1, s') \<and> tmpfs_read 0 3 [0] s' = Some (Ok (1, [7]), s'))"
proof -
  have g: "tmpfs_get_handle 0 sample_fs = Some (Ok \<lparr>tf_kind = TFile, tf_data = [1, 2], tf_link_count = 1\<rparr>)"
    by (simp add: tmpfs_get_handle_def read_handle_def sample_fs_def sample_node_def)
  have "\<exists>s'. tmpfs_write 0 3 [7] sample_fs = Some (Ok 1, s') \<and> tmpfs_read 0 3 [0] s' = Some (Ok (1, [7]), s')"
    using tmpfs_write_then_read [OF g, of 3 "[7]" "[0]"] by (auto simp: VEC_MAX_def)
  then show ?thesis
    using g by (simp add: overlay_def upt_rec)
qed

section \<open>Hard links\<close>

text \<open>The registry after the first call of \<open>vfs_register_fs\<close> at boot.\<close>

definition tmpfs_registry :: "('a FsState_scheme) fs_registry" where
  "tmpfs_registry = fst (snd (vfs_register_fs ''tmpfs'' tmpfs_ops 0 0 ([], 1)))"

lemma tmpfs_registry_simps:
  "get_filesystem_by_id tmpfs_registry 1 = Some \<lparr>fs_name = ''tmpfs'', fs_fsid = 1, fs_magic = 0, fs_flags = 0, fs_ops = tmpfs_ops\<rparr>"
  by (simp add: tmpfs_registry_def vfs_register_fs_def get_filesystem_by_id_def)

definition boxes_ok :: "'a FsState_scheme \<Rightarrow> bool" where
  "boxes_ok s \<longleftrightarrow> (\<forall>ptr. fs_boxes s ptr \<noteq> None \<longrightarrow> ptr \<le> fs_next_box s)"

lemma find_child_boxes [simp]: "vfs_child_find p nm (s\<lparr>fs_boxes := b\<rparr>) = vfs_child_find p nm s"
  by (simp add: vfs_child_find_def)

text \<open>Deleting a file whose box has one owner frees the box.\<close>

lemma delete_frees:
  assumes root: "tree_ok s" "vs_root s = Some r" "vn_fsid (vs_nodes s r) = 1"
    and a: "is_name a" "vfs_child_find r a s = Some t" "vn_type (vs_nodes s t) = NodeNone"
    and f: "tmpfs_get_handle t s = Some (Ok f)" "tf_link_count f \<le> 1" "vn_handle (vs_nodes s t) = Some ptr"
  shows "\<exists>s'. vfs_delete tmpfs_registry (slash # a) s = Some (Ok (), s') \<and> fs_boxes s' ptr = None
    \<and> (\<forall>n. n \<noteq> t \<longrightarrow> vn_handle (vs_nodes s' n) = vn_handle (vs_nodes s n))
    \<and> (\<forall>n. vn_fsid (vs_nodes s' n) = vn_fsid (vs_nodes s n))"
proof -
  have held: "held_node s r"
    using tree_ok_rootD [OF root(1,2)] by blast
  have par: "Option.bind (vn_parent (vs_nodes s t)) (upgrade s) = Some r"
    using find_child_held [OF root(1) held a(2)] held by (simp add: upgrade_def held_node_def)
  have opn: "vfs_open tmpfs_registry (slash # a) s = Some (Ok t, s)"
    by (rule vfs_open_name [OF root(2) a(1,2)]) (simp add: a(3))
  have box: "fs_boxes s ptr = Some (TmpfsBox f)"
    using f(1) by (rule get_handle_SomeD) (simp add: f(3))
  show ?thesis
    using f(2,3) box
    by (auto simp: vfs_delete_def opn par a(3) with_fs_def root(3) tmpfs_registry_simps tmpfs_ops_def tmpfs_delete_def
        tmpfs_unlink_def dec_link_def free_box_def unlink_child_def upd_node_def)
qed

interpretation tmps: fs_backends "tmpfs_registry :: ('a FsState_scheme) fs_registry"
  by (rule fs_backends.intro) (simp add: tmpfs_registry_def vfs_register_fs_def tmp.fs_backend_axioms)

text \<open>C31: A hard link shares the handle of its target but does not count as a link: when the target is
  deleted, its box is freed although the link still refers to it, and the next read of the link reads
  freed memory.\<close>

theorem hard_link_dangles:
  assumes "tree_ok s" "boxes_ok s" "vs_root s = Some r" "vn_fsid (vs_nodes s r) = 1" "is_name a" "is_name b"
    "vfs_child_find r a s = Some t" "vn_type (vs_nodes s t) = NodeNone"
    "tmpfs_get_handle t s = Some (Ok f)" "tf_link_count f \<le> 1"
    "vfs_link tmpfs_registry (slash # a) (slash # b) s = Some (Ok l, s1)"
  shows "vfs_child_find r b s1 = Some l
    \<and> (\<exists>s2. vfs_delete tmpfs_registry (slash # a) s1 = Some (Ok (), s2) \<and> vfs_read tmpfs_registry l off buf s2 = None)"
proof -
  have held: "held_node s r"
    using tree_ok_rootD [OF assms(1,3)] by blast
  obtain ptr where ptr: "vn_handle (vs_nodes s t) = Some ptr" "ptr \<noteq> 0" "fs_boxes s ptr = Some (TmpfsBox f)"
    by (rule get_handle_SomeD [OF assms(9)])
  have fresh: "ptr \<noteq> Suc (fs_next_box s)"
    using assms(2) ptr(3) by (auto simp: boxes_ok_def)
  have opn: "vfs_open tmpfs_registry (slash # a) s = Some (Ok t, s)"
    by (rule vfs_open_name [OF assms(3,5,7)]) (simp add: assms(8))
  obtain m sa where ap: "vfs_child_append r b s = (m, sa)"
    by force
  note sim = child_append_simps [OF ap held]
  let ?sb = "upd_node m (vn_type_update (\<lambda>_. NodeNone)) (tmpfs_set_handle m (tmpfs_new_file TFile) sa)"
  have boxes: "fs_boxes sa = fs_boxes s" "fs_next_box sa = fs_next_box s"
    using ap by (auto simp: vfs_child_append_def vfs_node_alloc_def upd_node_def Let_def)
  have t: "held_node s t" "vn_parent (vs_nodes s t) = Some r"
    using find_child_held [OF assms(1) held assms(7)] by blast+
  have tr: "t \<noteq> r" "t \<noteq> m"
    using t tree_ok_rootD [OF assms(1,3)] sim(1) by (auto simp: held_node_def)
  have none: "vfs_child_find r b s = None" and l: "l = m"
    and s1: "s1 = upd_node m (\<lambda>k. k\<lparr>vn_linkto := Some t, vn_type := vn_type (vs_nodes ?sb t), vn_handle := vn_handle (vs_nodes ?sb t),
             vn_size := vn_size (vs_nodes ?sb t), vn_mode := vn_mode (vs_nodes ?sb t)\<rparr>) ?sb"
    using assms(11) sim(6)
    by (auto simp: vfs_link_def opn vfs_mkfile_name [OF assms(3,6)] ap with_fs_def assms(4) tmpfs_registry_simps
        tmpfs_ops_def tmpfs_make_def Let_def split: if_splits)
  have node_t: "vs_nodes s1 t = vs_nodes s t" and node_r: "vs_root s1 = Some r" "vn_fsid (vs_nodes s1 r) = 1"
    using sim(3,5,6,12) tr assms(3,4) by (simp_all add: s1 tmpfs_set_handle_def)
  have node_m: "vn_handle (vs_nodes s1 m) = Some ptr" "vn_fsid (vs_nodes s1 m) = 1"
    using sim(5) [of t] sim(13) tr assms(4) ptr(1) by (simp_all add: s1 tmpfs_set_handle_def)
  have same: "same_dirs sa s1" "same_names sa s1" "same_types m sa s1"
    by (simp_all add: s1 tmpfs_set_handle_def same_dirs_def same_names_def same_types_def)
  have find_b: "vfs_child_find r b s1 = Some m"
    by (rule append_find [OF assms(1) held none ap same(1,2)])
  have find_a: "vfs_child_find r a s1 = Some t"
    by (rule find_child_grows [OF assms(1) held append_grows [OF held ap same] assms(7)])
  have "fs_boxes s1 ptr = Some (TmpfsBox f)"
    using fresh ptr(3) boxes by (simp add: s1 tmpfs_set_handle_def upd_node_def)
  then have get: "tmpfs_get_handle t s1 = Some (Ok f)"
    using ptr(1,2) node_t by (simp add: tmpfs_get_handle_def read_handle_def)
  have ok: "tree_ok s1"
    using tmps.vfs_link_keeps [OF assms(1)] keepsD [OF _ assms(11)] kept_ok by blast
  obtain s2 where del: "vfs_delete tmpfs_registry (slash # a) s1 = Some (Ok (), s2)" "fs_boxes s2 ptr = None"
      "vn_handle (vs_nodes s2 m) = Some ptr" "vn_fsid (vs_nodes s2 m) = 1"
    using delete_frees [OF ok node_r assms(5) find_a _ get assms(10)] node_t node_m tr(2) assms(8) ptr(1) by auto
  have "vfs_read tmpfs_registry m off buf s2 = None"
    using del(2-4) ptr(2)
    by (simp add: vfs_read_def node_ops_def tmpfs_registry_simps tmpfs_ops_def tmpfs_read_def tmpfs_get_handle_def read_handle_def)
  then show ?thesis
    using find_b del(1) l by blast
qed

text \<open>A root of tmpfs with one file.\<close>

definition sample_tree_fs :: FsState where
  "sample_tree_fs = \<lparr>
    vs_nodes = (\<lambda>_. sample_node)(0 := new_root\<lparr>vn_fsid := 1, vn_children := [1]\<rparr>, 1 := sample_node\<lparr>vn_name := ''a'', vn_parent := Some 0\<rparr>),
    vs_next = 2, vs_root = Some 0, vs_live = \<lambda>_. True,
    fs_boxes = [1 \<mapsto> TmpfsBox (tmpfs_new_file TFile)], fs_next_box = 1\<rparr>"

lemma sample_tree_facts:
  "tree_ok sample_tree_fs" "boxes_ok sample_tree_fs" "vs_root sample_tree_fs = Some 0" "vn_fsid (vs_nodes sample_tree_fs 0) = 1"
  "vfs_child_find 0 ''a'' sample_tree_fs = Some 1" "vfs_child_find 0 ''b'' sample_tree_fs = None"
  "vn_type (vs_nodes sample_tree_fs 1) = NodeNone"
  "tmpfs_get_handle 1 sample_tree_fs = Some (Ok (tmpfs_new_file TFile))" "vs_next sample_tree_fs = 2"
proof -
  have "n = 0 \<or> n = 1" if "n < 2" for n :: nat
    using that by auto
  then show "tree_ok sample_tree_fs"
    by (auto simp: tree_ok_def node_ok_def held_node_def sample_tree_fs_def sample_node_def new_root_def)
qed (simp_all add: boxes_ok_def sample_tree_fs_def sample_node_def new_root_def vfs_child_find_def tmpfs_get_handle_def read_handle_def)

theorem hard_link_dangles_witness:
  "\<exists>l s1 s2. vfs_link tmpfs_registry ''/a'' ''/b'' sample_tree_fs = Some (Ok l, s1) \<and> vfs_child_find 0 ''b'' s1 = Some l
    \<and> vfs_delete tmpfs_registry ''/a'' s1 = Some (Ok (), s2) \<and> vfs_read tmpfs_registry l 0 [] s2 = None"
proof -
  note facts = sample_tree_facts
  have nm: "is_name ''a''" "is_name ''b''"
    by (simp_all add: is_name_def)
  have "\<exists>l s1. vfs_link tmpfs_registry ''/a'' ''/b'' sample_tree_fs = Some (Ok l, s1)"
    using vfs_open_name [OF facts(3) nm(1) facts(5), of tmpfs_registry] facts(4,6,7,9)
    by (simp add: vfs_link_def vfs_mkfile_name [OF facts(3) nm(2)] vfs_child_append_def vfs_node_alloc_def Let_def
        with_fs_def tmpfs_registry_simps tmpfs_ops_def tmpfs_make_def)
  then obtain l s1 where l: "vfs_link tmpfs_registry ''/a'' ''/b'' sample_tree_fs = Some (Ok l, s1)"
    by blast
  have "tf_link_count (tmpfs_new_file TFile) \<le> 1"
    by (simp add: tmpfs_new_file_def)
  from hard_link_dangles [OF facts(1-4) nm facts(5,7,8) this l, of 0 "[]"] show ?thesis
    using l by blast
qed

section \<open>The virtual file system over tmpfs\<close>

lemma vfs_init_tree_ok:
  assumes "vs_next s = 0"
  shows "tree_ok (snd (vfs_init s))"
  using assms by (simp add: vfs_init_def tree_ok_def node_ok_def held_node_def new_root_def)

text \<open>C28: From boot on, whatever sequence of opens, creations, links, deletions, renames, mounts and
  unmounts over tmpfs is run, and whichever nodes lose their last owner in between, the nodes form a
  tree: every child names its directory as its parent and has an owner, no directory lists a child
  twice, the root has no parent, and no reference of a node leads to a node that was not allocated.\<close>

theorem vfs_tree_kept:
  assumes "vs_next s = 0" "(vfs_step tmpfs_registry)\<^sup>*\<^sup>* (snd (vfs_init s)) s'"
  shows "tree_ok s'"
  using assms(2) vfs_init_tree_ok [OF assms(1)] by (rule tmps.reachable_tree_ok)

text \<open>C29: \<open>vfs_mkdir\<close> over tmpfs always returns, and when it succeeds the path can be opened at once: it leads
  to a directory whose full path is the normal form of the path.\<close>

theorem mkdir_opens:
  assumes "tree_ok s" "vs_root s = Some r" "vn_name (vs_nodes s r) = ''/''" "vn_type (vs_nodes s r) = Dir"
  shows "\<exists>d s'. vfs_mkdir tmpfs_registry path s = Some (d, s') \<and> (d = Ok () \<longrightarrow> (\<exists>n. vfs_open tmpfs_registry path s' = Some (Ok n, s')
    \<and> vn_type (vs_nodes s' n) = Dir \<and> vfs_get_fullpath n s' = Some (abs_path path)))"
  by (rule tmps.mkdir_then_open [OF assms])

text \<open>C30: A symbolic link in the root that names itself is made without an error, but opening it never
  returns: every resolution of the link opens the path again with a fresh budget of links, so the
  recursion has no end.\<close>

theorem self_symlink_never_opens:
  assumes "tree_ok s" "is_name nm" "vfs_symlink tmpfs_registry (slash # nm) (slash # nm) s = Some (Ok n, s')"
  shows "vfs_open tmpfs_registry (slash # nm) s' = None"
  by (rule tmps.symlink_to_itself [OF assms])

subsection \<open>The three properties on concrete trees\<close>

definition empty_fs :: FsState where
  "empty_fs = \<lparr>vs_nodes = \<lambda>_. new_root, vs_next = 0, vs_root = None, vs_live = \<lambda>_. False, fs_boxes = Map.empty, fs_next_box = 0\<rparr>"

lemma mkdir_sample: "\<exists>s'. vfs_mkdir tmpfs_registry ''/d'' sample_tree_fs = Some (Ok (), s')"
proof -
  have "normalize_parts ''/d'' = [''d'']"
    by (simp add: normalize_parts_def normalize_step_def)
  then show ?thesis
    by (simp add: vfs_mkdir_def parts_abs_path sample_tree_fs_def sample_node_def new_root_def vfs_child_find_def
        vfs_child_append_def vfs_node_alloc_def with_fs_def tmpfs_registry_simps tmpfs_ops_def tmpfs_make_def Let_def)
qed

theorem vfs_tree_kept_witness:
  "vs_next empty_fs = 0 \<and> (\<exists>s'. (vfs_step tmpfs_registry)\<^sup>*\<^sup>* (snd (vfs_init empty_fs)) s' \<and> vn_is_mount (vs_nodes s' 0) \<and> tree_ok s')"
proof -
  let ?s = "snd (vfs_init empty_fs)"
  have f: "get_filesystem tmpfs_registry ''tmpfs'' = Some \<lparr>fs_name = ''tmpfs'', fs_fsid = 1, fs_magic = 0, fs_flags = 0, fs_ops = tmpfs_ops\<rparr>"
    by (simp add: tmpfs_registry_def vfs_register_fs_def get_filesystem_def)
  have held: "held_node ?s 0"
    by (simp add: vfs_init_def empty_fs_def held_node_def)
  obtain s' where s': "vfs_mount tmpfs_registry None ''tmpfs'' 0 ?s = Some (Ok (), s')" "vn_is_mount (vs_nodes s' 0)"
    by (simp add: vfs_mount_def f tmpfs_ops_def tmpfs_mount_def tmpfs_set_handle_def Let_def)
  have "vfs_step tmpfs_registry ?s s'"
    by (rule vfs_step.mounts [OF held s'(1)])
  then have "(vfs_step tmpfs_registry)\<^sup>*\<^sup>* ?s s'"
    by (rule r_into_rtranclp)
  moreover have "vs_next empty_fs = 0"
    by (simp add: empty_fs_def)
  ultimately show ?thesis
    using vfs_tree_kept s'(2) by blast
qed

theorem mkdir_opens_witness:
  "\<exists>s' n. vfs_mkdir tmpfs_registry ''/d'' sample_tree_fs = Some (Ok (), s') \<and> vfs_open tmpfs_registry ''/d'' s' = Some (Ok n, s')
    \<and> vfs_get_fullpath n s' = Some ''/d''"
proof -
  have "vn_name (vs_nodes sample_tree_fs 0) = ''/''" "vn_type (vs_nodes sample_tree_fs 0) = Dir"
    by (simp_all add: sample_tree_fs_def new_root_def)
  moreover have "abs_path ''/d'' = ''/d''"
    by (simp add: abs_path_def normalize_path_def normalize_parts_def normalize_step_def starts_with_slash_def Let_def)
  ultimately show ?thesis
    using mkdir_opens [OF sample_tree_facts(1,3), of "''/d''"] mkdir_sample by auto
qed

theorem self_symlink_never_opens_witness:
  "\<exists>n s'. vfs_symlink tmpfs_registry ''/b'' ''/b'' sample_tree_fs = Some (Ok n, s') \<and> vfs_open tmpfs_registry ''/b'' s' = None"
proof -
  note facts = sample_tree_facts
  have nm: "is_name ''b''"
    by (simp add: is_name_def)
  have "\<exists>n s'. vfs_symlink tmpfs_registry ''/b'' ''/b'' sample_tree_fs = Some (Ok n, s')"
    using facts(4,6,9)
    by (simp add: vfs_symlink_def vfs_mkfile_name [OF facts(3) nm] vfs_child_append_def vfs_node_alloc_def Let_def
        with_fs_def tmpfs_registry_simps tmpfs_ops_def tmpfs_make_def)
  then show ?thesis
    using self_symlink_never_opens [OF facts(1) nm] by blast
qed

end
