(* ===== verification/VfsFile.thy ===== *)
theory VfsFile
  imports Vfs FdTable
begin

text \<open>
  The adapter between descriptors and the virtual file system (\<open>kernel_fs/src/fd_adapter.rs\<close>): a file
  that a descriptor refers to is a node, and the errors of the file system become the errors of the
  descriptor layer.
\<close>

record FileStat =
  st_size :: u64
  st_mode :: u16
  st_node_type :: u32

definition map_err :: "VfsError \<Rightarrow> FdError" where
  "map_err err = (case err of NotFound \<Rightarrow> FdNotFound | Invalid \<Rightarrow> FdNotFound | _ \<Rightarrow> FdIo)"

definition map_res :: "('r VfsResult \<times> 's) option \<Rightarrow> (('r, FdError) result \<times> 's) option" where
  "map_res m = map_option (\<lambda>(r, s). (case r of Ok a \<Rightarrow> Ok a | Err e \<Rightarrow> Err (map_err e), s)) m"

definition vfs_file_read ::
  "('a VfsState_scheme) fs_registry \<Rightarrow> nref \<Rightarrow> usize \<Rightarrow> u8 list \<Rightarrow> 'a VfsState_scheme \<Rightarrow> ((nat \<times> u8 list, FdError) result \<times> 'a VfsState_scheme) option" where
  "vfs_file_read reg node offset buf s = map_res (vfs_read reg node offset buf s)"

definition vfs_file_write ::
  "('a VfsState_scheme) fs_registry \<Rightarrow> nref \<Rightarrow> usize \<Rightarrow> u8 list \<Rightarrow> 'a VfsState_scheme \<Rightarrow> ((nat, FdError) result \<times> 'a VfsState_scheme) option" where
  "vfs_file_write reg node offset buf s = map_res (vfs_write reg node offset buf s)"

definition vfs_file_ioctl ::
  "('a VfsState_scheme) fs_registry \<Rightarrow> nref \<Rightarrow> usize \<Rightarrow> usize \<Rightarrow> 'a VfsState_scheme \<Rightarrow> ((unit, FdError) result \<times> 'a VfsState_scheme) option" where
  "vfs_file_ioctl reg node req arg s = map_res (vfs_ioctl reg node req arg s)"

definition vfs_file_poll ::
  "('a VfsState_scheme) fs_registry \<Rightarrow> nref \<Rightarrow> u32 \<Rightarrow> 'a VfsState_scheme \<Rightarrow> ((u32, FdError) result \<times> 'a VfsState_scheme) option" where
  "vfs_file_poll reg node events s = map_res (vfs_poll reg node events s)"

definition node_type_code :: "VfsNodeType \<Rightarrow> u32" where
  "node_type_code ty =
    (case ty of NodeNone \<Rightarrow> 0 | Dir \<Rightarrow> 1 | Block \<Rightarrow> 2 | Stream \<Rightarrow> 3 | Symlink \<Rightarrow> 4 | Pipe \<Rightarrow> 5 | Socket \<Rightarrow> 6)"

definition vfs_file_stat :: "nref \<Rightarrow> 'a VfsState_scheme \<Rightarrow> FileStat option" where
  "vfs_file_stat node s =
    (let meta = vs_nodes s node
     in Some \<lparr>st_size = vn_size meta, st_mode = vn_mode meta, st_node_type = node_type_code (vn_type meta)\<rparr>)"

section \<open>Registering file systems\<close>

text \<open>The registrations at boot (\<open>init_vfs\<close> in \<open>kernel/src/main.rs\<close>), in order.\<close>

fun register_all :: "(string \<times> 's VfsOps) list \<Rightarrow> 's fs_registry \<times> u16 \<Rightarrow> 's fs_registry \<times> u16" where
  "register_all [] r = r"
| "register_all ((name, ops) # fss) r = register_all fss (snd (vfs_register_fs name ops 0 0 r))"

lemma register_all_nonzero:
  assumes "\<forall>f \<in> set reg. fs_fsid f \<noteq> 0" "0 < unat nxt" "unat nxt + length fss \<le> 65536"
  shows "\<forall>f \<in> set (fst (register_all fss (reg, nxt))). fs_fsid f \<noteq> 0"
  using assms
proof (induction fss arbitrary: reg nxt)
  case (Cons f fss)
  obtain name ops where f: "f = (name, ops)"
    by force
  show ?case
  proof (cases "fss = []")
    case True
    then show ?thesis
      using Cons.prems(1,2) by (auto simp: f vfs_register_fs_def)
  next
    case False
    then have "unat nxt + 1 < 65536"
      using Cons.prems(3) by (cases fss) auto
    then have "unat (nxt + 1) = unat nxt + 1"
      by (subst unat_add_no_wrap) simp_all
    moreover have "nxt \<noteq> 0"
      using Cons.prems(2) by auto
    ultimately show ?thesis
      using Cons.IH [of "reg @ [\<lparr>fs_name = name, fs_fsid = nxt, fs_magic = 0, fs_flags = 0, fs_ops = ops\<rparr>]" "nxt + 1"] Cons.prems
      by (auto simp: f vfs_register_fs_def)
  qed
qed simp

text \<open>No file system has the identifier of a node without a parent.\<close>

lemma no_filesystem_0:
  assumes "length fss < 65535"
  shows "get_filesystem_by_id (fst (register_all fss ([], 1))) 0 = None"
proof -
  have "\<forall>f \<in> set (fst (register_all fss ([], 1))). fs_fsid f \<noteq> 0"
    by (rule register_all_nonzero) (use assms in simp_all)
  then show ?thesis
    by (simp add: get_filesystem_by_id_def find_None_iff)
qed

end
