(* ===== verification/Ring.thy ===== *)
theory Ring
  imports Prelude
begin

text \<open>
  Byte queues in fixed buffers: the interface that the ring buffers of pipes, sockets and the
  keyboard implement, what its clients may rely on, and the copying loops that pipes and sockets
  share in shape. Indices are far below the width of \<open>usize\<close> and are natural numbers.
\<close>

section \<open>The interface\<close>

text \<open>A client's view of a queue of at most \<open>cap\<close> bytes: \<open>put\<close> takes as many bytes as there is room
  for and says how many, \<open>get\<close> hands out up to the requested number of bytes.\<close>

locale byte_queue =
  fixes cap :: nat
    and ok :: "'s \<Rightarrow> bool"
    and contents :: "'s \<Rightarrow> u8 list"
    and put :: "u8 list \<Rightarrow> 's \<Rightarrow> nat \<times> 's"
    and get :: "nat \<Rightarrow> 's \<Rightarrow> u8 list \<times> 's"
  assumes bounded: "ok s \<Longrightarrow> length (contents s) \<le> cap"
    and put_ok: "ok s \<Longrightarrow> put xs s = (n, s') \<Longrightarrow> ok s' \<and> n = min (length xs) (cap - length (contents s))
      \<and> contents s' = contents s @ take n xs"
    and get_ok: "ok s \<Longrightarrow> get n s = (ys, s') \<Longrightarrow> ok s' \<and> ys = take n (contents s) \<and> contents s' = drop n (contents s)"
begin

text \<open>What was put into an empty queue that has room comes out again.\<close>

lemma put_get:
  assumes "ok s" "contents s = []" "length xs \<le> cap" "put xs s = (n, s1)" "get m s1 = (ys, s2)" "length xs \<le> m"
  shows "ys = xs \<and> n = length xs \<and> contents s2 = []"
  using put_ok [OF assms(1,4)] get_ok [of s1 m ys s2] assms by simp

end

datatype queue_op = Put "u8 list" | Get nat

text \<open>A run of a queue: the bytes it accepted, the bytes it handed out, and the state at the end.\<close>

fun run_queue ::
  "(u8 list \<Rightarrow> 's \<Rightarrow> nat \<times> 's) \<Rightarrow> (nat \<Rightarrow> 's \<Rightarrow> u8 list \<times> 's) \<Rightarrow> queue_op list \<Rightarrow> 's \<Rightarrow> u8 list \<times> u8 list \<times> 's" where
  "run_queue put get [] s = ([], [], s)"
| "run_queue put get (Put xs # ops) s =
    (let (n, s) = put xs s; (a, d, s) = run_queue put get ops s in (take n xs @ a, d, s))"
| "run_queue put get (Get n # ops) s =
    (let (ys, s) = get n s; (a, d, s) = run_queue put get ops s in (a, ys @ d, s))"

context byte_queue
begin

text \<open>Over any run the bytes come out in the order in which they were accepted, none is lost and
  none is made up.\<close>

lemma run_fifo:
  assumes "ok s" "run_queue put get ops s = (a, d, s')"
  shows "ok s' \<and> contents s @ a = d @ contents s' \<and> length (contents s') \<le> cap"
  using assms
proof (induction ops arbitrary: s a d s')
  case Nil
  then show ?case
    using bounded by auto
next
  case (Cons op ops)
  show ?case
  proof (cases op)
    case (Put xs)
    obtain n s1 where p: "put xs s = (n, s1)"
      by force
    obtain a' d' s2 where r: "run_queue put get ops s1 = (a', d', s2)"
      by (cases "run_queue put get ops s1")
    note step = put_ok [OF Cons.prems(1) p]
    show ?thesis
      using Cons.IH [OF _ r] step Cons.prems(2) Put p r by auto
  next
    case (Get n)
    obtain ys s1 where g: "get n s = (ys, s1)"
      by force
    obtain a' d' s2 where r: "run_queue put get ops s1 = (a', d', s2)"
      by (cases "run_queue put get ops s1")
    note step = get_ok [OF Cons.prems(1) g]
    have IH: "ok s2 \<and> contents s1 @ a' = d' @ contents s2 \<and> length (contents s2) \<le> cap"
      using Cons.IH [OF _ r] step by simp
    have "contents s = ys @ contents s1"
      using step by simp
    then have "contents s @ a' = (ys @ d') @ contents s2"
      using IH by simp
    then show ?thesis
      using IH Cons.prems(2) Get g r by simp
  qed
qed

end

section \<open>Copying loops\<close>

text \<open>Reading \<open>n\<close> bytes from \<open>head\<close> on, and writing bytes from a position on.\<close>

fun ring_out :: "nat \<Rightarrow> nat \<Rightarrow> u8 list \<Rightarrow> nat \<Rightarrow> u8 list \<times> nat" where
  "ring_out cap 0 buf head = ([], head)"
| "ring_out cap (Suc n) buf head =
    (let (ys, head') = ring_out cap n buf ((head + 1) mod cap) in (buf ! head # ys, head'))"

fun ring_in :: "nat \<Rightarrow> nat \<Rightarrow> u8 list \<Rightarrow> u8 list \<Rightarrow> u8 list" where
  "ring_in cap pos [] buf = buf"
| "ring_in cap pos (x # xs) buf = ring_in cap (pos + 1) xs (buf[pos mod cap := x])"

text \<open>The bytes of a ring of \<open>cap\<close> bytes from \<open>head\<close> on.\<close>

definition ring_list :: "nat \<Rightarrow> u8 list \<Rightarrow> nat \<Rightarrow> nat \<Rightarrow> u8 list" where
  "ring_list cap buf head len = map (\<lambda>i. buf ! ((head + i) mod cap)) [0..<len]"

lemma length_ring_list [simp]: "length (ring_list cap buf head len) = len"
  by (simp add: ring_list_def)

lemma ring_list_mod: "ring_list cap buf (head mod cap) len = ring_list cap buf head len"
  by (simp add: ring_list_def mod_add_left_eq)

lemma ring_list_Suc: "ring_list cap buf head (Suc len) = buf ! (head mod cap) # ring_list cap buf (head + 1) len"
proof -
  have "map (\<lambda>i. buf ! ((head + i) mod cap)) [0..<Suc len]
      = buf ! (head mod cap) # map (\<lambda>i. buf ! ((head + i) mod cap)) (map Suc [0..<len])"
    by (simp add: upt_conv_Cons map_Suc_upt del: upt_Suc)
  then show ?thesis
    by (simp add: ring_list_def comp_def)
qed

lemma ring_out_eq:
  assumes "0 < cap" "head < cap"
  shows "ring_out cap n buf head = (ring_list cap buf head n, (head + n) mod cap)"
  using assms
proof (induction n arbitrary: head)
  case (Suc n)
  have "(head + 1) mod cap < cap"
    using Suc.prems by simp
  then show ?case
    using Suc.IH [of "(head + 1) mod cap"] Suc.prems
    by (simp add: ring_list_Suc ring_list_mod [of cap buf "Suc head"] mod_add_left_eq)
qed (simp add: ring_list_def)

lemma length_ring_in [simp]: "length (ring_in cap pos xs buf) = length buf"
  by (induction xs arbitrary: pos buf) simp_all

lemma mod_neq:
  assumes "0 < cap" "i < j" "j < i + cap"
  shows "i mod cap \<noteq> j mod (cap :: nat)"
proof
  assume "i mod cap = j mod cap"
  then have "cap dvd j - i"
    using assms(2) by (metis less_imp_le mod_eq_dvd_iff_nat)
  then show False
    using assms(2,3) by (auto dest: dvd_imp_le)
qed

text \<open>Bytes written behind the contents extend them.\<close>

lemma ring_in_nth:
  assumes "0 < cap" "length buf = cap" "pos \<le> j + cap" "j < pos + length xs" "length xs \<le> cap" "pos + length xs \<le> j + cap"
  shows "ring_in cap pos xs buf ! (j mod cap) = (if j < pos then buf ! (j mod cap) else xs ! (j - pos))"
  using assms
proof (induction xs arbitrary: pos buf)
  case (Cons x xs)
  let ?buf = "buf[pos mod cap := x]"
  have len: "length ?buf = cap"
    using Cons.prems(2) by simp
  show ?case
  proof (cases "j < pos + 1 + length xs \<and> pos < j")
    case True
    then have "ring_in cap (pos + 1) xs ?buf ! (j mod cap) = xs ! (j - (pos + 1))"
      using Cons.IH [OF Cons.prems(1) len, of "pos + 1"] Cons.prems by simp
    then show ?thesis
      using True by (simp add: nth_Cons' Suc_diff_Suc)
  next
    case False
    then have j: "j \<le> pos"
      using Cons.prems(4) by simp
    have "ring_in cap (pos + 1) xs ?buf ! (j mod cap) = ?buf ! (j mod cap)"
      using Cons.IH [OF Cons.prems(1) len, of "pos + 1"] j Cons.prems by simp
    moreover have "pos mod cap \<noteq> j mod cap" if "j < pos"
      using mod_neq [OF Cons.prems(1) that] Cons.prems(6) by simp
    ultimately show ?thesis
      using j Cons.prems(1,2) by (cases "j = pos") auto
  qed
qed simp

lemma ring_list_in:
  assumes "0 < cap" "length buf = cap" "len + length xs \<le> cap"
  shows "ring_list cap (ring_in cap (head + len) xs buf) head (len + length xs) = ring_list cap buf head len @ xs"
proof (rule nth_equalityI)
  fix i
  assume "i < length (ring_list cap (ring_in cap (head + len) xs buf) head (len + length xs))"
  then have i: "i < len + length xs"
    by simp
  have "ring_in cap (head + len) xs buf ! ((head + i) mod cap)
      = (if head + i < head + len then buf ! ((head + i) mod cap) else xs ! (head + i - (head + len)))"
    using assms i by (intro ring_in_nth) auto
  then show "ring_list cap (ring_in cap (head + len) xs buf) head (len + length xs) ! i
      = (ring_list cap buf head len @ xs) ! i"
    using i by (auto simp: ring_list_def nth_append)
qed simp

lemma ring_list_drop: "n \<le> len \<Longrightarrow> ring_list cap buf (head + n) (len - n) = drop n (ring_list cap buf head len)"
  by (rule nth_equalityI) (auto simp: ring_list_def add.assoc)

lemma ring_list_take: "n \<le> len \<Longrightarrow> ring_list cap buf head n = take n (ring_list cap buf head len)"
  by (rule nth_equalityI) (auto simp: ring_list_def)

end
