(* ===== verification/Pipefs.thy ===== *)
theory Pipefs
  imports Tmpfs VfsFile Ring Scheduler
begin

text \<open>
  Pipes (\<open>kernel_fs/src/fs/pipefs.rs\<close>): a ring of 4096 bytes between the ends, with a wait queue for
  readers and one for writers. A task that waits gives the CPU away; what the rest of the system
  does until it runs again is an argument of the model, the environment, together with the CPU the
  task then runs on. A call that never comes back has no result.
\<close>

section \<open>State\<close>

definition PIPE_CAPACITY :: nat where
  "PIPE_CAPACITY = 4096"

record PipeInner =
  pi_buf :: "u8 list"
  pi_head :: nat
  pi_len :: nat
  pi_readers :: nat
  pi_writers :: nat

record Pipe =
  pp_inner :: PipeInner
  pp_read_wait :: WaitQueue
  pp_write_wait :: WaitQueue

definition pipe_inner_new :: PipeInner where
  "pipe_inner_new = \<lparr>pi_buf = replicate PIPE_CAPACITY 0, pi_head = 0, pi_len = 0, pi_readers = 0, pi_writers = 0\<rparr>"

definition pipe_new :: Pipe where
  "pipe_new = \<lparr>pp_inner = pipe_inner_new, pp_read_wait = [], pp_write_wait = []\<rparr>"

definition pipe_read_available :: "PipeInner \<Rightarrow> nat" where
  "pipe_read_available p = pi_len p"

definition pipe_write_available :: "PipeInner \<Rightarrow> nat" where
  "pipe_write_available p = PIPE_CAPACITY - pi_len p"

record PipeState = FsState +
  ps_pipes :: "nat \<Rightarrow> Pipe"
  ps_next_pipe :: nat
  ps_sched :: Sched

definition upd_pipe :: "nat \<Rightarrow> (Pipe \<Rightarrow> Pipe) \<Rightarrow> 'a PipeState_scheme \<Rightarrow> 'a PipeState_scheme" where
  "upd_pipe p f s = s\<lparr>ps_pipes := (ps_pipes s)(p := f (ps_pipes s p))\<rparr>"

section \<open>Waiting\<close>

text \<open>The loop of \<open>wait_while\<close>: each round tests the condition, and a round that sleeps is followed by a
  step of the environment. The rounds are counted, so that the environment can be different each
  time.\<close>

type_synonym 's wait_env = "nat \<Rightarrow> 's \<Rightarrow> 's"

partial_function (option) wait_loop ::
  "'s wait_env \<Rightarrow> (nat \<Rightarrow> 's \<Rightarrow> bool \<times> 's) \<Rightarrow> nat \<Rightarrow> 's \<Rightarrow> (nat \<times> 's) option" where
  "wait_loop env round i s =
    (case round i s of (sleeps, s') \<Rightarrow>
       if sleeps then wait_loop env round (Suc i) (env i s') else Some (i, s'))"

definition read_wait_round :: "(nat \<Rightarrow> nat) \<Rightarrow> nat \<Rightarrow> nat \<Rightarrow> 'a PipeState_scheme \<Rightarrow> bool \<times> 'a PipeState_scheme" where
  "read_wait_round cpu p i s =
    (let (sleeps, q, sc) = wait_while True (cpu i) (pp_read_wait (ps_pipes s p)) (ps_sched s)
     in (sleeps, upd_pipe p (pp_read_wait_update (\<lambda>_. q)) (s\<lparr>ps_sched := sc\<rparr>)))"

definition write_wait_round :: "(nat \<Rightarrow> nat) \<Rightarrow> nat \<Rightarrow> nat \<Rightarrow> 'a PipeState_scheme \<Rightarrow> bool \<times> 'a PipeState_scheme" where
  "write_wait_round cpu p i s =
    (let (sleeps, q, sc) = wait_while True (cpu i) (pp_write_wait (ps_pipes s p)) (ps_sched s)
     in (sleeps, upd_pipe p (pp_write_wait_update (\<lambda>_. q)) (s\<lparr>ps_sched := sc\<rparr>)))"

definition wake_reader :: "nat \<Rightarrow> nat \<Rightarrow> 'a PipeState_scheme \<Rightarrow> 'a PipeState_scheme" where
  "wake_reader raw p s =
    (let (q, sc) = wake_one raw (pp_read_wait (ps_pipes s p)) (ps_sched s)
     in upd_pipe p (pp_read_wait_update (\<lambda>_. q)) (s\<lparr>ps_sched := sc\<rparr>))"

definition wake_writer :: "nat \<Rightarrow> nat \<Rightarrow> 'a PipeState_scheme \<Rightarrow> 'a PipeState_scheme" where
  "wake_writer raw p s =
    (let (q, sc) = wake_one raw (pp_write_wait (ps_pipes s p)) (ps_sched s)
     in upd_pipe p (pp_write_wait_update (\<lambda>_. q)) (s\<lparr>ps_sched := sc\<rparr>))"

definition wake_both :: "nat \<Rightarrow> nat \<Rightarrow> 'a PipeState_scheme \<Rightarrow> 'a PipeState_scheme" where
  "wake_both raw p s =
    (let (rq, sc) = wake_all raw (pp_read_wait (ps_pipes s p)) (ps_sched s);
         (wq, sc) = wake_all raw (pp_write_wait (ps_pipes s p)) sc
     in upd_pipe p (\<lambda>k. k\<lparr>pp_read_wait := rq, pp_write_wait := wq\<rparr>) (s\<lparr>ps_sched := sc\<rparr>))"

section \<open>Operations\<close>

fun as_pipe :: "fs_box \<Rightarrow> PipeEnd option" where
  "as_pipe (PipeBox e) = Some e"
| "as_pipe _ = None"

definition pipe_get_handle :: "nref \<Rightarrow> 'a FsState_scheme \<Rightarrow> PipeEnd VfsResult option" where
  "pipe_get_handle = read_handle as_pipe"

definition pipe_set_handle :: "nref \<Rightarrow> PipeEnd \<Rightarrow> 'a FsState_scheme \<Rightarrow> 'a FsState_scheme" where
  "pipe_set_handle node e s = store_box node (PipeBox e) s"

definition mark_pipe_node :: "nref \<Rightarrow> 'a VfsState_scheme \<Rightarrow> 'a VfsState_scheme" where
  "mark_pipe_node node s = upd_node node (\<lambda>m. m\<lparr>vn_type := Pipe, vn_flags := or (vn_flags m) VFS_NODE_PRIVATE_FD\<rparr>) s"

definition pipefs_create_pair :: "'a PipeState_scheme \<Rightarrow> (nref \<times> nref) \<times> 'a PipeState_scheme" where
  "pipefs_create_pair s =
    (let p = ps_next_pipe s;
         s = s\<lparr>ps_pipes := (ps_pipes s)(p := pipe_new), ps_next_pipe := p + 1\<rparr>;
         (read_end, s) = vfs_node_alloc None ''pipe_r'' s;
         (write_end, s) = vfs_node_alloc None ''pipe_w'' s;
         s = upd_pipe p (pp_inner_update (\<lambda>k. k\<lparr>pi_readers := pi_readers k + 1, pi_writers := pi_writers k + 1\<rparr>)) s;
         s = mark_pipe_node write_end (mark_pipe_node read_end s);
         s = pipe_set_handle read_end \<lparr>pe_pipe = p, pe_write = False\<rparr> s;
         s = pipe_set_handle write_end \<lparr>pe_pipe = p, pe_write = True\<rparr> s
     in ((read_end, write_end), s))"

text \<open>Taking up to \<open>n\<close> bytes out of the ring, and putting as many bytes into it as fit.\<close>

definition pipe_take :: "nat \<Rightarrow> PipeInner \<Rightarrow> u8 list \<times> PipeInner" where
  "pipe_take len p =
    (let n = min len (pipe_read_available p);
         (bytes, head) = ring_out PIPE_CAPACITY n (pi_buf p) (pi_head p)
     in (bytes, p\<lparr>pi_head := head, pi_len := pi_len p - n\<rparr>))"

definition pipe_put :: "u8 list \<Rightarrow> PipeInner \<Rightarrow> nat \<times> PipeInner" where
  "pipe_put xs p =
    (let n = min (pipe_write_available p) (length xs)
     in (n, p\<lparr>pi_buf := ring_in PIPE_CAPACITY (pi_head p + pi_len p) (take n xs) (pi_buf p), pi_len := pi_len p + n\<rparr>))"

partial_function (option) pipe_read_loop ::
  "('a PipeState_scheme) wait_env \<Rightarrow> (nat \<Rightarrow> nat) \<Rightarrow> nat \<Rightarrow> u8 list \<Rightarrow> nat \<Rightarrow> 'a PipeState_scheme \<Rightarrow>
    ((nat \<times> u8 list) VfsResult \<times> 'a PipeState_scheme) option" where
  "pipe_read_loop env cpu p buf i s =
    (let inner = pp_inner (ps_pipes s p) in
     if pipe_read_available inner > 0 then
       let (bytes, inner) = pipe_take (length buf) inner;
           s = wake_writer (cpu i) p (upd_pipe p (pp_inner_update (\<lambda>_. inner)) s)
       in Some (Ok (length bytes, bytes @ drop (length bytes) buf), s)
     else if pi_writers inner = 0 then Some (Ok (0, buf), s)
     else
       do {
         (i, s) \<leftarrow> wait_loop env (read_wait_round cpu p) i s;
         pipe_read_loop env cpu p buf i s
       })"

definition pipefs_read ::
  "('a PipeState_scheme) wait_env \<Rightarrow> (nat \<Rightarrow> nat) \<Rightarrow> nref \<Rightarrow> usize \<Rightarrow> u8 list \<Rightarrow> 'a PipeState_scheme \<Rightarrow>
    ((nat \<times> u8 list) VfsResult \<times> 'a PipeState_scheme) option" where
  "pipefs_read env cpu node offset buf s =
    do {
      h \<leftarrow> pipe_get_handle node s;
      (case h of
         Err e \<Rightarrow> Some (Err e, s)
       | Ok e \<Rightarrow> if pe_write e then Some (Err Invalid, s) else pipe_read_loop env cpu (pe_pipe e) buf 0 s)
    }"

partial_function (option) pipe_write_loop ::
  "('a PipeState_scheme) wait_env \<Rightarrow> (nat \<Rightarrow> nat) \<Rightarrow> nat \<Rightarrow> u8 list \<Rightarrow> nat \<Rightarrow> nat \<Rightarrow> 'a PipeState_scheme \<Rightarrow>
    (nat VfsResult \<times> 'a PipeState_scheme) option" where
  "pipe_write_loop env cpu p buf written i s =
    (if written < length buf then
       let inner = pp_inner (ps_pipes s p) in
       if pi_readers inner = 0 then Some (Err Io, s)
       else if pipe_write_available inner = 0 then
         do {
           (i, s) \<leftarrow> wait_loop env (write_wait_round cpu p) i s;
           pipe_write_loop env cpu p buf written i s
         }
       else
         let (n, inner) = pipe_put (drop written buf) inner;
             s = wake_reader (cpu i) p (upd_pipe p (pp_inner_update (\<lambda>_. inner)) s)
         in pipe_write_loop env cpu p buf (written + n) i s
     else Some (Ok written, s))"

definition pipefs_write ::
  "('a PipeState_scheme) wait_env \<Rightarrow> (nat \<Rightarrow> nat) \<Rightarrow> nref \<Rightarrow> usize \<Rightarrow> u8 list \<Rightarrow> 'a PipeState_scheme \<Rightarrow>
    (nat VfsResult \<times> 'a PipeState_scheme) option" where
  "pipefs_write env cpu node offset buf s =
    do {
      h \<leftarrow> pipe_get_handle node s;
      (case h of
         Err e \<Rightarrow> Some (Err e, s)
       | Ok e \<Rightarrow> if \<not> pe_write e then Some (Err Invalid, s) else pipe_write_loop env cpu (pe_pipe e) buf 0 0 s)
    }"

definition pipefs_close :: "(nat \<Rightarrow> nat) \<Rightarrow> nref \<Rightarrow> 'a PipeState_scheme \<Rightarrow> (unit VfsResult \<times> 'a PipeState_scheme) option" where
  "pipefs_close cpu node s =
    do {
      h \<leftarrow> pipe_get_handle node s;
      (case h of
         Err e \<Rightarrow> Some (Err e, s)
       | Ok e \<Rightarrow>
           let p = pe_pipe e;
               s = upd_pipe p (pp_inner_update (\<lambda>k.
                     if pe_write e then (if pi_writers k > 0 then k\<lparr>pi_writers := pi_writers k - 1\<rparr> else k)
                     else if pi_readers k > 0 then k\<lparr>pi_readers := pi_readers k - 1\<rparr> else k)) s
           in Some (Ok (), wake_both (cpu 0) p s))
    }"

definition pipefs_drop :: "nref \<Rightarrow> 'a PipeState_scheme \<Rightarrow> (unit VfsResult \<times> 'a PipeState_scheme) option" where
  "pipefs_drop node s = do { s \<leftarrow> drop_handle node s; Some (Ok (), s) }"

definition pipefs_ops :: "('a PipeState_scheme) wait_env \<Rightarrow> (nat \<Rightarrow> nat) \<Rightarrow> ('a PipeState_scheme) VfsOps" where
  "pipefs_ops env cpu = default_ops\<lparr>
    vo_read := pipefs_read env cpu,
    vo_write := pipefs_write env cpu,
    vo_close := pipefs_close cpu,
    vo_delete := \<lambda>_ node. pipefs_drop node,
    vo_free := pipefs_drop\<rparr>"

section \<open>The ring of a pipe is a queue\<close>

definition pipe_ok :: "PipeInner \<Rightarrow> bool" where
  "pipe_ok p \<longleftrightarrow> length (pi_buf p) = PIPE_CAPACITY \<and> pi_head p < PIPE_CAPACITY \<and> pi_len p \<le> PIPE_CAPACITY"

definition pipe_contents :: "PipeInner \<Rightarrow> u8 list" where
  "pipe_contents p = ring_list PIPE_CAPACITY (pi_buf p) (pi_head p) (pi_len p)"

lemma PIPE_CAPACITY_pos [simp]: "0 < PIPE_CAPACITY"
  by (simp add: PIPE_CAPACITY_def)

lemma length_pipe_contents [simp]: "length (pipe_contents p) = pi_len p"
  by (simp add: pipe_contents_def)

interpretation pipe_queue: byte_queue PIPE_CAPACITY pipe_ok pipe_contents pipe_put pipe_take
proof
  fix p p' n xs ys
  show "length (pipe_contents p) \<le> PIPE_CAPACITY" if "pipe_ok p"
    using that by (simp add: pipe_ok_def)
  show "pipe_ok p' \<and> n = min (length xs) (PIPE_CAPACITY - length (pipe_contents p)) \<and> pipe_contents p' = pipe_contents p @ take n xs"
    if "pipe_ok p" "pipe_put xs p = (n, p')"
  proof -
    have n: "n = min (PIPE_CAPACITY - pi_len p) (length xs)"
      and p': "p' = p\<lparr>pi_buf := ring_in PIPE_CAPACITY (pi_head p + pi_len p) (take n xs) (pi_buf p), pi_len := pi_len p + n\<rparr>"
      using that(2) by (auto simp: pipe_put_def pipe_write_available_def Let_def)
    have "pi_len p + length (take n xs) \<le> PIPE_CAPACITY" "length (take n xs) = n"
      using that(1) n by (auto simp: pipe_ok_def)
    then have "pipe_contents p' = pipe_contents p @ take n xs"
      using ring_list_in [of PIPE_CAPACITY "pi_buf p" "pi_len p" "take n xs" "pi_head p"] that(1)
      by (simp add: pipe_contents_def p' pipe_ok_def)
    then show ?thesis
      using that(1) n by (auto simp: p' pipe_ok_def)
  qed
  show "pipe_ok p' \<and> ys = take n (pipe_contents p) \<and> pipe_contents p' = drop n (pipe_contents p)"
    if "pipe_ok p" "pipe_take n p = (ys, p')"
  proof -
    let ?n = "min n (pi_len p)"
    have out: "ring_out PIPE_CAPACITY ?n (pi_buf p) (pi_head p) = (ring_list PIPE_CAPACITY (pi_buf p) (pi_head p) ?n, (pi_head p + ?n) mod PIPE_CAPACITY)"
      using that(1) by (intro ring_out_eq) (auto simp: pipe_ok_def)
    have ys: "ys = ring_list PIPE_CAPACITY (pi_buf p) (pi_head p) ?n"
      and p': "p' = p\<lparr>pi_head := (pi_head p + ?n) mod PIPE_CAPACITY, pi_len := pi_len p - ?n\<rparr>"
      using that(2) unfolding pipe_take_def pipe_read_available_def Let_def out by auto
    have "ys = take ?n (pipe_contents p)"
      unfolding ys pipe_contents_def by (rule ring_list_take) simp
    moreover have "pipe_contents p' = drop ?n (pipe_contents p)"
      using ring_list_drop [of ?n "pi_len p" PIPE_CAPACITY "pi_buf p" "pi_head p"]
      by (simp add: pipe_contents_def p' ring_list_mod)
    moreover have "pipe_ok p'"
      using that(1) by (auto simp: p' pipe_ok_def)
    ultimately show ?thesis
      by (cases "n \<le> pi_len p") (auto simp: min_def)
  qed
qed

text \<open>C35: Over any sequence of puts and takes on the ring of a pipe, the bytes come out in the order in
  which they were accepted, none is lost or made up, and the ring never holds more than its capacity.\<close>

theorem pipe_fifo:
  assumes "pipe_ok p" "run_queue pipe_put pipe_take ops p = (accepted, delivered, p')"
  shows "pipe_ok p' \<and> pipe_contents p @ accepted = delivered @ pipe_contents p' \<and> length (pipe_contents p') \<le> PIPE_CAPACITY"
  by (rule pipe_queue.run_fifo [OF assms])

section \<open>Transfers\<close>

lemma upd_pipe_simps [simp]:
  "ps_pipes (upd_pipe p f s) q = (if q = p then f (ps_pipes s p) else ps_pipes s q)"
  "vs_nodes (upd_pipe p f s) = vs_nodes s" "fs_boxes (upd_pipe p f s) = fs_boxes s" "ps_sched (upd_pipe p f s) = ps_sched s"
  by (simp_all add: upd_pipe_def)

lemma wake_simps [simp]:
  "pp_inner (ps_pipes (wake_reader raw p s) q) = pp_inner (ps_pipes s q)"
  "vs_nodes (wake_reader raw p s) = vs_nodes s" "fs_boxes (wake_reader raw p s) = fs_boxes s"
  "pp_inner (ps_pipes (wake_writer raw p s) q) = pp_inner (ps_pipes s q)"
  by (simp_all add: wake_reader_def wake_writer_def split: prod.split)

lemma pipe_get_handle_cong:
  "vs_nodes s' = vs_nodes s \<Longrightarrow> fs_boxes s' = fs_boxes s \<Longrightarrow> pipe_get_handle n s' = pipe_get_handle n s"
  by (simp add: pipe_get_handle_def read_handle_def split: option.split)

text \<open>A write that fits into the ring, whatever the environment does.\<close>

lemma pipe_write_fits:
  assumes "pipe_ok (pp_inner (ps_pipes s p))" "pi_readers (pp_inner (ps_pipes s p)) > 0" "buf \<noteq> []"
    "pi_len (pp_inner (ps_pipes s p)) + length buf \<le> PIPE_CAPACITY"
  shows "pipe_write_loop env cpu p buf 0 i s =
    Some (Ok (length buf), wake_reader (cpu i) p (upd_pipe p (pp_inner_update (\<lambda>_. snd (pipe_put buf (pp_inner (ps_pipes s p))))) s))"
proof -
  let ?inner = "pp_inner (ps_pipes s p)"
  have len: "0 < length buf"
    using assms(3) by simp
  have avail: "pipe_write_available ?inner \<noteq> 0"
    unfolding pipe_write_available_def using assms(4) len by linarith
  have "fst (pipe_put buf ?inner) = length buf"
    using assms(4) by (simp add: pipe_put_def pipe_write_available_def Let_def)
  then obtain inner where put: "pipe_put buf ?inner = (length buf, inner)"
    by (cases "pipe_put buf ?inner") auto
  have stop: "pipe_write_loop env cpu p buf (length buf) i s' = Some (Ok (length buf), s')" for s'
    by (subst pipe_write_loop.simps) simp
  show ?thesis
    using assms(2) len avail by (subst pipe_write_loop.simps) (simp add: put stop)
qed

lemma pipe_read_ready:
  assumes "pi_len (pp_inner (ps_pipes s p)) > 0" "pipe_take (length buf) (pp_inner (ps_pipes s p)) = (bytes, inner)"
  shows "pipe_read_loop env cpu p buf i s = Some (Ok (length bytes, bytes @ drop (length bytes) buf),
    wake_writer (cpu i) p (upd_pipe p (pp_inner_update (\<lambda>_. inner)) s))"
  using assms by (subst pipe_read_loop.simps) (simp add: pipe_read_available_def)

lemma create_pair_facts:
  assumes "pipefs_create_pair s = ((r, w), s')"
  shows "pipe_get_handle r s' = Some (Ok \<lparr>pe_pipe = ps_next_pipe s, pe_write = False\<rparr>)"
    "pipe_get_handle w s' = Some (Ok \<lparr>pe_pipe = ps_next_pipe s, pe_write = True\<rparr>)"
    "pp_inner (ps_pipes s' (ps_next_pipe s)) = pipe_inner_new\<lparr>pi_readers := 1, pi_writers := 1\<rparr>"
    "vn_fsid (vs_nodes s' r) = 0" "vn_fsid (vs_nodes s' w) = 0"
  using assms
  by (auto simp: pipefs_create_pair_def vfs_node_alloc_def mark_pipe_node_def pipe_set_handle_def pipe_get_handle_def read_handle_def
      pipe_new_def pipe_inner_new_def upd_pipe_def upd_node_def store_box_def Let_def)

lemma new_pipe_ok: "pipe_ok (pipe_inner_new\<lparr>pi_readers := a, pi_writers := b\<rparr>)" "pipe_contents (pipe_inner_new\<lparr>pi_readers := a, pi_writers := b\<rparr>) = []"
  by (simp_all add: pipe_ok_def pipe_contents_def pipe_inner_new_def ring_list_def)

text \<open>C34: What is written to the write end of a new pipe, up to its capacity, is read back from the read
  end, byte for byte and without waiting.\<close>

theorem pipe_transfers:
  assumes "pipefs_create_pair s = ((r, w), s1)" "data \<noteq> []" "length data \<le> PIPE_CAPACITY" "length data \<le> length buf"
  shows "\<exists>s2 s3. pipefs_write env cpu w off data s1 = Some (Ok (length data), s2)
    \<and> pipefs_read env cpu r off' buf s2 = Some (Ok (length data, data @ drop (length data) buf), s3)"
proof -
  note facts = create_pair_facts [OF assms(1)]
  let ?p = "ps_next_pipe s" and ?inner = "pipe_inner_new\<lparr>pi_readers := 1, pi_writers := 1\<rparr>"
  obtain n inner where put: "pipe_put data ?inner = (n, inner)"
    by force
  obtain bytes inner' where tk: "pipe_take (length buf) inner = (bytes, inner')"
    by force
  have q: "pipe_ok inner" "pipe_contents inner = data"
    using pipe_queue.put_ok [OF new_pipe_ok(1) put] assms(3) by (simp_all add: new_pipe_ok)
  have b: "bytes = data"
    using pipe_queue.get_ok [OF q(1) tk] q(2) assms(4) by simp
  have len: "pi_len inner > 0"
    using length_pipe_contents [of inner] q(2) assms(2) by (metis length_greater_0_conv)
  let ?s2 = "wake_reader (cpu 0) ?p (upd_pipe ?p (pp_inner_update (\<lambda>_. inner)) s1)"
  have "pipefs_write env cpu w off data s1 = Some (Ok (length data), ?s2)"
    using pipe_write_fits [of s1 ?p data env cpu 0] facts(2,3) assms(2,3) new_pipe_ok(1) put
    by (simp add: pipefs_write_def pipe_inner_new_def)
  moreover have "pipe_get_handle r ?s2 = Some (Ok \<lparr>pe_pipe = ?p, pe_write = False\<rparr>)"
    using facts(1) pipe_get_handle_cong [of ?s2 s1 r] by simp
  then have "\<exists>s3. pipefs_read env cpu r off' buf ?s2 = Some (Ok (length data, data @ drop (length data) buf), s3)"
    using pipe_read_ready [of ?s2 ?p buf bytes inner' env cpu 0] len tk b by (simp add: pipefs_read_def)
  ultimately show ?thesis
    by blast
qed

section \<open>Waiting has no end\<close>

text \<open>\<open>wait\<close> is \<open>wait_while\<close> with a condition that always holds: a round only ends the loop when there is
  no current task.\<close>

lemma wait_loop_None:
  assumes "\<And>i s. awake i s \<Longrightarrow> fst (round i s)" "\<And>i s. awake (Suc i) (env i s)" "awake i s"
  shows "wait_loop env round i s = None"
proof -
  have "g = env \<and> f = round \<longrightarrow> \<not> awake i s" if "wait_loop g f i s = Some y" for g f i s y
  proof (rule wait_loop.raw_induct [where P = "\<lambda>g f i s y. g = env \<and> f = round \<longrightarrow> \<not> awake i s", OF _ that], goal_cases)
    case (1 loop g f i s y)
    show ?case
    proof (intro impI notI, elim conjE)
      assume g: "g = env" "f = round" and a: "awake i s"
      obtain s' where "round i s = (True, s')"
        using assms(1) [OF a] by (cases "round i s") auto
      then have "loop env round (Suc i) (env i s') = Some y"
        using 1(2) g by simp
      then show False
        using 1(1) [of env round "Suc i" "env i s'" y] assms(2) by simp
    qed
  qed
  then show ?thesis
    using assms(3) by (cases "wait_loop env round i s") auto
qed

definition runs_task :: "nat \<Rightarrow> 'a PipeState_scheme \<Rightarrow> bool" where
  "runs_task raw s \<longleftrightarrow> current_task raw (ps_sched s) \<noteq> None"

lemma read_wait_sleeps: "runs_task (cpu i) s \<Longrightarrow> fst (read_wait_round cpu p i s)"
  by (auto simp: runs_task_def read_wait_round_def wait_while_def Let_def split: option.split)

text \<open>C33: A task that reads from an empty pipe which still has a writer never comes back, whatever the other
  tasks do in the meantime, also when bytes are written and the reader is woken: \<open>wait\<close> puts it to
  sleep again each time, because its condition always holds.\<close>

theorem pipe_reader_never_returns:
  assumes "pipe_get_handle node s = Some (Ok e)" "\<not> pe_write e"
    "pi_len (pp_inner (ps_pipes s (pe_pipe e))) = 0" "pi_writers (pp_inner (ps_pipes s (pe_pipe e))) > 0"
    "runs_task (cpu 0) s" "\<And>i s. runs_task (cpu (Suc i)) (env i s)"
  shows "pipefs_read env cpu node off buf s = None"
proof -
  have "wait_loop env (read_wait_round cpu (pe_pipe e)) 0 s = None"
    by (rule wait_loop_None [where awake = "\<lambda>i. runs_task (cpu i)"]) (use assms(5,6) read_wait_sleeps in auto)
  then have "pipe_read_loop env cpu (pe_pipe e) buf 0 s = None"
    using assms(3,4) by (subst pipe_read_loop.simps) (simp add: pipe_read_available_def)
  then show ?thesis
    using assms(1,2) by (simp add: pipefs_read_def)
qed

section \<open>Pipes and the virtual file system\<close>

text \<open>C36: A pipe cannot be used through a descriptor: its nodes have no parent and so the file system
  identifier 0, which no registered file system has, and every read and write of them fails, whatever
  file systems are registered.\<close>

theorem pipe_has_no_filesystem:
  assumes "pipefs_create_pair s = ((r, w), s1)" "length fss < 65535"
  shows "vfs_file_read (fst (register_all fss ([], 1))) r off buf s1 = Some (Err FdIo, s1)
    \<and> vfs_file_write (fst (register_all fss ([], 1))) w off data s1 = Some (Err FdIo, s1)"
  using create_pair_facts(4,5) [OF assms(1)] no_filesystem_0 [OF assms(2)]
  by (simp add: vfs_file_read_def vfs_file_write_def map_res_def vfs_read_def vfs_write_def node_ops_def map_err_def)

section \<open>The properties on a concrete pipe\<close>

definition sample_pipes :: PipeState where
  "sample_pipes = \<lparr>vs_nodes = \<lambda>_. new_root, vs_next = 0, vs_root = None, vs_live = \<lambda>_. False, fs_boxes = Map.empty, fs_next_box = 0,
    ps_pipes = \<lambda>_. pipe_new, ps_next_pipe = 0, ps_sched = sample_sched\<rparr>"

lemma sample_pair: "\<exists>r w s1. pipefs_create_pair sample_pipes = ((r, w), s1) \<and> ps_sched s1 = sample_sched"
  by (simp add: pipefs_create_pair_def vfs_node_alloc_def mark_pipe_node_def pipe_set_handle_def upd_pipe_def upd_node_def
      store_box_def Let_def sample_pipes_def)

theorem pipe_fifo_witness:
  "\<exists>p'. run_queue pipe_put pipe_take [Put [1, 2], Get 1] pipe_inner_new = ([1, 2], [1], p') \<and> pipe_contents p' = [2]"
proof -
  have ok: "pipe_ok pipe_inner_new" "pipe_contents pipe_inner_new = []"
    by (simp_all add: pipe_ok_def pipe_contents_def pipe_inner_new_def ring_list_def)
  obtain n p1 where p1: "pipe_put [1, 2] pipe_inner_new = (n, p1)"
    by force
  have put: "n = 2" "pipe_ok p1" "pipe_contents p1 = [1, 2]"
    using pipe_queue.put_ok [OF ok(1) p1] ok(2) by (simp_all add: PIPE_CAPACITY_def min_def)
  obtain ys p2 where p2: "pipe_take 1 p1 = (ys, p2)"
    by force
  have ys: "ys = [1]"
    using pipe_queue.get_ok [OF put(2) p2] put(3) by simp
  have r: "run_queue pipe_put pipe_take [Put [1, 2], Get 1] pipe_inner_new = ([1, 2], [1], p2)"
    using p1 p2 put(1) ys by simp
  show ?thesis
    using pipe_fifo [OF ok(1) r] ok(2) r by auto
qed

theorem pipe_transfers_witness:
  "\<exists>r w s1 s2 s3. pipefs_create_pair sample_pipes = ((r, w), s1)
    \<and> pipefs_write (\<lambda>_ s. s) (\<lambda>_. 0) w 0 [1, 2] s1 = Some (Ok 2, s2) \<and> pipefs_read (\<lambda>_ s. s) (\<lambda>_. 0) r 0 [0, 0, 9] s2 = Some (Ok (2, [1, 2, 9]), s3)"
proof -
  obtain r w s1 where p: "pipefs_create_pair sample_pipes = ((r, w), s1)"
    using sample_pair by blast
  have "[1, 2] \<noteq> ([] :: u8 list)" "length ([1, 2] :: u8 list) \<le> PIPE_CAPACITY" "length ([1, 2] :: u8 list) \<le> length ([0, 0, 9] :: u8 list)"
    by (simp_all add: PIPE_CAPACITY_def)
  from pipe_transfers [OF p this, of "\<lambda>_ s. s" "\<lambda>_. 0" 0 0] show ?thesis
    using p by (simp add: numeral_2_eq_2)
qed

theorem pipe_reader_never_returns_witness:
  "\<exists>r w s1. pipefs_create_pair sample_pipes = ((r, w), s1) \<and> pipefs_read (\<lambda>_ s. s\<lparr>ps_sched := sample_sched\<rparr>) (\<lambda>_. 0) r 0 [0] s1 = None"
proof -
  obtain r w s1 where p: "pipefs_create_pair sample_pipes = ((r, w), s1)" "ps_sched s1 = sample_sched"
    using sample_pair by blast
  note facts = create_pair_facts [OF p(1)]
  have cur: "current_task 0 sample_sched \<noteq> None"
    by (simp add: current_task_def task_cpu_id_def TASK_MAX_CPUS_def sample_sched_def)
  have "pipefs_read (\<lambda>_ s. s\<lparr>ps_sched := sample_sched\<rparr>) (\<lambda>_. 0) r 0 [0] s1 = None"
    by (rule pipe_reader_never_returns [OF facts(1)]) (use facts(3) p(2) cur in \<open>simp_all add: runs_task_def pipe_inner_new_def\<close>)
  then show ?thesis
    using p(1) by blast
qed

theorem pipe_has_no_filesystem_witness:
  "\<exists>r w s1. pipefs_create_pair sample_pipes = ((r, w), s1)
    \<and> vfs_file_read (fst (register_all [(''tmpfs'', tmpfs_ops), (''pipefs'', pipefs_ops (\<lambda>_ s. s) (\<lambda>_. 0))] ([], 1))) r 0 [0] s1 = Some (Err FdIo, s1)"
proof -
  obtain r w s1 where p: "pipefs_create_pair sample_pipes = ((r, w), s1)"
    using sample_pair by blast
  show ?thesis
    using pipe_has_no_filesystem [OF p, of "[(''tmpfs'', tmpfs_ops), (''pipefs'', pipefs_ops (\<lambda>_ s. s) (\<lambda>_. 0))]" 0 "[0]" "[]"] p by auto
qed

end
