(* ===== verification/Sockfs.thy ===== *)
theory Sockfs
  imports Pipefs
begin

text \<open>
  Sockets between tasks (\<open>kernel_fs/src/fs/sockfs.rs\<close>): each socket has a ring of 4096 bytes that its
  peer writes to, a list of connections to accept, and wait queues for readers and for \<open>accept\<close>.
\<close>

section \<open>Ring buffers\<close>

definition SOCK_CAPACITY :: nat where
  "SOCK_CAPACITY = 4096"

record RingBuf =
  rb_buf :: "u8 list"
  rb_head :: nat
  rb_len :: nat

definition ring_new :: RingBuf where
  "ring_new = \<lparr>rb_buf = replicate SOCK_CAPACITY 0, rb_head = 0, rb_len = 0\<rparr>"

definition rb_read_available :: "RingBuf \<Rightarrow> nat" where
  "rb_read_available r = rb_len r"

definition rb_write_available :: "RingBuf \<Rightarrow> nat" where
  "rb_write_available r = SOCK_CAPACITY - rb_len r"

definition rb_read :: "nat \<Rightarrow> RingBuf \<Rightarrow> u8 list \<times> RingBuf" where
  "rb_read len r =
    (let n = min len (rb_len r);
         (bytes, head) = ring_out SOCK_CAPACITY n (rb_buf r) (rb_head r)
     in (bytes, r\<lparr>rb_head := head, rb_len := rb_len r - n\<rparr>))"

definition rb_write :: "u8 list \<Rightarrow> RingBuf \<Rightarrow> nat \<times> RingBuf" where
  "rb_write input r =
    (let n = min (length input) (rb_write_available r)
     in (n, r\<lparr>rb_buf := ring_in SOCK_CAPACITY (rb_head r + rb_len r) (take n input) (rb_buf r), rb_len := rb_len r + n\<rparr>))"

section \<open>Sockets\<close>

datatype SockType = StreamSock | DgramSock

datatype SockState = Unconnected | Listening | Connected | SockClosed

record SockInner =
  si_ty :: SockType
  si_state :: SockState
  si_recv :: RingBuf
  si_peer :: "nat option"
  si_backlog :: "nat list"

record Sock =
  sk_inner :: SockInner
  sk_recv_wait :: WaitQueue
  sk_accept_wait :: WaitQueue

definition sock_inner_new :: "SockType \<Rightarrow> SockInner" where
  "sock_inner_new ty = \<lparr>si_ty = ty, si_state = Unconnected, si_recv = ring_new, si_peer = None, si_backlog = []\<rparr>"

definition sock_new :: "SockType \<Rightarrow> Sock" where
  "sock_new ty = \<lparr>sk_inner = sock_inner_new ty, sk_recv_wait = [], sk_accept_wait = []\<rparr>"

record SockSys = FsState +
  ss_socks :: "nat \<Rightarrow> Sock"
  ss_next_sock :: nat
  ss_sched :: Sched

definition upd_sock :: "nat \<Rightarrow> (Sock \<Rightarrow> Sock) \<Rightarrow> 'a SockSys_scheme \<Rightarrow> 'a SockSys_scheme" where
  "upd_sock k f s = s\<lparr>ss_socks := (ss_socks s)(k := f (ss_socks s k))\<rparr>"

abbreviation inner_of :: "'a SockSys_scheme \<Rightarrow> nat \<Rightarrow> SockInner" where
  "inner_of s k \<equiv> sk_inner (ss_socks s k)"

fun as_sock :: "fs_box \<Rightarrow> nat option" where
  "as_sock (SockBox k) = Some k"
| "as_sock _ = None"

definition sock_get_handle :: "nref \<Rightarrow> 'a FsState_scheme \<Rightarrow> nat VfsResult option" where
  "sock_get_handle = read_handle as_sock"

definition sock_set_handle :: "nref \<Rightarrow> nat \<Rightarrow> 'a FsState_scheme \<Rightarrow> 'a FsState_scheme" where
  "sock_set_handle node k s = store_box node (SockBox k) s"

text \<open>A node for a socket, as \<open>sockfs_create_socket\<close> and \<open>sockfs_accept\<close> make it.\<close>

definition sock_node :: "nat \<Rightarrow> 'a SockSys_scheme \<Rightarrow> nref \<times> 'a SockSys_scheme" where
  "sock_node k s =
    (let (node, s) = vfs_node_alloc None ''socket'' s;
         s = upd_node node (vn_type_update (\<lambda>_. Socket)) s;
         s = upd_node node (vn_flags_update (\<lambda>f. or f VFS_NODE_PRIVATE_FD)) s
     in (node, sock_set_handle node k s))"

definition sockfs_create_socket :: "SockType \<Rightarrow> 'a SockSys_scheme \<Rightarrow> nref \<times> 'a SockSys_scheme" where
  "sockfs_create_socket ty s =
    (let k = ss_next_sock s
     in sock_node k (s\<lparr>ss_socks := (ss_socks s)(k := sock_new ty), ss_next_sock := k + 1\<rparr>))"

text \<open>The handle of a node, with the early return when there is none.\<close>

definition with_sock ::
  "nref \<Rightarrow> 'a SockSys_scheme \<Rightarrow> (nat \<Rightarrow> ('r VfsResult \<times> 'a SockSys_scheme) option) \<Rightarrow> ('r VfsResult \<times> 'a SockSys_scheme) option" where
  "with_sock node s f =
    do {
      h \<leftarrow> sock_get_handle node s;
      (case h of Err e \<Rightarrow> Some (Err e, s) | Ok k \<Rightarrow> f k)
    }"

definition sockfs_bind :: "nref \<Rightarrow> 'a SockSys_scheme \<Rightarrow> (unit VfsResult \<times> 'a SockSys_scheme) option" where
  "sockfs_bind node s =
    with_sock node s (\<lambda>k.
      if si_state (inner_of s k) \<noteq> Unconnected then Some (Err Invalid, s)
      else Some (Ok (), upd_sock k (sk_inner_update (si_state_update (\<lambda>_. Connected))) s))"

definition sockfs_listen :: "nref \<Rightarrow> 'a SockSys_scheme \<Rightarrow> (unit VfsResult \<times> 'a SockSys_scheme) option" where
  "sockfs_listen node s =
    with_sock node s (\<lambda>k.
      if si_state (inner_of s k) \<noteq> Unconnected \<and> si_state (inner_of s k) \<noteq> Connected then Some (Err Invalid, s)
      else Some (Ok (), upd_sock k (sk_inner_update (si_state_update (\<lambda>_. Listening))) s))"

text \<open>\<open>sockfs_connect\<close> locks the server's socket and then the client's: for one socket the second lock is
  never taken.\<close>

definition sockfs_connect :: "nat \<Rightarrow> nref \<Rightarrow> nref \<Rightarrow> 'a SockSys_scheme \<Rightarrow> (unit VfsResult \<times> 'a SockSys_scheme) option" where
  "sockfs_connect raw client server s =
    with_sock client s (\<lambda>c. with_sock server s (\<lambda>k.
      if si_state (inner_of s k) \<noteq> Listening then Some (Err Invalid, s)
      else if c = k then None
      else
        let a = ss_next_sock s;
            accepted = sock_new (si_ty (inner_of s k));
            s = s\<lparr>ss_socks := (ss_socks s)(a := accepted), ss_next_sock := a + 1\<rparr>;
            s = upd_sock a (sk_inner_update (\<lambda>i. i\<lparr>si_state := Connected, si_peer := Some c\<rparr>)) s;
            s = upd_sock c (sk_inner_update (\<lambda>i. i\<lparr>si_state := Connected, si_peer := Some a\<rparr>)) s;
            s = upd_sock k (sk_inner_update (si_backlog_update (\<lambda>b. b @ [a]))) s;
            (q, sc) = wake_one raw (sk_accept_wait (ss_socks s k)) (ss_sched s)
        in Some (Ok (), upd_sock k (sk_accept_wait_update (\<lambda>_. q)) (s\<lparr>ss_sched := sc\<rparr>))))"

definition accept_wait_round :: "(nat \<Rightarrow> nat) \<Rightarrow> nat \<Rightarrow> nat \<Rightarrow> 'a SockSys_scheme \<Rightarrow> bool \<times> 'a SockSys_scheme" where
  "accept_wait_round cpu k i s =
    (let (sleeps, q, sc) = wait_while True (cpu i) (sk_accept_wait (ss_socks s k)) (ss_sched s)
     in (sleeps, upd_sock k (sk_accept_wait_update (\<lambda>_. q)) (s\<lparr>ss_sched := sc\<rparr>)))"

partial_function (option) accept_loop ::
  "('a SockSys_scheme) wait_env \<Rightarrow> (nat \<Rightarrow> nat) \<Rightarrow> nat \<Rightarrow> nat \<Rightarrow> 'a SockSys_scheme \<Rightarrow> (nref VfsResult \<times> 'a SockSys_scheme) option" where
  "accept_loop env cpu k i s =
    (let backlog = si_backlog (inner_of s k) in
     if backlog \<noteq> [] then
       let s = upd_sock k (sk_inner_update (si_backlog_update (\<lambda>_. butlast backlog))) s;
           (node, s) = sock_node (last backlog) s
       in Some (Ok node, s)
     else
       do {
         (i, s) \<leftarrow> wait_loop env (accept_wait_round cpu k) i s;
         accept_loop env cpu k i s
       })"

definition sockfs_accept ::
  "('a SockSys_scheme) wait_env \<Rightarrow> (nat \<Rightarrow> nat) \<Rightarrow> nref \<Rightarrow> 'a SockSys_scheme \<Rightarrow> (nref VfsResult \<times> 'a SockSys_scheme) option" where
  "sockfs_accept env cpu server s = with_sock server s (\<lambda>k. accept_loop env cpu k 0 s)"

definition recv_wait_round :: "(nat \<Rightarrow> nat) \<Rightarrow> nat \<Rightarrow> nat \<Rightarrow> 'a SockSys_scheme \<Rightarrow> bool \<times> 'a SockSys_scheme" where
  "recv_wait_round cpu k i s =
    (let (sleeps, q, sc) = wait_while True (cpu i) (sk_recv_wait (ss_socks s k)) (ss_sched s)
     in (sleeps, upd_sock k (sk_recv_wait_update (\<lambda>_. q)) (s\<lparr>ss_sched := sc\<rparr>)))"

partial_function (option) sock_read_loop ::
  "('a SockSys_scheme) wait_env \<Rightarrow> (nat \<Rightarrow> nat) \<Rightarrow> nat \<Rightarrow> u8 list \<Rightarrow> nat \<Rightarrow> 'a SockSys_scheme \<Rightarrow>
    ((nat \<times> u8 list) VfsResult \<times> 'a SockSys_scheme) option" where
  "sock_read_loop env cpu k buf i s =
    (if rb_read_available (si_recv (inner_of s k)) > 0 then
       let (bytes, recv) = rb_read (length buf) (si_recv (inner_of s k))
       in Some (Ok (length bytes, bytes @ drop (length bytes) buf), upd_sock k (sk_inner_update (si_recv_update (\<lambda>_. recv))) s)
     else if si_state (inner_of s k) = SockClosed then Some (Ok (0, buf), s)
     else
       do {
         (i, s) \<leftarrow> wait_loop env (recv_wait_round cpu k) i s;
         sock_read_loop env cpu k buf i s
       })"

definition sockfs_read ::
  "('a SockSys_scheme) wait_env \<Rightarrow> (nat \<Rightarrow> nat) \<Rightarrow> nref \<Rightarrow> usize \<Rightarrow> u8 list \<Rightarrow> 'a SockSys_scheme \<Rightarrow>
    ((nat \<times> u8 list) VfsResult \<times> 'a SockSys_scheme) option" where
  "sockfs_read env cpu node offset buf s = with_sock node s (\<lambda>k. sock_read_loop env cpu k buf 0 s)"

definition sockfs_write :: "nat \<Rightarrow> nref \<Rightarrow> usize \<Rightarrow> u8 list \<Rightarrow> 'a SockSys_scheme \<Rightarrow> (nat VfsResult \<times> 'a SockSys_scheme) option" where
  "sockfs_write raw node offset buf s =
    with_sock node s (\<lambda>k.
      case si_peer (inner_of s k) of
        None \<Rightarrow> Some (Err Invalid, s)
      | Some p \<Rightarrow>
          let (n, recv) = rb_write buf (si_recv (inner_of s p));
              s = upd_sock p (sk_inner_update (si_recv_update (\<lambda>_. recv))) s;
              (q, sc) = wake_one raw (sk_recv_wait (ss_socks s p)) (ss_sched s)
          in Some (Ok n, upd_sock p (sk_recv_wait_update (\<lambda>_. q)) (s\<lparr>ss_sched := sc\<rparr>)))"

definition sockfs_drop :: "nref \<Rightarrow> 'a SockSys_scheme \<Rightarrow> (unit VfsResult \<times> 'a SockSys_scheme) option" where
  "sockfs_drop node s = do { s \<leftarrow> drop_handle node s; Some (Ok (), s) }"

definition sockfs_ops :: "('a SockSys_scheme) wait_env \<Rightarrow> (nat \<Rightarrow> nat) \<Rightarrow> ('a SockSys_scheme) VfsOps" where
  "sockfs_ops env cpu = default_ops\<lparr>
    vo_read := sockfs_read env cpu,
    vo_write := sockfs_write (cpu 0),
    vo_delete := \<lambda>_ node. sockfs_drop node,
    vo_free := sockfs_drop\<rparr>"

section \<open>The receive ring is a queue\<close>

definition ring_ok :: "RingBuf \<Rightarrow> bool" where
  "ring_ok r \<longleftrightarrow> length (rb_buf r) = SOCK_CAPACITY \<and> rb_head r < SOCK_CAPACITY \<and> rb_len r \<le> SOCK_CAPACITY"

definition ring_contents :: "RingBuf \<Rightarrow> u8 list" where
  "ring_contents r = ring_list SOCK_CAPACITY (rb_buf r) (rb_head r) (rb_len r)"

lemma SOCK_CAPACITY_pos [simp]: "0 < SOCK_CAPACITY"
  by (simp add: SOCK_CAPACITY_def)

lemma length_ring_contents [simp]: "length (ring_contents r) = rb_len r"
  by (simp add: ring_contents_def)

text \<open>The laws carry over from the ring of a pipe, which has the same layout and the same loops.\<close>

definition as_pipe_inner :: "RingBuf \<Rightarrow> PipeInner" where
  "as_pipe_inner r = \<lparr>pi_buf = rb_buf r, pi_head = rb_head r, pi_len = rb_len r, pi_readers = 0, pi_writers = 0\<rparr>"

lemma capacities: "SOCK_CAPACITY = PIPE_CAPACITY"
  by (simp add: SOCK_CAPACITY_def PIPE_CAPACITY_def)

lemma as_pipe_inner_simps:
  "pipe_ok (as_pipe_inner r) = ring_ok r" "pipe_contents (as_pipe_inner r) = ring_contents r"
  "pipe_put xs (as_pipe_inner r) = (let (n, r') = rb_write xs r in (n, as_pipe_inner r'))"
  "pipe_take n (as_pipe_inner r) = (let (ys, r') = rb_read n r in (ys, as_pipe_inner r'))"
  by (simp_all add: as_pipe_inner_def pipe_ok_def ring_ok_def pipe_contents_def ring_contents_def capacities pipe_put_def rb_write_def
      pipe_take_def rb_read_def pipe_read_available_def pipe_write_available_def rb_write_available_def Let_def min.commute split: prod.split)

interpretation sock_queue: byte_queue SOCK_CAPACITY ring_ok ring_contents rb_write rb_read
proof
  fix r r' n xs ys
  show "length (ring_contents r) \<le> SOCK_CAPACITY" if "ring_ok r"
    using that by (simp add: ring_ok_def)
  show "ring_ok r' \<and> n = min (length xs) (SOCK_CAPACITY - length (ring_contents r)) \<and> ring_contents r' = ring_contents r @ take n xs"
    if "ring_ok r" "rb_write xs r = (n, r')"
    using pipe_queue.put_ok [of "as_pipe_inner r" xs n "as_pipe_inner r'"] that by (simp add: as_pipe_inner_simps capacities)
  show "ring_ok r' \<and> ys = take n (ring_contents r) \<and> ring_contents r' = drop n (ring_contents r)"
    if "ring_ok r" "rb_read n r = (ys, r')"
    using pipe_queue.get_ok [of "as_pipe_inner r" n ys "as_pipe_inner r'"] that by (simp add: as_pipe_inner_simps)
qed

section \<open>A connection\<close>

lemma upd_sock_simps [simp]:
  "ss_socks (upd_sock k f s) j = (if j = k then f (ss_socks s k) else ss_socks s j)"
  "vs_nodes (upd_sock k f s) = vs_nodes s" "fs_boxes (upd_sock k f s) = fs_boxes s" "ss_next_sock (upd_sock k f s) = ss_next_sock s"
  "vs_next (upd_sock k f s) = vs_next s" "fs_next_box (upd_sock k f s) = fs_next_box s"
  by (simp_all add: upd_sock_def)

lemma sock_get_handle_cong:
  "vs_nodes s' n = vs_nodes s n \<Longrightarrow> fs_boxes s' = fs_boxes s \<Longrightarrow> sock_get_handle n s' = sock_get_handle n s"
  by (simp add: sock_get_handle_def read_handle_def split: option.split)

lemma sock_node_handle:
  assumes "sock_node k s = (n, s')"
  shows "sock_get_handle n s' = Some (Ok k)" "ss_socks s' = ss_socks s" "n = vs_next s"
    "m \<noteq> n \<Longrightarrow> vs_nodes s' m = vs_nodes s m" "fs_boxes s' = (fs_boxes s)(Suc (fs_next_box s) \<mapsto> SockBox k)"
  using assms by (auto simp: sock_node_def vfs_node_alloc_def sock_set_handle_def sock_get_handle_def read_handle_def upd_node_def
      store_box_def Let_def)

lemma sock_get_handle_keep:
  assumes "sock_get_handle c s = Some (Ok k)" "boxes_ok s" "vs_nodes s' c = vs_nodes s c"
    "fs_boxes s' = (fs_boxes s)(Suc (fs_next_box s) \<mapsto> b)"
  shows "sock_get_handle c s' = Some (Ok k)"
proof -
  obtain ptr where ptr: "vn_handle (vs_nodes s c) = Some ptr" "ptr \<noteq> 0" "Option.bind (fs_boxes s ptr) as_sock = Some k"
    using assms(1) unfolding sock_get_handle_def read_handle_def by (auto split: option.splits if_splits)
  then have "ptr \<noteq> Suc (fs_next_box s)"
    using assms(2) by (auto simp: boxes_ok_def bind_eq_Some_conv)
  then show ?thesis
    using ptr assms(3,4) by (simp add: sock_get_handle_def read_handle_def)
qed

lemma connect_effect:
  assumes "sock_get_handle c s = Some (Ok ck)" "sock_get_handle v s = Some (Ok vk)" "ck \<noteq> vk"
    "si_state (inner_of s vk) = Listening" "ck < ss_next_sock s" "vk < ss_next_sock s"
  shows "\<exists>s'. sockfs_connect raw c v s = Some (Ok (), s') \<and> vs_nodes s' = vs_nodes s \<and> fs_boxes s' = fs_boxes s
    \<and> vs_next s' = vs_next s \<and> fs_next_box s' = fs_next_box s
    \<and> si_backlog (inner_of s' vk) = si_backlog (inner_of s vk) @ [ss_next_sock s]
    \<and> si_peer (inner_of s' ck) = Some (ss_next_sock s) \<and> si_recv (inner_of s' (ss_next_sock s)) = ring_new"
  using assms
  by (auto simp: sockfs_connect_def with_sock_def Let_def sock_new_def sock_inner_new_def split: prod.split)

lemma write_effect:
  assumes "sock_get_handle c s = Some (Ok ck)" "si_peer (inner_of s ck) = Some p" "rb_write data (si_recv (inner_of s p)) = (n, recv)"
  shows "\<exists>s'. sockfs_write raw c off data s = Some (Ok n, s') \<and> si_recv (inner_of s' p) = recv
    \<and> vs_nodes s' = vs_nodes s \<and> fs_boxes s' = fs_boxes s"
  using assms by (auto simp: sockfs_write_def with_sock_def Let_def split: prod.split)

lemma accept_ready:
  assumes "si_backlog (inner_of s k) = b @ [a]"
  shows "accept_loop env cpu k i s =
    (let (node, s) = sock_node a (upd_sock k (sk_inner_update (si_backlog_update (\<lambda>_. b))) s) in Some (Ok node, s))"
  using assms by (subst accept_loop.simps) (simp add: Let_def)

lemma sock_read_ready:
  assumes "rb_len (si_recv (inner_of s k)) > 0" "rb_read (length buf) (si_recv (inner_of s k)) = (bytes, recv)"
  shows "\<exists>s'. sock_read_loop env cpu k buf i s = Some (Ok (length bytes, bytes @ drop (length bytes) buf), s')"
  using assms by (subst sock_read_loop.simps) (simp add: rb_read_available_def)

lemma ring_new_ok: "ring_ok ring_new" "ring_contents ring_new = []"
  by (simp_all add: ring_ok_def ring_contents_def ring_new_def ring_list_def)

text \<open>C37: A connection to a listening socket works: \<open>connect\<close> returns, \<open>accept\<close> then returns the other end without
  waiting, and what the client writes, up to the capacity, the accepted end reads byte for byte.\<close>

theorem sock_connection_transfers:
  assumes "sock_get_handle c s = Some (Ok ck)" "sock_get_handle v s = Some (Ok vk)" "ck \<noteq> vk"
    "si_state (inner_of s vk) = Listening" "ck < ss_next_sock s" "vk < ss_next_sock s" "c < vs_next s" "boxes_ok s"
    "data \<noteq> []" "length data \<le> SOCK_CAPACITY" "length data \<le> length buf"
  shows "\<exists>s1 a s2 s3 s4. sockfs_connect raw c v s = Some (Ok (), s1) \<and> sockfs_accept env cpu v s1 = Some (Ok a, s2)
    \<and> sockfs_write raw c off data s2 = Some (Ok (length data), s3)
    \<and> sockfs_read env cpu a off' buf s3 = Some (Ok (length data, data @ drop (length data) buf), s4)"
proof -
  let ?a = "ss_next_sock s"
  obtain s1 where s1: "sockfs_connect raw c v s = Some (Ok (), s1)" "vs_nodes s1 = vs_nodes s" "fs_boxes s1 = fs_boxes s"
      "vs_next s1 = vs_next s" "fs_next_box s1 = fs_next_box s"
      "si_backlog (inner_of s1 vk) = si_backlog (inner_of s vk) @ [?a]"
      "si_peer (inner_of s1 ck) = Some ?a" "si_recv (inner_of s1 ?a) = ring_new"
    using connect_effect [OF assms(1-6), of raw] by blast
  let ?sv = "upd_sock vk (sk_inner_update (si_backlog_update (\<lambda>_. si_backlog (inner_of s vk)))) s1"
  obtain a s2 where a: "sock_node ?a ?sv = (a, s2)"
    by force
  note node = sock_node_handle [OF a]
  have acc: "sockfs_accept env cpu v s1 = Some (Ok a, s2)"
    using sock_get_handle_cong [of s1 v s] s1(2,3) assms(2) accept_ready [OF s1(6), of env cpu 0] a
    by (simp add: sockfs_accept_def with_sock_def)
  have s2: "si_peer (inner_of s2 ck) = Some ?a" "si_recv (inner_of s2 ?a) = ring_new"
    using node(2) s1(7,8) by auto
  have hc: "sock_get_handle c s2 = Some (Ok ck)"
  proof (rule sock_get_handle_keep [OF assms(1,8)])
    show "vs_nodes s2 c = vs_nodes s c"
      using node(3) node(4) [of c] s1(2,4) assms(7) by simp
    show "fs_boxes s2 = (fs_boxes s)(Suc (fs_next_box s) \<mapsto> SockBox ?a)"
      using node(5) s1(3,5) by simp
  qed
  obtain n recv where w: "rb_write data ring_new = (n, recv)"
    by force
  have q: "ring_ok recv" "ring_contents recv = data" "n = length data"
    using sock_queue.put_ok [OF ring_new_ok(1) w] assms(10) by (simp_all add: ring_new_ok)
  obtain s3 where s3: "sockfs_write raw c off data s2 = Some (Ok n, s3)" "si_recv (inner_of s3 ?a) = recv"
      "vs_nodes s3 = vs_nodes s2" "fs_boxes s3 = fs_boxes s2"
    using write_effect [OF hc s2(1), of data n recv raw off] s2(2) w by auto
  have ha: "sock_get_handle a s3 = Some (Ok ?a)"
    using node(1) s3(3,4) sock_get_handle_cong [of s3 a s2] by simp
  obtain bytes recv' where r: "rb_read (length buf) recv = (bytes, recv')"
    by force
  have b: "bytes = data"
    using sock_queue.get_ok [OF q(1) r] q(2) assms(11) by simp
  have len: "rb_len recv > 0"
    using length_ring_contents [of recv] q(2) assms(9) by (metis length_greater_0_conv)
  have "\<exists>s4. sockfs_read env cpu a off' buf s3 = Some (Ok (length data, data @ drop (length data) buf), s4)"
    using sock_read_ready [of s3 ?a buf bytes recv' env cpu 0] s3(2) len r b ha by (simp add: sockfs_read_def with_sock_def)
  then show ?thesis
    using s1(1) acc s3(1) q(3) by blast
qed

text \<open>Two sockets, the second of which listens.\<close>

definition sample_socks :: SockSys where
  "sample_socks = \<lparr>vs_nodes = (\<lambda>n. new_root\<lparr>vn_handle := Some (Suc n)\<rparr>), vs_next = 2, vs_root = None, vs_live = \<lambda>_. True,
    fs_boxes = [1 \<mapsto> SockBox 0, 2 \<mapsto> SockBox 1], fs_next_box = 2,
    ss_socks = (\<lambda>k. if k = 1 then (sock_new StreamSock)\<lparr>sk_inner := (sock_inner_new StreamSock)\<lparr>si_state := Listening\<rparr>\<rparr> else sock_new StreamSock),
    ss_next_sock = 2, ss_sched = sample_sched\<rparr>"

theorem sock_connection_transfers_witness:
  "\<exists>s1 a s2 s3 s4. sockfs_connect 0 0 1 sample_socks = Some (Ok (), s1) \<and> sockfs_accept (\<lambda>_ s. s) (\<lambda>_. 0) 1 s1 = Some (Ok a, s2)
    \<and> sockfs_write 0 0 0 [7] s2 = Some (Ok 1, s3) \<and> sockfs_read (\<lambda>_ s. s) (\<lambda>_. 0) a 0 [0, 9] s3 = Some (Ok (1, [7, 9]), s4)"
proof -
  have "sock_get_handle 0 sample_socks = Some (Ok 0)" "sock_get_handle 1 sample_socks = Some (Ok 1)"
    "si_state (inner_of sample_socks 1) = Listening" "0 < ss_next_sock sample_socks" "1 < ss_next_sock sample_socks"
    "0 < vs_next sample_socks" "boxes_ok sample_socks"
    by (auto simp: sample_socks_def sock_get_handle_def read_handle_def boxes_ok_def split: if_splits)
  then show ?thesis
    using sock_connection_transfers [of 0 sample_socks 0 1 1 "[7]" "[0, 9]" 0 "\<lambda>_ s. s" "\<lambda>_. 0" 0 0] by (simp add: SOCK_CAPACITY_def)
qed

end
