(* ===== verification/Keyboard.thy ===== *)
theory Keyboard
  imports Pipefs
begin

text \<open>
  The keyboard driver (\<open>kernel_driver_hub/src/driver_hub/keyboard.rs\<close>): the interrupt handler puts
  scancodes into a ring of 256 bytes, one of which stays free, and readers decode them. The bytes that
  the controller delivers are arguments; setting the controller up is port input and output and is
  not modelled.
\<close>

section \<open>State\<close>

definition KBD_BUF_SIZE :: nat where
  "KBD_BUF_SIZE = 256"

definition NO_LAST_MAKE :: nat where
  "NO_LAST_MAKE = 0x1ff"

record Keyboard =
  kb_buf :: "u8 list"
  kb_head :: nat
  kb_tail :: nat
  kb_shift :: bool
  kb_caps_lock :: bool
  kb_ctrl :: bool
  kb_dropped :: usize
  kb_irq_input_active :: bool
  kb_fallback_active :: bool
  kb_fallback_logged :: bool
  kb_last_make :: nat
  kb_waitq :: WaitQueue

definition keyboard_init :: Keyboard where
  "keyboard_init = \<lparr>kb_buf = replicate KBD_BUF_SIZE 0, kb_head = 0, kb_tail = 0, kb_shift = False, kb_caps_lock = False,
    kb_ctrl = False, kb_dropped = 0, kb_irq_input_active = False, kb_fallback_active = False, kb_fallback_logged = False,
    kb_last_make = NO_LAST_MAKE, kb_waitq = []\<rparr>"

section \<open>The ring\<close>

definition push_scancode :: "u8 \<Rightarrow> Keyboard \<Rightarrow> Keyboard" where
  "push_scancode scancode k =
    (let nxt = (kb_head k + 1) mod KBD_BUF_SIZE in
     if nxt = kb_tail k then k\<lparr>kb_dropped := kb_dropped k + 1\<rparr>
     else k\<lparr>kb_buf := (kb_buf k)[kb_head k := scancode], kb_head := nxt\<rparr>)"

definition pop_scancode :: "Keyboard \<Rightarrow> u8 option \<times> Keyboard" where
  "pop_scancode k =
    (if kb_tail k = kb_head k then (None, k)
     else (Some (kb_buf k ! kb_tail k), k\<lparr>kb_tail := (kb_tail k + 1) mod KBD_BUF_SIZE\<rparr>))"

definition wake_readers :: "nat \<Rightarrow> Keyboard \<times> Sched \<Rightarrow> Keyboard \<times> Sched" where
  "wake_readers raw w = (let (q, sc) = wake_all raw (kb_waitq (fst w)) (snd w) in ((fst w)\<lparr>kb_waitq := q\<rparr>, sc))"

definition feed_scancode :: "nat \<Rightarrow> u8 \<Rightarrow> bool \<Rightarrow> Keyboard \<times> Sched \<Rightarrow> Keyboard \<times> Sched" where
  "feed_scancode raw scancode wake w =
    (if scancode = 0xFA then w
     else
       let k = push_scancode scancode (fst w) in
       if wake then let (q, sc) = wake_one raw (kb_waitq k) (snd w) in (k\<lparr>kb_waitq := q\<rparr>, sc)
       else (k, snd w))"

definition irq_scancode :: "nat \<Rightarrow> u8 \<Rightarrow> Keyboard \<times> Sched \<Rightarrow> Keyboard \<times> Sched" where
  "irq_scancode raw scancode w =
    (let k = fst w;
         k = (if scancode \<noteq> 0xFA then k\<lparr>kb_irq_input_active := True\<rparr> else k);
         k = k\<lparr>kb_fallback_active := False, kb_fallback_logged := False\<rparr>
     in feed_scancode raw scancode True (k, snd w))"

definition dropped_count :: "Keyboard \<Rightarrow> usize" where
  "dropped_count k = kb_dropped k"

definition irq_input_active :: "Keyboard \<Rightarrow> bool" where
  "irq_input_active k = kb_irq_input_active k"

section \<open>Decoding\<close>

definition byte :: "char \<Rightarrow> u8" where
  "byte c = of_char c"

definition letter_table :: "(u8 \<times> char \<times> char) list" where
  "letter_table =
    [(0x10, CHR ''Q'', CHR ''q''), (0x11, CHR ''W'', CHR ''w''), (0x12, CHR ''E'', CHR ''e''), (0x13, CHR ''R'', CHR ''r''),
     (0x14, CHR ''T'', CHR ''t''), (0x15, CHR ''Y'', CHR ''y''), (0x16, CHR ''U'', CHR ''u''), (0x17, CHR ''I'', CHR ''i''),
     (0x18, CHR ''O'', CHR ''o''), (0x19, CHR ''P'', CHR ''p''), (0x1E, CHR ''A'', CHR ''a''), (0x1F, CHR ''S'', CHR ''s''),
     (0x20, CHR ''D'', CHR ''d''), (0x21, CHR ''F'', CHR ''f''), (0x22, CHR ''G'', CHR ''g''), (0x23, CHR ''H'', CHR ''h''),
     (0x24, CHR ''J'', CHR ''j''), (0x25, CHR ''K'', CHR ''k''), (0x26, CHR ''L'', CHR ''l''), (0x2C, CHR ''Z'', CHR ''z''),
     (0x2D, CHR ''X'', CHR ''x''), (0x2E, CHR ''C'', CHR ''c''), (0x2F, CHR ''V'', CHR ''v''), (0x30, CHR ''B'', CHR ''b''),
     (0x31, CHR ''N'', CHR ''n''), (0x32, CHR ''M'', CHR ''m'')]"

definition scancode_letter :: "u8 \<Rightarrow> bool \<Rightarrow> u8 option" where
  "scancode_letter sc uppercase =
    (case map_of letter_table sc of Some (up, low) \<Rightarrow> Some (byte (if uppercase then up else low)) | None \<Rightarrow> None)"

text \<open>The other keys: the byte without and with shift.\<close>

definition symbol_table :: "(u8 \<times> u8 \<times> u8) list" where
  "symbol_table =
    [(0x02, byte CHR ''1'', byte CHR ''!''), (0x03, byte CHR ''2'', byte CHR ''@''), (0x04, byte CHR ''3'', byte CHR ''#''),
     (0x05, byte CHR ''4'', byte CHR ''$''), (0x06, byte CHR ''5'', byte CHR ''%''), (0x07, byte CHR ''6'', byte CHR ''^''),
     (0x08, byte CHR ''7'', byte CHR ''&''), (0x09, byte CHR ''8'', byte CHR ''*''), (0x0A, byte CHR ''9'', byte CHR ''(''),
     (0x0B, byte CHR ''0'', byte CHR '')''), (0x39, byte CHR '' '', byte CHR '' ''), (0x1C, 0x0A, 0x0A), (0x0E, 0x08, 0x08),
     (0x0C, byte CHR ''-'', byte CHR ''_''), (0x0D, byte CHR ''='', byte CHR ''+''), (0x1A, byte CHR ''['', byte CHR ''{''),
     (0x1B, byte CHR '']'', byte CHR ''}''), (0x27, byte CHR '';'', byte CHR '':''), (0x28, 0x27, byte CHR 0x22),
     (0x29, 0x60, byte CHR ''~''), (0x2B, 0x5C, byte CHR ''|''), (0x33, byte CHR '','', byte CHR ''<''),
     (0x34, byte CHR ''.'', byte CHR ''>''), (0x35, byte CHR ''/'', byte CHR ''?'')]"

definition scancode_to_ascii :: "u8 \<Rightarrow> bool \<Rightarrow> bool \<Rightarrow> u8 option" where
  "scancode_to_ascii sc shifted caps =
    (case scancode_letter sc caps of
       Some letter \<Rightarrow> Some letter
     | None \<Rightarrow> (case map_of symbol_table sc of Some (plain, upper) \<Rightarrow> Some (if shifted then upper else plain) | None \<Rightarrow> None))"

definition reset_input_state :: "Keyboard \<Rightarrow> Keyboard" where
  "reset_input_state k = k\<lparr>kb_shift := False, kb_ctrl := False, kb_last_make := NO_LAST_MAKE, kb_tail := kb_head k\<rparr>"

definition handle_key_release :: "u8 \<Rightarrow> Keyboard \<Rightarrow> Keyboard" where
  "handle_key_release code k =
    (let k = (if kb_last_make k = unat code then k\<lparr>kb_last_make := NO_LAST_MAKE\<rparr> else k);
         k = (if code = 0x2A \<or> code = 0x36 then k\<lparr>kb_shift := False\<rparr> else k)
     in if code = 0x1D then k\<lparr>kb_ctrl := False\<rparr> else k)"

text \<open>One scancode of the loop of \<open>read_bytes\<close>: the byte it gives, if any, whether the next scancode is a
  release after the prefix \<open>0xF0\<close>, and the state.\<close>

definition decode_step :: "u8 \<Rightarrow> bool \<Rightarrow> Keyboard \<Rightarrow> u8 option \<times> bool \<times> Keyboard" where
  "decode_step sc saw_release_prefix k =
    (if sc = 0xE0 \<or> sc = 0xE1 then (None, saw_release_prefix, k)
     else if saw_release_prefix then (None, False, handle_key_release sc k)
     else if sc = 0xF0 then (None, True, k)
     else if and sc 0x80 \<noteq> 0 then (None, False, handle_key_release (and sc 0x7F) k)
     else if kb_last_make k = unat sc then (None, False, k)
     else
       let k = k\<lparr>kb_last_make := unat sc\<rparr> in
       if sc = 0x2A \<or> sc = 0x36 then (None, False, k\<lparr>kb_shift := True\<rparr>)
       else if sc = 0x3A then (None, False, k\<lparr>kb_caps_lock := \<not> kb_caps_lock k\<rparr>)
       else if sc = 0x1D then (None, False, k\<lparr>kb_ctrl := True\<rparr>)
       else if sc = 0x13 \<and> kb_ctrl k then (None, False, reset_input_state k)
       else (scancode_to_ascii sc (kb_shift k) (kb_caps_lock k), False, k))"

partial_function (option) read_loop :: "nat \<Rightarrow> bool \<Rightarrow> u8 list \<Rightarrow> Keyboard \<Rightarrow> (u8 list \<times> Keyboard) option" where
  "read_loop len saw_release_prefix out k =
    (if length out < len then
       case pop_scancode k of
         (None, k) \<Rightarrow> Some (out, k)
       | (Some sc, k) \<Rightarrow>
           (case decode_step sc saw_release_prefix k of (ch, saw, k) \<Rightarrow>
             read_loop len saw (case ch of Some c \<Rightarrow> out @ [c] | None \<Rightarrow> out) k)
     else Some (out, k))"

definition read_bytes :: "nat \<Rightarrow> Keyboard \<Rightarrow> (u8 list \<times> Keyboard) option" where
  "read_bytes len k = read_loop len False [] k"

definition read_nonblock :: "nat \<Rightarrow> Keyboard \<Rightarrow> (u8 list \<times> Keyboard) option" where
  "read_nonblock len k = read_bytes len k"

text \<open>The polling fallback, over the bytes that the controller has ready.\<close>

fun poll_hardware_loop :: "nat \<Rightarrow> u8 list \<Rightarrow> Keyboard \<times> Sched \<Rightarrow> Keyboard \<times> Sched" where
  "poll_hardware_loop raw [] w = w"
| "poll_hardware_loop raw (sc # scs) w =
    (let k = fst w;
         k = (if \<not> kb_fallback_active k then k\<lparr>kb_fallback_active := True, kb_fallback_logged := True\<rparr> else k)
     in poll_hardware_loop raw scs (feed_scancode raw sc False (k, snd w)))"

definition poll_hardware_nonblock :: "nat \<Rightarrow> u8 list \<Rightarrow> nat \<Rightarrow> Keyboard \<times> Sched \<Rightarrow> (u8 list \<times> Keyboard \<times> Sched) option" where
  "poll_hardware_nonblock raw scs len w =
    (let w = poll_hardware_loop raw scs w
     in do { (out, k) \<leftarrow> read_bytes len (fst w); Some (out, k, snd w) })"

definition kbd_wait_round :: "(nat \<Rightarrow> nat) \<Rightarrow> nat \<Rightarrow> Keyboard \<times> Sched \<Rightarrow> bool \<times> Keyboard \<times> Sched" where
  "kbd_wait_round cpu i w =
    (let (sleeps, q, sc) = wait_while (kb_tail (fst w) = kb_head (fst w)) (cpu i) (kb_waitq (fst w)) (snd w)
     in (sleeps, (fst w)\<lparr>kb_waitq := q\<rparr>, sc))"

partial_function (option) keyboard_read ::
  "(Keyboard \<times> Sched) wait_env \<Rightarrow> (nat \<Rightarrow> nat) \<Rightarrow> nat \<Rightarrow> nat \<Rightarrow> Keyboard \<times> Sched \<Rightarrow> (u8 list \<times> Keyboard \<times> Sched) option" where
  "keyboard_read env cpu len i w =
    Option.bind (read_bytes len (fst w)) (\<lambda>(out, k).
      if length out > 0 then Some (out, k, snd w)
      else Option.bind (wait_loop env (kbd_wait_round cpu) i (k, snd w)) (\<lambda>(i, w).
        keyboard_read env cpu len i w))"

definition keyboard_poll :: "Keyboard \<Rightarrow> bool" where
  "keyboard_poll k = (kb_tail k \<noteq> kb_head k)"

section \<open>The ring holds a queue\<close>

definition kbd_ok :: "Keyboard \<Rightarrow> bool" where
  "kbd_ok k \<longleftrightarrow> length (kb_buf k) = KBD_BUF_SIZE \<and> kb_head k < KBD_BUF_SIZE \<and> kb_tail k < KBD_BUF_SIZE"

definition kbd_fill :: "Keyboard \<Rightarrow> nat" where
  "kbd_fill k = (kb_head k + KBD_BUF_SIZE - kb_tail k) mod KBD_BUF_SIZE"

definition kbd_queue :: "Keyboard \<Rightarrow> u8 list" where
  "kbd_queue k = ring_list KBD_BUF_SIZE (kb_buf k) (kb_tail k) (kbd_fill k)"

lemma KBD_BUF_SIZE_pos [simp]: "0 < KBD_BUF_SIZE"
  by (simp add: KBD_BUF_SIZE_def)

lemma length_kbd_queue [simp]: "length (kbd_queue k) = kbd_fill k"
  by (simp add: kbd_queue_def)

lemma kbd_fill_less: "kbd_fill k < KBD_BUF_SIZE"
  by (simp add: kbd_fill_def)

lemma fill_nat:
  fixes h t n :: nat
  assumes "h < n" "t < n"
  shows "(h + n - t) mod n = (if t \<le> h then h - t else h + n - t)"
proof (cases "t \<le> h")
  case True
  then have "h + n - t = (h - t) + n"
    by simp
  then have "(h + n - t) mod n = (h - t) mod n"
    by (metis mod_add_self2)
  then show ?thesis
    using True assms by simp
qed (use assms in simp)

lemma fill_if: "kbd_ok k \<Longrightarrow> kbd_fill k = (if kb_tail k \<le> kb_head k then kb_head k - kb_tail k else kb_head k + KBD_BUF_SIZE - kb_tail k)"
  by (simp add: kbd_ok_def kbd_fill_def fill_nat)

lemma step_if: "i < KBD_BUF_SIZE \<Longrightarrow> (i + 1) mod KBD_BUF_SIZE = (if i + 1 = KBD_BUF_SIZE then 0 else i + 1)"
  by auto

lemma fill_eq_0: "kbd_ok k \<Longrightarrow> kbd_fill k = 0 \<longleftrightarrow> kb_tail k = kb_head k"
  by (auto simp: fill_if kbd_ok_def)

lemma head_eq: "kbd_ok k \<Longrightarrow> (kb_tail k + kbd_fill k) mod KBD_BUF_SIZE = kb_head k"
  by (auto simp: kbd_ok_def kbd_fill_def mod_add_right_eq)

lemma push_full:
  assumes "kbd_ok k"
  shows "(kb_head k + 1) mod KBD_BUF_SIZE = kb_tail k \<longleftrightarrow> kbd_fill k = KBD_BUF_SIZE - 1"
proof -
  have "kb_head k < KBD_BUF_SIZE" "kb_tail k < KBD_BUF_SIZE"
    using assms by (auto simp: kbd_ok_def)
  then show ?thesis
    unfolding fill_if [OF assms] step_if [OF \<open>kb_head k < KBD_BUF_SIZE\<close>] by (auto simp: KBD_BUF_SIZE_def)
qed

lemma push_fill:
  assumes "kbd_ok k" "kbd_fill k < KBD_BUF_SIZE - 1"
  shows "kbd_fill (k\<lparr>kb_head := (kb_head k + 1) mod KBD_BUF_SIZE\<rparr>) = kbd_fill k + 1"
proof -
  have b: "kb_head k < KBD_BUF_SIZE" "kb_tail k < KBD_BUF_SIZE"
    using assms by (auto simp: kbd_ok_def)
  have ok: "kbd_ok (k\<lparr>kb_head := (kb_head k + 1) mod KBD_BUF_SIZE\<rparr>)"
    using assms by (simp add: kbd_ok_def)
  show ?thesis
    using assms(2) b fill_if [OF assms(1)] fill_if [OF ok] step_if [OF b(1)] by (auto split: if_splits)
qed

lemma pop_fill:
  assumes "kbd_ok k" "kb_tail k \<noteq> kb_head k"
  shows "kbd_fill k = Suc (kbd_fill (k\<lparr>kb_tail := (kb_tail k + 1) mod KBD_BUF_SIZE\<rparr>))"
proof -
  have b: "kb_head k < KBD_BUF_SIZE" "kb_tail k < KBD_BUF_SIZE"
    using assms by (auto simp: kbd_ok_def)
  have ok: "kbd_ok (k\<lparr>kb_tail := (kb_tail k + 1) mod KBD_BUF_SIZE\<rparr>)"
    using assms by (simp add: kbd_ok_def)
  show ?thesis
    using assms(2) b fill_if [OF assms(1)] fill_if [OF ok] step_if [OF b(2)] by (auto split: if_splits)
qed

lemma push_queue:
  assumes "kbd_ok k" "kbd_fill k < KBD_BUF_SIZE - 1"
  shows "kbd_ok (push_scancode sc k)" "kbd_queue (push_scancode sc k) = kbd_queue k @ [sc]" "kb_dropped (push_scancode sc k) = kb_dropped k"
proof -
  have ne: "(kb_head k + 1) mod KBD_BUF_SIZE \<noteq> kb_tail k"
    using push_full [OF assms(1)] assms(2) by simp
  then have p: "push_scancode sc k = k\<lparr>kb_buf := (kb_buf k)[kb_head k := sc], kb_head := (kb_head k + 1) mod KBD_BUF_SIZE\<rparr>"
    by (simp add: push_scancode_def)
  show "kbd_ok (push_scancode sc k)" "kb_dropped (push_scancode sc k) = kb_dropped k"
    using assms(1) by (simp_all add: p kbd_ok_def)
  have fill: "kbd_fill (push_scancode sc k) = kbd_fill k + 1"
    using push_fill [OF assms] by (simp add: p kbd_fill_def)
  have "(kb_buf k)[kb_head k := sc] = ring_in KBD_BUF_SIZE (kb_tail k + kbd_fill k) [sc] (kb_buf k)"
    using head_eq [OF assms(1)] by simp
  then show "kbd_queue (push_scancode sc k) = kbd_queue k @ [sc]"
    using ring_list_in [of KBD_BUF_SIZE "kb_buf k" "kbd_fill k" "[sc]" "kb_tail k"] fill Suc_leI [OF kbd_fill_less [of k]] assms(1)
    by (simp add: p kbd_queue_def kbd_ok_def)
qed

lemma pop_queue:
  assumes "kbd_ok k"
  shows "kbd_queue k = [] \<Longrightarrow> pop_scancode k = (None, k)"
    "kbd_queue k = sc # scs \<Longrightarrow> \<exists>k'. pop_scancode k = (Some sc, k') \<and> kbd_ok k' \<and> kbd_queue k' = scs \<and> k' = k\<lparr>kb_tail := kb_tail k'\<rparr>"
proof -
  show "pop_scancode k = (None, k)" if "kbd_queue k = []"
    using that fill_eq_0 [OF assms] length_kbd_queue [of k] by (simp add: pop_scancode_def)
  assume q: "kbd_queue k = sc # scs"
  then have ne: "kb_tail k \<noteq> kb_head k"
    using fill_eq_0 [OF assms] length_kbd_queue [of k] by auto
  let ?k = "k\<lparr>kb_tail := (kb_tail k + 1) mod KBD_BUF_SIZE\<rparr>"
  have f: "kbd_fill k = Suc (kbd_fill ?k)"
    by (rule pop_fill [OF assms ne])
  have t: "kb_tail k mod KBD_BUF_SIZE = kb_tail k"
    using assms by (simp add: kbd_ok_def)
  have "kbd_queue k = kb_buf k ! kb_tail k # kbd_queue ?k"
    by (simp add: kbd_queue_def f ring_list_Suc t ring_list_mod [of KBD_BUF_SIZE "kb_buf k" "Suc (kb_tail k)"])
  then show "\<exists>k'. pop_scancode k = (Some sc, k') \<and> kbd_ok k' \<and> kbd_queue k' = scs \<and> k' = k\<lparr>kb_tail := kb_tail k'\<rparr>"
    using q ne assms by (auto simp: pop_scancode_def kbd_ok_def)
qed

section \<open>Reading returns\<close>

lemma decode_step_ring:
  assumes "decode_step sc saw k = (ch, saw', k')"
  shows "kb_buf k' = kb_buf k" "kb_head k' = kb_head k" "kb_tail k' = kb_tail k \<or> kb_tail k' = kb_head k"
  using assms by (auto simp: decode_step_def handle_key_release_def reset_input_state_def Let_def split: if_splits)

lemma decode_step_queue:
  assumes "kbd_ok k" "decode_step sc saw k = (ch, saw', k')"
  shows "kbd_ok k'" "kbd_queue k' = kbd_queue k \<or> kbd_queue k' = []"
proof -
  note r = decode_step_ring [OF assms(2)]
  show ok: "kbd_ok k'"
    using assms(1) r by (auto simp: kbd_ok_def)
  show "kbd_queue k' = kbd_queue k \<or> kbd_queue k' = []"
    using r(3)
  proof
    assume "kb_tail k' = kb_tail k"
    then show ?thesis
      using r by (simp add: kbd_queue_def kbd_fill_def)
  next
    assume "kb_tail k' = kb_head k"
    then have "kbd_fill k' = 0"
      using fill_eq_0 [OF ok] r(2) by simp
    then show ?thesis
      by (simp add: kbd_queue_def ring_list_def)
  qed
qed

text \<open>Every round takes a scancode out of the ring, so the loop ends.\<close>

lemma read_loop_returns:
  assumes "kbd_ok k" "length out \<le> len"
  shows "\<exists>out' k'. read_loop len saw out k = Some (out', k') \<and> kbd_ok k' \<and> length out' \<le> len
    \<and> (\<exists>used. kbd_queue k = used @ kbd_queue k')"
  using assms
proof (induction "length (kbd_queue k)" arbitrary: k saw out rule: less_induct)
  case less
  show ?case
  proof (cases "length out < len \<and> kbd_queue k \<noteq> []")
    case False
    then have "read_loop len saw out k = Some (out, k)"
      using pop_queue(1) [OF less.prems(1)] by (subst read_loop.simps) auto
    then show ?thesis
      using less.prems by auto
  next
    case True
    then obtain sc scs where q: "kbd_queue k = sc # scs"
      by (cases "kbd_queue k") auto
    obtain k1 where k1: "pop_scancode k = (Some sc, k1)" "kbd_ok k1" "kbd_queue k1 = scs"
      using pop_queue(2) [OF less.prems(1) q] by blast
    obtain ch saw' k2 where d: "decode_step sc saw k1 = (ch, saw', k2)"
      by (cases "decode_step sc saw k1") auto
    note dq = decode_step_queue [OF k1(2) d]
    let ?out = "case ch of Some c \<Rightarrow> out @ [c] | None \<Rightarrow> out"
    have shorter: "length (kbd_queue k2) < length (kbd_queue k)" "length ?out \<le> len"
      using dq(2) k1(3) q True by (auto simp del: length_kbd_queue split: option.split)
    have step: "read_loop len saw out k = read_loop len saw' ?out k2"
      using True k1(1) d by (subst read_loop.simps) simp
    obtain used where used: "kbd_queue k = used @ kbd_queue k2"
      using dq(2) k1(3) q by (metis append_Cons append_Nil append_Nil2)
    from less.hyps [OF shorter(1) dq(1) shorter(2), of saw'] show ?thesis
      unfolding step used by (metis append_assoc)
  qed
qed

text \<open>C39: Reading from the keyboard without blocking always returns, hands out at most as many bytes as asked for,
  and only takes scancodes from the front of the queue.\<close>

theorem read_bytes_returns:
  assumes "kbd_ok k"
  shows "\<exists>out k'. read_bytes len k = Some (out, k') \<and> kbd_ok k' \<and> length out \<le> len \<and> (\<exists>used. kbd_queue k = used @ kbd_queue k')"
  unfolding read_bytes_def by (rule read_loop_returns [OF assms]) simp

section \<open>Typing letters\<close>

definition is_letter_code :: "u8 \<Rightarrow> bool" where
  "is_letter_code c \<longleftrightarrow> map_of letter_table c \<noteq> None"

definition key_strokes :: "u8 list \<Rightarrow> u8 list" where
  "key_strokes cs = concat (map (\<lambda>c. [c, or c 0x80]) cs)"

lemma letter_code_cases: "is_letter_code c \<Longrightarrow> c \<in> set (map fst letter_table)"
  by (auto simp: is_letter_code_def map_of_eq_None_iff)

lemma letter_code_facts:
  assumes "is_letter_code c"
  shows "c \<noteq> 0xE0 \<and> c \<noteq> 0xE1 \<and> c \<noteq> 0xF0 \<and> c \<noteq> 0xFA \<and> c \<noteq> 0x2A \<and> c \<noteq> 0x36 \<and> c \<noteq> 0x3A \<and> c \<noteq> 0x1D \<and> and c 0x80 = 0
    \<and> unat c \<noteq> NO_LAST_MAKE \<and> or c 0x80 \<noteq> 0xE0 \<and> or c 0x80 \<noteq> 0xE1 \<and> or c 0x80 \<noteq> 0xF0 \<and> or c 0x80 \<noteq> 0xFA
    \<and> and (or c 0x80) 0x80 \<noteq> 0 \<and> and (or c 0x80) 0x7F = c"
proof -
  have "\<forall>c \<in> set (map fst letter_table). c \<noteq> 0xE0 \<and> c \<noteq> 0xE1 \<and> c \<noteq> 0xF0 \<and> c \<noteq> 0xFA \<and> c \<noteq> 0x2A \<and> c \<noteq> 0x36 \<and> c \<noteq> 0x3A \<and> c \<noteq> 0x1D \<and> and c 0x80 = 0
    \<and> unat c \<noteq> NO_LAST_MAKE \<and> or c 0x80 \<noteq> 0xE0 \<and> or c 0x80 \<noteq> 0xE1 \<and> or c 0x80 \<noteq> 0xF0 \<and> or c 0x80 \<noteq> 0xFA
    \<and> and (or c 0x80) 0x80 \<noteq> 0 \<and> and (or c 0x80) 0x7F = c"
    by (simp add: letter_table_def NO_LAST_MAKE_def)
  then show ?thesis
    using letter_code_cases [OF assms] by blast
qed

lemma queue_last_make [simp]:
  "kbd_queue (k\<lparr>kb_last_make := x\<rparr>) = kbd_queue k" "kbd_ok (k\<lparr>kb_last_make := x\<rparr>) = kbd_ok k"
  by (simp_all add: kbd_queue_def kbd_fill_def kbd_ok_def)

definition typed :: "bool \<Rightarrow> u8 \<Rightarrow> u8" where
  "typed caps c = the (scancode_letter c caps)"

lemma ascii_letter: "is_letter_code c \<Longrightarrow> scancode_to_ascii c sh caps = Some (typed caps c)"
  by (auto simp: is_letter_code_def scancode_to_ascii_def scancode_letter_def typed_def split: option.split)

text \<open>A letter key pressed and released gives one byte and leaves the modes as they were.\<close>

lemma read_stroke:
  assumes "kbd_ok k" "kbd_queue k = c # or c 0x80 # rest" "is_letter_code c" "\<not> kb_ctrl k" "kb_last_make k = NO_LAST_MAKE"
    "length out + 1 < len"
  shows "\<exists>t. read_loop len False out k = read_loop len False (out @ [typed (kb_caps_lock k) c]) (k\<lparr>kb_tail := t\<rparr>)
    \<and> kbd_ok (k\<lparr>kb_tail := t\<rparr>) \<and> kbd_queue (k\<lparr>kb_tail := t\<rparr>) = rest"
proof -
  note f = letter_code_facts [OF assms(3)]
  obtain k1 where k1: "pop_scancode k = (Some c, k1)" "kbd_ok k1" "kbd_queue k1 = or c 0x80 # rest" "k1 = k\<lparr>kb_tail := kb_tail k1\<rparr>"
    using pop_queue(2) [OF assms(1,2)] by blast
  have modes: "kb_ctrl k1 = kb_ctrl k" "kb_last_make k1 = kb_last_make k" "kb_caps_lock k1 = kb_caps_lock k"
    using arg_cong [OF k1(4), of kb_ctrl] arg_cong [OF k1(4), of kb_last_make] arg_cong [OF k1(4), of kb_caps_lock] by simp_all
  let ?k1 = "k1\<lparr>kb_last_make := unat c\<rparr>"
  have press: "decode_step c False k1 = (Some (typed (kb_caps_lock k) c), False, ?k1)"
    using f assms(4,5) modes ascii_letter [OF assms(3)] by (auto simp: decode_step_def Let_def)
  obtain k2 where k2: "pop_scancode ?k1 = (Some (or c 0x80), k2)" "kbd_ok k2" "kbd_queue k2 = rest" "k2 = ?k1\<lparr>kb_tail := kb_tail k2\<rparr>"
    using pop_queue(2) [of ?k1 "or c 0x80" rest] k1(2,3) by auto
  have last2: "kb_last_make k2 = unat c"
    using arg_cong [OF k2(4), of kb_last_make] by simp
  have release: "decode_step (or c 0x80) False k2 = (None, False, k2\<lparr>kb_last_make := NO_LAST_MAKE\<rparr>)"
    using f last2 by (simp add: decode_step_def handle_key_release_def Let_def)
  have fin: "k2\<lparr>kb_last_make := NO_LAST_MAKE\<rparr> = k\<lparr>kb_tail := kb_tail k2\<rparr>"
    by (subst k2(4), subst k1(4)) (simp add: assms(5) [symmetric])
  have "read_loop len False out k = read_loop len False (out @ [typed (kb_caps_lock k) c]) ?k1"
    using assms(6) k1(1) press by (subst read_loop.simps) simp
  also have "\<dots> = read_loop len False (out @ [typed (kb_caps_lock k) c]) (k2\<lparr>kb_last_make := NO_LAST_MAKE\<rparr>)"
    using assms(6) k2(1) release by (subst read_loop.simps) simp
  finally show ?thesis
    using k2(2,3) unfolding fin [symmetric] by (intro exI [of _ "kb_tail k2"]) (simp add: fin [symmetric])
qed

lemma read_strokes:
  assumes "kbd_ok k" "kbd_queue k = key_strokes cs" "list_all is_letter_code cs" "\<not> kb_ctrl k" "kb_last_make k = NO_LAST_MAKE"
    "length out + length cs < len"
  shows "\<exists>k'. read_loop len False out k = Some (out @ map (typed (kb_caps_lock k)) cs, k') \<and> kbd_queue k' = []"
  using assms
proof (induction cs arbitrary: k out)
  case Nil
  then have "read_loop len False out k = Some (out, k)"
    using pop_queue(1) [of k] by (subst read_loop.simps) (simp add: key_strokes_def)
  then show ?case
    using Nil.prems(2) by (simp add: key_strokes_def)
next
  case (Cons c cs)
  have "kbd_queue k = c # or c 0x80 # key_strokes cs" "is_letter_code c" "length out + 1 < len"
    using Cons.prems(2,3,6) by (simp_all add: key_strokes_def)
  then obtain t where t: "read_loop len False out k = read_loop len False (out @ [typed (kb_caps_lock k) c]) (k\<lparr>kb_tail := t\<rparr>)"
      "kbd_ok (k\<lparr>kb_tail := t\<rparr>)" "kbd_queue (k\<lparr>kb_tail := t\<rparr>) = key_strokes cs"
    using read_stroke [OF Cons.prems(1) _ _ Cons.prems(4,5)] by blast
  from Cons.IH [OF t(2,3), of "out @ [typed (kb_caps_lock k) c]"] show ?case
    using Cons.prems(3-6) t(1) by simp
qed

text \<open>The interrupt handler queues the scancodes in order.\<close>

lemma irq_queue:
  assumes "kbd_ok (fst w)" "sc \<noteq> 0xFA" "kbd_fill (fst w) < KBD_BUF_SIZE - 1"
  shows "kbd_ok (fst (irq_scancode raw sc w))" "kbd_queue (fst (irq_scancode raw sc w)) = kbd_queue (fst w) @ [sc]"
    "kb_ctrl (fst (irq_scancode raw sc w)) = kb_ctrl (fst w)" "kb_caps_lock (fst (irq_scancode raw sc w)) = kb_caps_lock (fst w)"
    "kb_last_make (fst (irq_scancode raw sc w)) = kb_last_make (fst w)"
proof -
  let ?k = "(fst w)\<lparr>kb_irq_input_active := True, kb_fallback_active := False, kb_fallback_logged := False\<rparr>"
  have ok: "kbd_ok ?k" "kbd_fill ?k < KBD_BUF_SIZE - 1" "kbd_queue ?k = kbd_queue (fst w)"
    using assms by (simp_all add: kbd_ok_def kbd_fill_def kbd_queue_def)
  have "\<exists>q. fst (irq_scancode raw sc w) = (push_scancode sc ?k)\<lparr>kb_waitq := q\<rparr>"
    using assms(2) by (auto simp: irq_scancode_def feed_scancode_def Let_def split: prod.split)
  then obtain q where e: "fst (irq_scancode raw sc w) = (push_scancode sc ?k)\<lparr>kb_waitq := q\<rparr>"
    by blast
  note p = push_queue [OF ok(1,2), of sc]
  show "kbd_ok (fst (irq_scancode raw sc w))" "kbd_queue (fst (irq_scancode raw sc w)) = kbd_queue (fst w) @ [sc]"
    using p(1,2) ok(3) unfolding e by (simp_all add: kbd_ok_def kbd_fill_def kbd_queue_def)
  show "kb_ctrl (fst (irq_scancode raw sc w)) = kb_ctrl (fst w)" "kb_caps_lock (fst (irq_scancode raw sc w)) = kb_caps_lock (fst w)"
    "kb_last_make (fst (irq_scancode raw sc w)) = kb_last_make (fst w)"
    unfolding e by (simp_all add: push_scancode_def Let_def)
qed

lemma irq_fold:
  assumes "kbd_ok (fst w)" "0xFA \<notin> set scs" "length (kbd_queue (fst w)) + length scs < KBD_BUF_SIZE"
  shows "kbd_ok (fst (fold (irq_scancode raw) scs w)) \<and> kbd_queue (fst (fold (irq_scancode raw) scs w)) = kbd_queue (fst w) @ scs
    \<and> kb_ctrl (fst (fold (irq_scancode raw) scs w)) = kb_ctrl (fst w)
    \<and> kb_caps_lock (fst (fold (irq_scancode raw) scs w)) = kb_caps_lock (fst w)
    \<and> kb_last_make (fst (fold (irq_scancode raw) scs w)) = kb_last_make (fst w)"
  using assms
proof (induction scs arbitrary: w)
  case (Cons sc scs)
  have sc: "sc \<noteq> 0xFA" "kbd_fill (fst w) < KBD_BUF_SIZE - 1"
    using Cons.prems(2,3) by auto
  note i = irq_queue [OF Cons.prems(1) sc, of raw]
  have "length (kbd_queue (fst (irq_scancode raw sc w))) + length scs < KBD_BUF_SIZE"
    using Cons.prems(3) unfolding i(2) by simp
  then show ?case
    using Cons.IH [OF i(1)] Cons.prems(2) i by simp
qed simp

lemma strokes_no_ack: "list_all is_letter_code cs \<Longrightarrow> 0xFA \<notin> set (key_strokes cs)"
  using letter_code_facts by (induction cs) (auto simp: key_strokes_def)

lemma length_strokes: "length (key_strokes cs) = 2 * length cs"
  by (induction cs) (auto simp: key_strokes_def)

text \<open>C38: Typing letters works: when the interrupt handler receives the scancodes of letter keys pressed and
  released one after the other, as many as the ring can hold, the next read delivers exactly these
  letters in order and empties the ring. Upper case is decided by caps lock alone; the letters are
  the same whether or not shift is held.\<close>

theorem keyboard_types_letters:
  assumes "kbd_ok k" "kbd_queue k = []" "\<not> kb_ctrl k" "kb_last_make k = NO_LAST_MAKE"
    "list_all is_letter_code cs" "2 * length cs < KBD_BUF_SIZE" "length cs < len"
  shows "\<exists>k'. read_bytes len (fst (fold (irq_scancode raw) (key_strokes cs) (k, sched))) = Some (map (typed (kb_caps_lock k)) cs, k')
    \<and> kbd_queue k' = []"
proof -
  let ?k = "fst (fold (irq_scancode raw) (key_strokes cs) (k, sched))"
  have "length (kbd_queue (fst (k, sched))) + length (key_strokes cs) < KBD_BUF_SIZE"
    using assms(6) unfolding fst_conv assms(2) length_strokes by simp
  from irq_fold [OF _ strokes_no_ack [OF assms(5)] this, of raw]
  have "kbd_ok ?k" "kbd_queue ?k = key_strokes cs" "\<not> kb_ctrl ?k" "kb_last_make ?k = NO_LAST_MAKE" "kb_caps_lock ?k = kb_caps_lock k"
    using assms(1-4) by simp_all
  then show ?thesis
    using read_strokes [of ?k cs "[]" len] assms(5,7) by (simp add: read_bytes_def)
qed

theorem keyboard_types_letters_witness:
  "\<exists>k'. read_bytes 8 (fst (fold (irq_scancode 0) (key_strokes [0x23, 0x17]) (keyboard_init\<lparr>kb_shift := True\<rparr>, sample_sched)))
    = Some ([byte CHR ''h'', byte CHR ''i''], k')"
proof -
  let ?k = "keyboard_init\<lparr>kb_shift := True\<rparr>"
  have "kbd_ok ?k" "kbd_queue ?k = []" "\<not> kb_ctrl ?k" "kb_last_make ?k = NO_LAST_MAKE"
    by (simp_all add: keyboard_init_def kbd_ok_def kbd_queue_def kbd_fill_def ring_list_def)
  moreover have "list_all is_letter_code [0x23, 0x17]"
    by (simp add: is_letter_code_def letter_table_def)
  moreover have "typed (kb_caps_lock ?k) 0x23 = byte CHR ''h''" "typed (kb_caps_lock ?k) 0x17 = byte CHR ''i''"
    by (simp_all add: typed_def scancode_letter_def letter_table_def keyboard_init_def)
  ultimately show ?thesis
    using keyboard_types_letters [of ?k "[0x23, 0x17]" 8 0 sample_sched] by (auto simp: KBD_BUF_SIZE_def)
qed

theorem read_bytes_returns_witness:
  "\<exists>out k'. read_bytes 3 (push_scancode 0x2A keyboard_init) = Some (out, k') \<and> length out \<le> 3"
proof -
  have "kbd_ok keyboard_init" "kbd_fill keyboard_init < KBD_BUF_SIZE - 1"
    by (simp_all add: keyboard_init_def kbd_ok_def kbd_fill_def KBD_BUF_SIZE_def)
  from read_bytes_returns [OF push_queue(1) [OF this, where sc = "0x2A"], where len = 3] show ?thesis
    by blast
qed

end
