(* ===== verification/Spec2Isabelle.thy ===== *)
theory Spec2Isabelle
  imports VmaTree FrameInit FrameStats Mapper AddressSpace Scheduler Sockfs Keyboard
begin

text \<open>
  \<^bold>\<open>Verification of the Boruix kernel.\<close>

  Boruix is a preemptive multi-CPU x86-64 kernel in Rust. This library is a shallow embedding of its
  memory manager, its scheduler, its file layer and its keyboard driver, with the theorems that make
  them correct and those that show where they are not. Every definition keeps the name of the
  function it translates where HOL allows it.

  \<^bold>\<open>How the code is represented.\<close> The kernel is a release build, so machine integers wrap around
  and are words; numbers that are bounded by a table (frame numbers, orders, indices, CPU numbers)
  are natural numbers. A \<open>struct\<close> is a record, an \<open>enum\<close> a datatype, \<open>Result\<close> the type \<open>result\<close>
  with \<open>Ok\<close> and \<open>Err\<close>, and the operator \<open>?\<close> is \<open>ebind\<close>. Stateful code passes its state
  explicitly; an \<open>Arc\<close> or a raw pointer is a reference into a store that is part of the state, so
  sharing is visible. \<open>None\<close> is a call without a result: a panic, an access through a dangling or
  null pointer, a lock that the caller already holds, or a loop without an end. Loops that may not
  end are \<open>partial_function\<close>s, and that they return is always part of a theorem. An operation runs
  with its locks held and is one step; concurrency is the interleaving of steps.

  \<^bold>\<open>The theories and the code they model\<close> (paths are under \<open>src/\<close>).

  \<^item> \<open>Prelude\<close>: integer widths, results, the arithmetic of Rust's standard library, shared lemmas.
  \<^item> \<open>Addr\<close>: \<open>mm/src/addr.rs\<close>, \<open>mm/src/page_table.rs\<close>, \<open>mm/src/error.rs\<close>. Alignment, the indices of
    the four table levels and the bits of page-table entries.
  \<^item> \<open>FrameLists\<close>, \<open>FrameAllocator\<close>, \<open>FrameInit\<close>, \<open>FrameStats\<close>: \<open>mm/src/frame_allocator/\<close>. The free lists
    threaded through the frame metadata, the buddy allocator with its lazily entered regions,
    per-CPU caches, reserve and compaction, its construction from the memory map at boot, and its
    statistics. The list invariant \<open>links\<close> and the geometric invariant \<open>pmm_inv\<close> give that no operation
    faults, that a block handed out was free and is disjoint from all others, and that giving it back
    restores the free frames. The locale \<open>frame_source\<close> is the contract that the clients use.
  \<^item> \<open>Rmap\<close>, \<open>Mapper\<close>: \<open>mm/src/rmap.rs\<close>, \<open>mm/src/mapper.rs\<close>. Page tables as a store of tables; mapping and
    unmapping change the translation of exactly one page of the right size, and moving a page to
    another frame keeps every other translation.
  \<^item> \<open>VmaTree\<close>, \<open>AddressSpace\<close>: \<open>mm/src/memory_set/\<close> without the ELF loader. The treap of areas with its
    merging insertion, address spaces with range checks, \<open>push\<close>, \<open>fork\<close> and \<open>drop\<close>, and the page-fault
    handler. The locale \<open>area_index\<close> is what range checks need of the treap.
  \<^item> \<open>Scheduler\<close>: \<open>kernel_task/src/task/runqueue.rs\<close>, \<open>scheduler.rs\<close>, \<open>preempt.rs\<close>, \<open>task.rs\<close>, \<open>waitqueue.rs\<close>
    and the waiting loop of \<open>kernel_syscall/src/syscall/process.rs\<close>. The step relation \<open>sched_step\<close>
    carries the invariants of the ready queues and their counters.
  \<^item> \<open>FdTable\<close>: \<open>kernel_task/src/fd.rs\<close>. Descriptor tables refine maps from descriptors to open files, and
    over every run of \<open>fd_step\<close> the reference counts are the numbers of references.
  \<^item> \<open>Path\<close>, \<open>Vfs\<close>, \<open>VfsTree\<close>: \<open>kernel_fs/src/vfs/\<close>. A file system is a record of operations; \<open>fs_backend\<close> is the
    contract of one file system and \<open>fs_backends\<close> that of a registry of them. In it, every step of
    \<open>vfs_step\<close> keeps the tree of nodes well-formed, and path resolution finds what was created.
  \<^item> \<open>Tmpfs\<close>, \<open>VfsFile\<close>, \<open>Ring\<close>, \<open>Pipefs\<close>, \<open>Sockfs\<close>: \<open>kernel_fs/src/fs/tmpfs.rs\<close>, \<open>pipefs.rs\<close>, \<open>sockfs.rs\<close> and
    \<open>kernel_fs/src/fd_adapter.rs\<close>. tmpfs satisfies the contracts of \<open>VfsTree\<close>; the rings of pipes and of
    sockets satisfy \<open>byte_queue\<close>, so both deliver bytes in order.
  \<^item> \<open>Keyboard\<close>: \<open>kernel_driver_hub/src/driver_hub/keyboard.rs\<close>. The scancode ring, the decoder and the reads.

  \<^bold>\<open>How the parts interact.\<close> The mapper takes and returns frames through \<open>frame_source\<close>; address spaces
  use the mapper, the allocator and the treap; the fault handler runs on an address space. Pipes and
  sockets put tasks to sleep with the wait queues of \<open>Scheduler\<close>: the state of the file layer is a record
  that extends the store of nodes with the heap of boxes, the pipes or sockets, and the scheduler.

  \<^bold>\<open>Choices and bounds.\<close> There is no fuel. What a waiting task finds when it runs again is an
  arbitrary environment function of the state. Physical addresses have 52 bits. Growing a heap object is
  taken to succeed up to the limit of a Rust vector (\<open>isize::MAX\<close> bytes). The memory map, the outcome of \<open>try_lock\<close>, the
  hardware's CPU number and the bytes of the keyboard controller are arguments.

  \<^bold>\<open>Not modelled.\<close> Boot, descriptor tables, interrupt entry, the context switch and the start of other CPUs are
  assembly or register input and output. The terminal emulator \<open>flanterm_rust\<close> is a machine translation of C
  that writes pixels through raw pointers, with a generated font. The drivers for PCI, ATA,
  the network card, the clock and the serial port are dialogues with devices. The heap is the
  crate \<open>linked_list_allocator\<close>, which is not in the repository. fatfs works on a block device, and sysfs and procfs print
  kernel state as text. The user programs run above the system-call interface. Debug output,
  \<open>Debug\<close> and \<open>Display\<close> instances and the effect of TLB flushes have no counterpart in the state.
\<close>

end
